(* ===== verification/Prelude.thy ===== *)
theory Prelude
  imports Main "HOL-Library.Word" "HOL-Library.Monad_Syntax"
begin

text \<open>
  The vocabulary every component shares.

  Machine integers: C's unsigned types are words of their width, so that \<open>+\<close> and \<open>-\<close>
  wrap as the hardware's do. C's signed \<open>int\<close> is HOL's \<open>int\<close>, because signed overflow
  has no meaning in C that a model could give; the places where a signed value is made
  from an unsigned one write the conversion out.

  Calls that may not return: a kernel function is a HOL function into \<open>option\<close>.
  \<open>None\<close> stands for a call that never returns to its caller in the present run: it
  reached \<open>panic\<close> (which spins for ever, printf.c), it spins on a spin lock that another
  hart holds, or it would sleep on a lock of another process. State is passed explicitly
  and the \<open>do\<close> notation of the option monad sequences the calls.

  Loops over the kernel's fixed tables are \<open>for_n\<close> (a body per index) and \<open>search_n\<close>
  (a body per index that may leave the loop with a value).
\<close>

type_synonym u8 = "8 word"
type_synonym u16 = "16 word"
type_synonym u32 = "32 word"
type_synonym u64 = "64 word"

named_theorems kstep \<open>rewrite rules that run one kernel call whose preconditions hold\<close>
named_theorems kframe \<open>what a kernel call leaves unchanged\<close>

section \<open>The option monad\<close>

lemmas bind_Some_iff = Option.bind_eq_Some_conv

lemma bind_SomeI [intro]:
  "m = Some x \<Longrightarrow> f x = Some y \<Longrightarrow> Option.bind m f = Some y"
  by simp

lemma bind_pair_Some_iff:
  "(Option.bind m (\<lambda>(x, y). f x y) = Some z) \<longleftrightarrow> (\<exists>x y. m = Some (x, y) \<and> f x y = Some z)"
  by (cases m) auto

section \<open>Counting loops\<close>

lemma upt_step: "[i..<Suc (i + n)] = i # [Suc i..<Suc (i + n)]"
  by (simp add: upt_conv_Cons del: upt_Suc)

text \<open>\<open>for (j = i; j < i + n; j++) body\<close>, each iteration a call that may not return.\<close>

primrec for_n :: "nat \<Rightarrow> nat \<Rightarrow> (nat \<Rightarrow> 's \<Rightarrow> 's option) \<Rightarrow> 's \<Rightarrow> 's option" where
  "for_n i 0 f s = Some s"
| "for_n i (Suc n) f s = Option.bind (f i s) (for_n (Suc i) n f)"

text \<open>The same loop with a body that may leave it: \<open>Some v\<close> is a \<open>return\<close> or a
  \<open>break\<close> with \<open>v\<close>, \<open>None\<close> goes on; the loop's own \<open>None\<close> is falling off its end.\<close>

primrec search_n :: "nat \<Rightarrow> nat \<Rightarrow> (nat \<Rightarrow> 's \<Rightarrow> ('r option \<times> 's) option) \<Rightarrow> 's
    \<Rightarrow> ('r option \<times> 's) option" where
  "search_n i 0 f s = Some (None, s)"
| "search_n i (Suc n) f s = Option.bind (f i s)
     (\<lambda>(r, s). case r of Some v \<Rightarrow> Some (Some v, s) | None \<Rightarrow> search_n (Suc i) n f s)"

text \<open>A loop whose body calls the function being defined.\<close>

lemma for_n_mono [partial_function_mono]:
  assumes "\<And>i s. mono_option (\<lambda>f. B f i s)"
  shows "mono_option (\<lambda>f. for_n i n (B f) s)"
proof (induction n arbitrary: i s)
  case 0
  then show ?case by (simp add: option.const_mono)
next
  case (Suc n)
  show ?case unfolding for_n.simps using assms Suc.IH by (intro bind_mono)
qed

lemma for_n_start: "0 < n \<Longrightarrow> f i s = f i s' \<Longrightarrow> for_n i n f s = for_n i n f s'"
  and search_n_start: "0 < n \<Longrightarrow> g i s = g i s' \<Longrightarrow> search_n i n g s = search_n i n g s'"
  by (cases n; simp)+

lemma for_n_acc:
  "(\<And>j a. i \<le> j \<Longrightarrow> j < i + n \<Longrightarrow> f j (a, s) = Some (g j a, s)) \<Longrightarrow>
    for_n i n f (a, s) = Some (fold g [i..<i + n] a, s)"
proof (induction n arbitrary: i a)
  case 0
  then show ?case by simp
next
  case (Suc n)
  have "for_n (Suc i) n f (g i a, s) = Some (fold g [Suc i..<Suc i + n] (g i a), s)"
    by (rule Suc.IH) (use Suc.prems in auto)
  then show ?case using Suc.prems [of i a] by (simp add: upt_step del: upt_Suc)
qed

lemma for_n_states:
  "(\<And>j. i \<le> j \<Longrightarrow> j < i + n \<Longrightarrow> f j (S j) = Some (S (Suc j))) \<Longrightarrow> for_n i n f (S i) = Some (S (i + n))"
proof (induction n arbitrary: i)
  case 0
  then show ?case by simp
next
  case (Suc n)
  have "for_n (Suc i) n f (S (Suc i)) = Some (S (Suc i + n))"
    by (rule Suc.IH) (use Suc.prems in auto)
  then show ?case using Suc.prems [of i] by simp
qed

lemma for_n_total:
  assumes "\<And>j s. i \<le> j \<Longrightarrow> j < i + n \<Longrightarrow> I j s \<Longrightarrow> \<exists>s'. f j s = Some s' \<and> I (Suc j) s'"
    and "I i s"
  shows "\<exists>s'. for_n i n f s = Some s' \<and> I (i + n) s'"
  using assms
proof (induction n arbitrary: i s)
  case 0
  then show ?case by simp
next
  case (Suc n)
  from Suc.prems(1) [of i s] Suc.prems(2) obtain s1 where
    s1: "f i s = Some s1" "I (Suc i) s1" by auto
  have "\<exists>s'. for_n (Suc i) n f s1 = Some s' \<and> I (Suc i + n) s'"
    by (rule Suc.IH) (use Suc.prems(1) s1(2) in auto)
  with s1(1) show ?case by simp
qed

lemma for_n_inv:
  assumes "\<And>j s s'. i \<le> j \<Longrightarrow> j < i + n \<Longrightarrow> I j s \<Longrightarrow> f j s = Some s' \<Longrightarrow> I (Suc j) s'"
    and "for_n i n f s = Some s'" and "I i s"
  shows "I (i + n) s'"
  using assms
proof (induction n arbitrary: i s)
  case 0
  then show ?case by simp
next
  case (Suc n)
  from Suc.prems(2) obtain s1 where
    s1: "f i s = Some s1" "for_n (Suc i) n f s1 = Some s'" by (auto simp: bind_Some_iff)
  have "I (Suc i + n) s'"
    by (rule Suc.IH [OF _ s1(2)]) (use Suc.prems(1,3) s1(1) in auto)
  then show ?case by simp
qed

lemma for_n_pure:
  assumes "\<And>j s. i \<le> j \<Longrightarrow> j < i + n \<Longrightarrow> P s \<Longrightarrow> f j s = Some (g j s) \<and> P (g j s)" and "P s"
  shows "for_n i n f s = Some (fold g [i..<i + n] s) \<and> P (fold g [i..<i + n] s)"
  using assms
proof (induction n arbitrary: i s)
  case 0
  then show ?case by simp
next
  case (Suc n)
  have hd: "f i s = Some (g i s)" "P (g i s)"
    using Suc.prems by auto
  have "for_n (Suc i) n f (g i s) = Some (fold g [Suc i..<Suc i + n] (g i s)) \<and>
      P (fold g [Suc i..<Suc i + n] (g i s))"
    by (rule Suc.IH) (use Suc.prems(1) hd(2) in auto)
  moreover have "[i..<i + Suc n] = i # [Suc i..<Suc i + n]"
    by (simp add: upt_conv_Cons)
  ultimately show ?case using hd by simp
qed

lemma search_n_pure:
  assumes "\<And>j. i \<le> j \<Longrightarrow> j < i + n \<Longrightarrow> f j s = Some (if P j then Some (v j) else None, s)"
  shows "search_n i n f s = Some (map_option v (find P [i..<i + n]), s)"
  using assms
proof (induction n arbitrary: i)
  case 0
  then show ?case by simp
next
  case (Suc n)
  have hd: "f i s = Some (if P i then Some (v i) else None, s)"
    using Suc.prems by auto
  have "search_n (Suc i) n f s = Some (map_option v (find P [Suc i..<Suc i + n]), s)"
    by (rule Suc.IH) (use Suc.prems in auto)
  moreover have "[i..<i + Suc n] = i # [Suc i..<Suc i + n]"
    by (simp add: upt_conv_Cons)
  ultimately show ?case using hd by simp
qed

text \<open>A search whose state at index \<open>j\<close> is \<open>S j\<close> until it finds what it looks for.\<close>

lemma search_n_find:
  assumes "\<And>j. i \<le> j \<Longrightarrow> j < i + n \<Longrightarrow> \<not> P j \<Longrightarrow> f j (S j) = Some (None, S (Suc j))"
    and "\<And>j. i \<le> j \<Longrightarrow> j < i + n \<Longrightarrow> P j \<Longrightarrow> f j (S j) = Some (Some (v j), g j)"
  shows "search_n i n f (S i) =
    Some (case find P [i..<i + n] of None \<Rightarrow> (None, S (i + n)) | Some j \<Rightarrow> (Some (v j), g j))"
  using assms
proof (induction n arbitrary: i)
  case 0
  then show ?case by simp
next
  case (Suc n)
  have "search_n (Suc i) n f (S (Suc i)) =
      Some (case find P [Suc i..<Suc i + n] of None \<Rightarrow> (None, S (Suc i + n)) | Some j \<Rightarrow> (Some (v j), g j))"
    by (rule Suc.IH) (use Suc.prems in auto)
  then show ?case using Suc.prems(1) [of i] Suc.prems(2) [of i]
    by (cases "P i") (simp_all add: upt_step del: upt_Suc cong: option.case_cong)
qed

lemma search_n_hit:
  "(\<And>j. i \<le> j \<Longrightarrow> j < c \<Longrightarrow> f j (S j) = Some (None, S (Suc j))) \<Longrightarrow> f c (S c) = Some (Some v, g) \<Longrightarrow>
   i \<le> c \<Longrightarrow> c < i + n \<Longrightarrow> search_n i n f (S i) = Some (Some v, g)"
proof (induction n arbitrary: i)
  case 0
  then show ?case by simp
next
  case (Suc n)
  show ?case
  proof (cases "i = c")
    case True
    then show ?thesis using Suc.prems(2) by simp
  next
    case False
    have "search_n (Suc i) n f (S (Suc i)) = Some (Some v, g)"
      by (rule Suc.IH) (use Suc.prems False in auto)
    then show ?thesis using Suc.prems(1) [of i] Suc.prems(3) False by simp
  qed
qed

lemma search_n_total:
  assumes "\<And>j s. i \<le> j \<Longrightarrow> j < i + n \<Longrightarrow> I j s \<Longrightarrow>
      \<exists>r s'. f j s = Some (r, s') \<and> (case r of None \<Rightarrow> I (Suc j) s' | Some v \<Rightarrow> Q v s')"
    and "I i s"
  shows "\<exists>r s'. search_n i n f s = Some (r, s') \<and>
      (case r of None \<Rightarrow> I (i + n) s' | Some v \<Rightarrow> Q v s')"
  using assms
proof (induction n arbitrary: i s)
  case 0
  then show ?case by simp
next
  case (Suc n)
  from Suc.prems(1) [of i s] Suc.prems(2) obtain r s1 where
    s1: "f i s = Some (r, s1)" "case r of None \<Rightarrow> I (Suc i) s1 | Some v \<Rightarrow> Q v s1" by auto
  show ?case
  proof (cases r)
    case None
    with s1(2) have "I (Suc i) s1" by simp
    then have "\<exists>r s'. search_n (Suc i) n f s1 = Some (r, s') \<and>
      (case r of None \<Rightarrow> I (Suc i + n) s' | Some v \<Rightarrow> Q v s')"
      using Suc.prems(1) by (intro Suc.IH) auto
    with s1(1) None show ?thesis unfolding add_Suc_shift by simp
  next
    case (Some v)
    with s1 show ?thesis by simp
  qed
qed

section \<open>Characters\<close>

text \<open>A \<open>char\<close> promoted to \<open>int\<close>, and the byte it is in memory.\<close>

definition chr_int :: "char \<Rightarrow> int" where
  "chr_int c = of_char c"

definition chr_byte :: "char \<Rightarrow> u8" where
  "chr_byte c = of_char c"

definition bytes_of :: "string \<Rightarrow> u8 list" where
  "bytes_of cs = map chr_byte cs"

lemma chr_int_less: "chr_int c < 256"
proof -
  have "of_char c mod (256 :: int) < 256" by (rule pos_mod_bound) simp
  then show ?thesis by (simp only: chr_int_def of_char_mod_256)
qed

lemma chr_byte_int [simp]: "word_of_int (chr_int c) = chr_byte c"
  unfolding chr_byte_def chr_int_def using of_int_of_char [of c, where 'a = u8] by simp

section \<open>Words\<close>

lemma unat_bound: "unat (w :: 'a::len word) < 2 ^ LENGTH('a)"
  by (rule unsigned_less)

lemma unat_take_bit: "unat (take_bit n (w :: 'a::len word)) = unat w mod 2 ^ n"
  by (simp add: unsigned_take_bit_eq flip: take_bit_eq_mod)

lemma take_bit_small: "unat (w :: 'a::len word) < 2 ^ n \<Longrightarrow> take_bit n w = w"
  by (simp add: word_unat_eq_iff unat_take_bit)

lemma unat_ucast_up:
  assumes "LENGTH('a) \<le> LENGTH('b)"
  shows "unat (ucast (w :: 'a::len word) :: 'b::len word) = unat w"
proof -
  have "unat w < 2 ^ LENGTH('b)"
    using unat_bound [of w] assms by (meson one_le_numeral order_less_le_trans power_increasing)
  then show ?thesis by (simp add: unsigned_ucast_eq take_bit_nat_eq_self)
qed

lemma pow256: "8 dvd n \<Longrightarrow> (256::nat) ^ (n div 8) = 2 ^ n"
proof -
  assume "8 dvd n"
  then obtain k where "n = 8 * k" ..
  moreover have "(256::nat) = 2 ^ 8" by simp
  ultimately show ?thesis by (simp add: power_mult)
qed

section \<open>Lists\<close>

lemma find_Some_nth:
  assumes "find P [i..<n] = Some j"
  shows "i \<le> j" "j < n" "P j" "\<And>k. i \<le> k \<Longrightarrow> k < j \<Longrightarrow> \<not> P k"
proof -
  from assms obtain k where k: "k < length [i..<n]" "P ([i..<n] ! k)" "j = [i..<n] ! k"
    "\<And>l. l < k \<Longrightarrow> \<not> P ([i..<n] ! l)" by (auto simp: find_Some_iff)
  from k(1,3) have j: "j = i + k" by simp
  show "i \<le> j" "j < n" "P j" using k j by auto
  fix l assume "i \<le> l" "l < j"
  then have "\<not> P ([i..<n] ! (l - i))" using k(4) [of "l - i"] j by simp
  with \<open>i \<le> l\<close> \<open>l < j\<close> k(1) j show "\<not> P l" by simp
qed

lemma find_None_upt: "find P [i..<n] = None \<longleftrightarrow> (\<forall>j. i \<le> j \<and> j < n \<longrightarrow> \<not> P j)"
  by (auto simp: find_None_iff)

end
