(* ===== verification/Spinlock.thy ===== *)
theory Spinlock
  imports Prelude
begin

text \<open>
  Spin locks and interrupt nesting (kernel/spinlock.c, struct spinlock of spinlock.h,
  struct cpu of proc.h, and cpuid, mycpu and myproc of proc.c).

  The state is a \<open>hart\<close>: which hart executes (the tp register), every hart's struct cpu,
  every hart's interrupt-enable bit (sstatus.SIE) and all spin locks of the kernel, by name.
  A call that panics, or that spins on a lock another hart holds, is \<open>None\<close>.
  \<open>context\<close> of struct cpu holds the registers swtch.S saves; assembly is not modelled, so
  the field has no counterpart.

  The second half runs acquire and release of any number of harts in an interleaving of
  their atomic memory accesses, and shows mutual exclusion and that holding() is exact.
\<close>

section \<open>Locks, harts\<close>

text \<open>The spin locks of the kernel: the static ones by name, the ones inside table entries
  (processes, buffers, inodes, pipes) by the entry's index or address.\<close>

datatype lockid =
    Lk_kmem | Lk_pid | Lk_wait | Lk_proc nat | Lk_ticks | Lk_bcache | Lk_sl_buf nat
  | Lk_log | Lk_itable | Lk_sl_inode nat | Lk_ftable | Lk_pipe u64 | Lk_cons | Lk_uart
  | Lk_pr | Lk_vdisk

record spinlock =
  locked :: bool
  lk_name :: string
  lk_cpu :: "nat option"

record cpu =
  cproc :: "nat option"
  noff :: int
  intena :: bool

record hart =
  tp :: nat
  cpus :: "nat \<Rightarrow> cpu"
  sie :: "nat \<Rightarrow> bool"
  locks :: "lockid \<Rightarrow> spinlock"

definition intr_get :: "hart \<Rightarrow> bool" where
  "intr_get h = sie h (tp h)"

definition intr_on :: "hart \<Rightarrow> hart" where
  "intr_on h = h\<lparr>sie := (sie h)(tp h := True)\<rparr>"

definition intr_off :: "hart \<Rightarrow> hart" where
  "intr_off h = h\<lparr>sie := (sie h)(tp h := False)\<rparr>"

definition cpuid :: "hart \<Rightarrow> nat" where
  "cpuid h = tp h"

definition mycpu :: "hart \<Rightarrow> cpu" where
  "mycpu h = cpus h (cpuid h)"

definition upd_cpu :: "(cpu \<Rightarrow> cpu) \<Rightarrow> hart \<Rightarrow> hart" where
  "upd_cpu f h = h\<lparr>cpus := (cpus h)(cpuid h := f (mycpu h))\<rparr>"

definition push_off :: "hart \<Rightarrow> hart" where
  "push_off h =
    (let old = intr_get h;
         h = intr_off h;
         h = (if noff (mycpu h) = 0 then upd_cpu (\<lambda>c. c\<lparr>intena := old\<rparr>) h else h)
     in upd_cpu (\<lambda>c. c\<lparr>noff := noff c + 1\<rparr>) h)"

definition pop_off :: "hart \<Rightarrow> hart option" where
  "pop_off h =
    (if intr_get h then None
     else if noff (mycpu h) < 1 then None
     else let h = upd_cpu (\<lambda>c. c\<lparr>noff := noff c - 1\<rparr>) h
          in Some (if noff (mycpu h) = 0 \<and> intena (mycpu h) then intr_on h else h))"

definition initlock :: "lockid \<Rightarrow> string \<Rightarrow> hart \<Rightarrow> hart" where
  "initlock l name h =
    h\<lparr>locks := (locks h)(l := \<lparr>locked = False, lk_name = name, lk_cpu = None\<rparr>)\<rparr>"

definition holding :: "lockid \<Rightarrow> hart \<Rightarrow> bool" where
  "holding l h \<longleftrightarrow> locked (locks h l) \<and> lk_cpu (locks h l) = Some (cpuid h)"

definition acquire :: "lockid \<Rightarrow> hart \<Rightarrow> hart option" where
  "acquire l h =
    (let h = push_off h
     in if holding l h then None
        else if locked (locks h l) then None
        else let h = h\<lparr>locks := (locks h)(l := (locks h l)\<lparr>locked := True\<rparr>)\<rparr>
             in Some (h\<lparr>locks := (locks h)(l := (locks h l)\<lparr>lk_cpu := Some (cpuid h)\<rparr>)\<rparr>))"

definition release :: "lockid \<Rightarrow> hart \<Rightarrow> hart option" where
  "release l h =
    (if \<not> holding l h then None
     else let h = h\<lparr>locks := (locks h)(l := (locks h l)\<lparr>lk_cpu := None\<rparr>)\<rparr>;
              h = h\<lparr>locks := (locks h)(l := (locks h l)\<lparr>locked := False\<rparr>)\<rparr>
          in pop_off h)"

text \<open>proc.c, myproc: the current process of this hart, read with interrupts off.\<close>

definition myproc :: "hart \<Rightarrow> (nat option \<times> hart) option" where
  "myproc h = do {
     let h = push_off h;
     let p = cproc (mycpu h);
     h \<leftarrow> pop_off h;
     Some (p, h) }"

section \<open>Nesting\<close>

text \<open>The discipline of push_off and pop_off on one hart: interrupts are off while any
  push_off is open, and intena of an idle hart is what its interrupt bit is.\<close>

definition hart_ok :: "hart \<Rightarrow> bool" where
  "hart_ok h \<longleftrightarrow> 0 \<le> noff (mycpu h) \<and>
     (if noff (mycpu h) = 0 then intena (mycpu h) = intr_get h else \<not> intr_get h)"

definition lock_free :: "lockid \<Rightarrow> hart \<Rightarrow> bool" where
  "lock_free l h \<longleftrightarrow> \<not> locked (locks h l) \<and> lk_cpu (locks h l) = None"

lemma initlock_simps [simp]:
  "hart_ok (initlock l n h) = hart_ok h" "lock_free l (initlock l n h)"
  "l' \<noteq> l \<Longrightarrow> lock_free l' (initlock l n h) = lock_free l' h"
  by (auto simp: initlock_def hart_ok_def lock_free_def mycpu_def cpuid_def intr_get_def)

text \<open>The effect of a successful acquire, as one update.\<close>

definition acq :: "lockid \<Rightarrow> hart \<Rightarrow> hart" where
  "acq l h = (push_off h)\<lparr>locks := (locks h)(l :=
     (locks h l)\<lparr>locked := True, lk_cpu := Some (tp h)\<rparr>)\<rparr>"

lemmas hart_defs = intr_get_def intr_on_def intr_off_def cpuid_def mycpu_def upd_cpu_def

lemma push_off_simps [simp]:
  "tp (push_off h) = tp h" "locks (push_off h) = locks h" "intr_get (push_off h) = False"
  "noff (mycpu (push_off h)) = noff (mycpu h) + 1"
  "cproc (mycpu (push_off h)) = cproc (mycpu h)"
  by (simp_all add: push_off_def hart_defs Let_def)

lemma acq_simps [simp]:
  "tp (acq l h) = tp h" "intr_get (acq l h) = False"
  "noff (mycpu (acq l h)) = noff (mycpu h) + 1"
  "cproc (mycpu (acq l h)) = cproc (mycpu h)"
  "lock_free l' (acq l h) \<longleftrightarrow> l' \<noteq> l \<and> lock_free l' h"
  "holding l (acq l h)"
  "l' \<noteq> l \<Longrightarrow> holding l' (acq l h) = holding l' h"
  by (simp_all add: acq_def push_off_def hart_defs Let_def lock_free_def holding_def)

lemma hart_ok_acq [simp]: "hart_ok h \<Longrightarrow> hart_ok (acq l h)"
  by (simp add: hart_ok_def)

lemma acquire_free: "lock_free l h \<Longrightarrow> acquire l h = Some (acq l h)"
  by (simp add: acquire_def Let_def lock_free_def holding_def acq_def cpuid_def)

lemma acquire_Some_iff:
  "acquire l h = Some h' \<longleftrightarrow> \<not> locked (locks h l) \<and> h' = acq l h"
  by (auto simp: acquire_def Let_def holding_def acq_def cpuid_def)

text \<open>Matched pairs: pop_off undoes push_off.\<close>

lemma pop_push_off: "hart_ok h \<Longrightarrow> pop_off (push_off h) = Some h"
  by (auto simp: hart_ok_def pop_off_def push_off_def hart_defs Let_def fun_upd_idem
      split: if_splits intro!: hart.equality)

text \<open>Nesting and lock words are independent of each other.\<close>

lemma push_off_locks: "push_off (h\<lparr>locks := f\<rparr>) = (push_off h)\<lparr>locks := f\<rparr>"
  by (simp add: push_off_def hart_defs Let_def)

lemma pop_off_set_locks: "pop_off (h\<lparr>locks := f\<rparr>) = map_option (\<lambda>h. h\<lparr>locks := f\<rparr>) (pop_off h)"
  by (simp add: pop_off_def hart_defs Let_def)

lemma release_acq: "hart_ok h \<Longrightarrow> lock_free l h \<Longrightarrow> release l (acq l h) = Some h"
  by (simp add: release_def Let_def acq_def holding_def cpuid_def pop_off_set_locks pop_push_off
      lock_free_def fun_upd_idem)

text \<open>Locks need not be released in the order they were taken: sleep() takes the process
  lock and then releases the lock it was called with.\<close>

lemma release_acq_swap:
  assumes "hart_ok h" "lock_free l h" "l \<noteq> l'"
  shows "release l (acq l' (acq l h)) = Some (acq l' h)"
proof -
  have "hart_ok (push_off h)" using assms(1) by (simp add: hart_ok_def)
  then show ?thesis using assms(2,3)
    by (simp add: release_def Let_def acq_def holding_def cpuid_def push_off_locks
        pop_off_set_locks pop_push_off lock_free_def fun_upd_idem fun_upd_twist [of l' l])
qed

lemma myproc_ok: "hart_ok h \<Longrightarrow> myproc h = Some (cproc (mycpu h), h)"
  by (simp add: myproc_def pop_push_off)

lemma release_Some_holding: "release l h = Some h' \<Longrightarrow> holding l h"
  by (simp add: release_def split: if_splits)

lemma acquire_holding_None: "holding l h \<Longrightarrow> acquire l h = None"
  by (auto simp: acquire_def holding_def Let_def)

section \<open>The lock state inside the kernel state\<close>

text \<open>Every component's state extends \<open>kbase\<close>, whose one field is the lock and
  interrupt state; \<open>lock\<close> and \<open>unlock\<close> are acquire and release on it.\<close>

record kbase =
  hw :: hart

definition lock :: "lockid \<Rightarrow> 'z kbase_scheme \<Rightarrow> 'z kbase_scheme option" where
  "lock l s = map_option (\<lambda>h. s\<lparr>hw := h\<rparr>) (acquire l (hw s))"

definition unlock :: "lockid \<Rightarrow> 'z kbase_scheme \<Rightarrow> 'z kbase_scheme option" where
  "unlock l s = map_option (\<lambda>h. s\<lparr>hw := h\<rparr>) (release l (hw s))"

definition curproc :: "'z kbase_scheme \<Rightarrow> (nat option \<times> 'z kbase_scheme) option" where
  "curproc s = map_option (\<lambda>(p, h). (p, s\<lparr>hw := h\<rparr>)) (myproc (hw s))"

lemma lock_ok [kstep]: "lock_free l (hw s) \<Longrightarrow> lock l s = Some (s\<lparr>hw := acq l (hw s)\<rparr>)"
  by (simp add: lock_def acquire_free)

lemma unlock_ok [kstep]:
  "hw s = acq l h \<Longrightarrow> hart_ok h \<Longrightarrow> lock_free l h \<Longrightarrow> unlock l s = Some (s\<lparr>hw := h\<rparr>)"
  by (simp add: unlock_def release_acq)

lemma unlock_acq [kstep]:
  "hart_ok h \<Longrightarrow> lock_free l h \<Longrightarrow> unlock l (s\<lparr>hw := acq l h\<rparr>) = Some (s\<lparr>hw := h\<rparr>)"
  by (simp add: unlock_def release_acq)

lemma unlock_swap [kstep]:
  "hart_ok h \<Longrightarrow> lock_free l h \<Longrightarrow> l \<noteq> l' \<Longrightarrow>
   unlock l (s\<lparr>hw := acq l' (acq l h)\<rparr>) = Some (s\<lparr>hw := acq l' h\<rparr>)"
  by (simp add: unlock_def release_acq_swap)

lemma curproc_ok [kstep]: "hart_ok (hw s) \<Longrightarrow> curproc s = Some (cproc (mycpu (hw s)), s)"
  by (simp add: curproc_def myproc_ok)

lemma lock_None: "\<not> lock_free l (hw s) \<Longrightarrow> locked (locks (hw s) l) \<Longrightarrow> lock l s = None"
  by (auto simp: lock_def acquire_def holding_def Let_def)

section \<open>Interleaved harts\<close>

text \<open>
  acquire and release broken at their accesses to shared memory: push_off and the
  holding() check (private to the hart), the atomic swap that wins or fails, the store of
  lk->cpu; then the store lk->cpu = 0, the atomic swap lk->locked = 0, and pop_off
  (private again). A hart that holds nothing may also switch its interrupts on. Any hart may
  take any enabled step. \<open>held\<close> records the locks whose
  critical section a hart is in; the code does not have it.
\<close>

datatype lpc = Out | Spinning lockid | Won lockid | Leaving lockid | Popping

record lsys =
  lhart :: hart
  pc :: "nat \<Rightarrow> lpc"
  held :: "nat \<Rightarrow> lockid set"

definition at :: "nat \<Rightarrow> lsys \<Rightarrow> hart" where
  "at i x = (lhart x)\<lparr>tp := i\<rparr>"

definition set_lock :: "lockid \<Rightarrow> (spinlock \<Rightarrow> spinlock) \<Rightarrow> hart \<Rightarrow> hart" where
  "set_lock l f h = h\<lparr>locks := (locks h)(l := f (locks h l))\<rparr>"

definition lsys_init :: lsys where
  "lsys_init = \<lparr>lhart = \<lparr>tp = 0, cpus = (\<lambda>_. \<lparr>cproc = None, noff = 0, intena = False\<rparr>),
       sie = (\<lambda>_. False), locks = (\<lambda>_. \<lparr>locked = False, lk_name = [], lk_cpu = None\<rparr>)\<rparr>,
     pc = (\<lambda>_. Out), held = (\<lambda>_. {})\<rparr>"

inductive lk_step :: "lsys \<Rightarrow> lsys \<Rightarrow> bool" where
  enter: "pc x i = Out \<Longrightarrow> \<not> holding l (push_off (at i x)) \<Longrightarrow>
    lk_step x (x\<lparr>lhart := push_off (at i x), pc := (pc x)(i := Spinning l)\<rparr>)"
| spin: "pc x i = Spinning l \<Longrightarrow> locked (locks (lhart x) l) \<Longrightarrow> lk_step x x"
| swap: "pc x i = Spinning l \<Longrightarrow> \<not> locked (locks (lhart x) l) \<Longrightarrow>
    lk_step x (x\<lparr>lhart := set_lock l (\<lambda>k. k\<lparr>locked := True\<rparr>) (at i x),
      pc := (pc x)(i := Won l)\<rparr>)"
| record_cpu: "pc x i = Won l \<Longrightarrow>
    lk_step x (x\<lparr>lhart := set_lock l (\<lambda>k. k\<lparr>lk_cpu := Some i\<rparr>) (at i x),
      pc := (pc x)(i := Out), held := (held x)(i := insert l (held x i))\<rparr>)"
| drop_cpu: "pc x i = Out \<Longrightarrow> holding l (at i x) \<Longrightarrow>
    lk_step x (x\<lparr>lhart := set_lock l (\<lambda>k. k\<lparr>lk_cpu := None\<rparr>) (at i x),
      pc := (pc x)(i := Leaving l), held := (held x)(i := held x i - {l})\<rparr>)"
| unswap: "pc x i = Leaving l \<Longrightarrow>
    lk_step x (x\<lparr>lhart := set_lock l (\<lambda>k. k\<lparr>locked := False\<rparr>) (at i x),
      pc := (pc x)(i := Popping)\<rparr>)"
| pop: "pc x i = Popping \<Longrightarrow> pop_off (at i x) = Some h \<Longrightarrow>
    lk_step x (x\<lparr>lhart := h, pc := (pc x)(i := Out)\<rparr>)"
| allow: "pc x i = Out \<Longrightarrow> noff (cpus (lhart x) i) = 0 \<Longrightarrow> lk_step x (x\<lparr>lhart := intr_on (at i x)\<rparr>)"
| forbid: "pc x i = Out \<Longrightarrow> lk_step x (x\<lparr>lhart := intr_off (at i x)\<rparr>)"

inductive lk_reach :: "lsys \<Rightarrow> bool" where
  start: "lk_reach lsys_init"
| step: "lk_reach x \<Longrightarrow> lk_step x y \<Longrightarrow> lk_reach y"

definition owns :: "lsys \<Rightarrow> nat \<Rightarrow> lockid \<Rightarrow> bool" where
  "owns x i l \<longleftrightarrow> l \<in> held x i \<or> pc x i = Won l \<or> pc x i = Leaving l"

text \<open>What the lock words say, hart by hart.\<close>

definition lk_inv :: "lsys \<Rightarrow> bool" where
  "lk_inv x \<longleftrightarrow>
     (\<forall>l. locked (locks (lhart x) l) \<longleftrightarrow> (\<exists>i. owns x i l)) \<and>
     (\<forall>l. Uniq (\<lambda>i. owns x i l)) \<and>
     (\<forall>i l. lk_cpu (locks (lhart x) l) = Some i \<longleftrightarrow> l \<in> held x i) \<and>
     (\<forall>i l. l \<in> held x i \<longrightarrow> pc x i \<noteq> Won l \<and> pc x i \<noteq> Leaving l)"

text \<open>What the nesting counters say.\<close>

definition nest_inv :: "lsys \<Rightarrow> bool" where
  "nest_inv x \<longleftrightarrow> (\<forall>i. finite (held x i) \<and>
     noff (cpus (lhart x) i) = int (card (held x i)) + (if pc x i = Out then 0 else 1) \<and>
     (0 < noff (cpus (lhart x) i) \<longrightarrow> \<not> sie (lhart x) i))"

lemma at_simps [simp]:
  "tp (at i x) = i" "locks (at i x) = locks (lhart x)" "cpus (at i x) = cpus (lhart x)"
  "sie (at i x) = sie (lhart x)"
  by (simp_all add: at_def)

lemma set_lock_simps [simp]:
  "tp (set_lock l f h) = tp h" "cpus (set_lock l f h) = cpus h" "sie (set_lock l f h) = sie h"
  "locks (set_lock l f h) = (locks h)(l := f (locks h l))"
  by (simp_all add: set_lock_def)

lemma lk_inv_init: "lk_inv lsys_init"
  by (simp add: lk_inv_def lsys_init_def owns_def Uniq_def)

lemma nest_inv_init: "nest_inv lsys_init"
  by (simp add: nest_inv_def lsys_init_def)

lemma pop_off_locks [kframe]: "pop_off h = Some h' \<Longrightarrow> locks h' = locks h"
  by (auto simp: pop_off_def hart_defs Let_def split: if_splits)

lemma lk_invD:
  assumes "lk_inv x"
  shows "locked (locks (lhart x) l) \<longleftrightarrow> (\<exists>i. owns x i l)"
    and "Uniq (\<lambda>i. owns x i l)"
    and "lk_cpu (locks (lhart x) l) = Some i \<longleftrightarrow> l \<in> held x i"
    and "l \<in> held x i \<Longrightarrow> pc x i \<noteq> Won l" "l \<in> held x i \<Longrightarrow> pc x i \<noteq> Leaving l"
  using assms unfolding lk_inv_def by blast+

lemma lk_invI:
  assumes "\<And>l. locked (locks (lhart y) l) \<longleftrightarrow> (\<exists>i. owns y i l)" "\<And>l. Uniq (\<lambda>i. owns y i l)"
    and "\<And>i l. lk_cpu (locks (lhart y) l) = Some i \<longleftrightarrow> l \<in> held y i"
    and "\<And>i l. l \<in> held y i \<Longrightarrow> pc y i \<noteq> Won l \<and> pc y i \<noteq> Leaving l"
  shows "lk_inv y"
  using assms unfolding lk_inv_def by blast

lemma lk_inv_owns:
  assumes "lk_inv x"
    and "\<And>j k. owns y j k \<longleftrightarrow> owns x j k"
    and "\<And>k. locked (locks (lhart y) k) = locked (locks (lhart x) k)"
    and "\<And>j k. lk_cpu (locks (lhart y) k) = Some j \<longleftrightarrow> k \<in> held y j"
    and "\<And>j k. k \<in> held y j \<Longrightarrow> pc y j \<noteq> Won k \<and> pc y j \<noteq> Leaving k"
  shows "lk_inv y"
  by (rule lk_invI) (simp_all add: assms lk_invD [OF assms(1)])

lemma lk_inv_step: "lk_step x y \<Longrightarrow> lk_inv x \<Longrightarrow> lk_inv y"
proof (induction rule: lk_step.induct)
  case (enter x i l)
  note D = lk_invD [OF enter.prems]
  show ?case
    by (rule lk_inv_owns [OF enter.prems]) (use enter.hyps in \<open>auto simp: owns_def D(3-5)\<close>)
next
  case (spin x i l)
  then show ?case by simp
next
  case (swap x i l)
  let ?y = "x\<lparr>lhart := set_lock l (\<lambda>k. k\<lparr>locked := True\<rparr>) (at i x), pc := (pc x)(i := Won l)\<rparr>"
  note D = lk_invD [OF swap.prems]
  have none: "\<not> owns x j l" for j using swap.hyps(2) D(1) by blast
  have own: "owns ?y j k \<longleftrightarrow> owns x j k \<or> j = i \<and> k = l" for j k
    using swap.hyps(1) by (auto simp: owns_def)
  have notin: "l \<notin> held x i" using none [of i] by (simp add: owns_def)
  show ?case
  proof (rule lk_invI)
    show "locked (locks (lhart ?y) k) \<longleftrightarrow> (\<exists>j. owns ?y j k)" for k
      unfolding own using D(1) by auto
    show "Uniq (\<lambda>j. owns ?y j k)" for k
      unfolding own using D(2) [of k] none by (cases "k = l") (auto simp: Uniq_def)
  qed (use notin in \<open>auto simp: D(3-5)\<close>)
next
  case (record_cpu x i l)
  note D = lk_invD [OF record_cpu.prems]
  have me: "owns x i l" using record_cpu.hyps by (simp add: owns_def)
  have other: "l \<notin> held x j" for j
  proof
    assume "l \<in> held x j"
    then have "owns x j l" by (simp add: owns_def)
    with me D(2) have "j = i" by (blast dest: Uniq_D)
    with \<open>l \<in> held x j\<close> record_cpu.hyps D(4) show False by blast
  qed
  show ?case
    by (rule lk_inv_owns [OF record_cpu.prems])
      (use record_cpu.hyps other in \<open>auto simp: owns_def D(3-5)\<close>)
next
  case (drop_cpu x i l)
  note D = lk_invD [OF drop_cpu.prems]
  have own: "l \<in> held x i" using drop_cpu.hyps D(3) by (simp add: holding_def cpuid_def)
  have other: "j \<noteq> i \<Longrightarrow> l \<notin> held x j" for j
    using own D(3) [of l i] D(3) [of l j] by simp
  show ?case
    by (rule lk_inv_owns [OF drop_cpu.prems])
      (use drop_cpu.hyps own other in \<open>auto simp: owns_def D(3-5)\<close>)
next
  case (unswap x i l)
  let ?y = "x\<lparr>lhart := set_lock l (\<lambda>k. k\<lparr>locked := False\<rparr>) (at i x), pc := (pc x)(i := Popping)\<rparr>"
  note D = lk_invD [OF unswap.prems]
  have me: "owns x i l" using unswap.hyps by (simp add: owns_def)
  have "l \<notin> held x i" using unswap.hyps D(5) by blast
  then have own: "owns ?y j k \<longleftrightarrow> owns x j k \<and> (j, k) \<noteq> (i, l)" for j k
    using unswap.hyps by (auto simp: owns_def)
  have one: "j \<noteq> i \<Longrightarrow> \<not> owns x j l" for j
    using me D(2) by (blast dest: Uniq_D)
  show ?case
  proof (rule lk_invI)
    show "locked (locks (lhart ?y) k) \<longleftrightarrow> (\<exists>j. owns ?y j k)" for k
      unfolding own using D(1) one by auto
    show "Uniq (\<lambda>j. owns ?y j k)" for k
      unfolding own using D(2) [of k] by (auto simp: Uniq_def)
  qed (auto simp: D(3-5))
next
  case (pop x i h)
  then have [simp]: "locks h = locks (lhart x)" by (auto dest: pop_off_locks)
  note D = lk_invD [OF pop.prems]
  show ?case
    by (rule lk_inv_owns [OF pop.prems]) (use pop.hyps in \<open>auto simp: owns_def D(3-5)\<close>)
next
  case (allow x i)
  note D = lk_invD [OF allow.prems]
  show ?case by (rule lk_inv_owns [OF allow.prems]) (auto simp: owns_def D(3-5) intr_on_def)
next
  case (forbid x i)
  note D = lk_invD [OF forbid.prems]
  show ?case by (rule lk_inv_owns [OF forbid.prems]) (auto simp: owns_def D(3-5) intr_off_def)
qed

lemma lk_reach_inv: "lk_reach x \<Longrightarrow> lk_inv x"
  by (induction rule: lk_reach.induct) (auto intro: lk_inv_init lk_inv_step)

lemma pop_off_Some:
  "pop_off h = Some h' \<Longrightarrow> noff (cpus h' (tp h)) = noff (cpus h (tp h)) - 1 \<and>
    (\<forall>j. j \<noteq> tp h \<longrightarrow> cpus h' j = cpus h j \<and> sie h' j = sie h j) \<and> \<not> sie h (tp h) \<and>
    (0 < noff (cpus h' (tp h)) \<longrightarrow> \<not> sie h' (tp h))"
  by (auto simp: pop_off_def hart_defs Let_def split: if_splits)

lemma nest_inv_other:
  assumes "nest_inv x" and "\<And>j. j \<noteq> i \<Longrightarrow> held y j = held x j \<and> pc y j = pc x j \<and>
      cpus (lhart y) j = cpus (lhart x) j \<and> sie (lhart y) j = sie (lhart x) j"
    and "finite (held y i) \<and>
     noff (cpus (lhart y) i) = int (card (held y i)) + (if pc y i = Out then 0 else 1) \<and>
     (0 < noff (cpus (lhart y) i) \<longrightarrow> \<not> sie (lhart y) i)"
  shows "nest_inv y"
  unfolding nest_inv_def
proof
  fix j
  show "finite (held y j) \<and>
     noff (cpus (lhart y) j) = int (card (held y j)) + (if pc y j = Out then 0 else 1) \<and>
     (0 < noff (cpus (lhart y) j) \<longrightarrow> \<not> sie (lhart y) j)"
    using assms(1,3) assms(2) [of j] unfolding nest_inv_def by (cases "j = i") simp_all
qed

lemma push_off_cpus:
  "noff (cpus (push_off h) (tp h)) = noff (cpus h (tp h)) + 1"
  "\<not> sie (push_off h) (tp h)"
  "j \<noteq> tp h \<Longrightarrow> cpus (push_off h) j = cpus h j \<and> sie (push_off h) j = sie h j"
  by (auto simp: push_off_def hart_defs Let_def)

lemma nest_invD:
  assumes "nest_inv x"
  shows "finite (held x i)"
    and "noff (cpus (lhart x) i) = int (card (held x i)) + (if pc x i = Out then 0 else 1)"
    and "0 < noff (cpus (lhart x) i) \<Longrightarrow> \<not> sie (lhart x) i"
  using assms unfolding nest_inv_def by blast+

lemma nest_inv_step: "lk_step x y \<Longrightarrow> lk_inv x \<Longrightarrow> nest_inv x \<Longrightarrow> nest_inv y"
proof (induction rule: lk_step.induct)
  case (enter x i l)
  note D = nest_invD [OF enter.prems(2), of i]
  show ?case
    by (rule nest_inv_other [OF enter.prems(2), of i])
      (use push_off_cpus [where h = "at i x"] D enter.hyps(1) in simp_all)
next
  case (spin x i l)
  then show ?case by simp
next
  case (swap x i l)
  note D = nest_invD [OF swap.prems(2), of i]
  show ?case
    by (rule nest_inv_other [OF swap.prems(2), of i]) (use D swap.hyps(1) in simp_all)
next
  case (record_cpu x i l)
  note D = nest_invD [OF record_cpu.prems(2), of i]
  have "l \<notin> held x i" using record_cpu.hyps lk_invD(4) [OF record_cpu.prems(1)] by blast
  then show ?case
    by (intro nest_inv_other [OF record_cpu.prems(2), of i]) (use D record_cpu.hyps(1) in simp_all)
next
  case (drop_cpu x i l)
  note D = nest_invD [OF drop_cpu.prems(2), of i]
  have own: "l \<in> held x i"
    using drop_cpu.hyps lk_invD(3) [OF drop_cpu.prems(1)] by (simp add: holding_def cpuid_def)
  then have "Suc 0 \<le> card (held x i)"
    using D(1) by (auto simp: Suc_le_eq card_gt_0_iff)
  with own show ?case
    by (intro nest_inv_other [OF drop_cpu.prems(2), of i]) (use D drop_cpu.hyps(1) in simp_all)
next
  case (unswap x i l)
  note D = nest_invD [OF unswap.prems(2), of i]
  show ?case
    by (rule nest_inv_other [OF unswap.prems(2), of i]) (use D unswap.hyps(1) in simp_all)
next
  case (pop x i h)
  note D = nest_invD [OF pop.prems(2), of i]
  show ?case
    by (rule nest_inv_other [OF pop.prems(2), of i])
      (use pop_off_Some [OF pop.hyps(2)] D pop.hyps(1) in simp_all)
next
  case (allow x i)
  note D = nest_invD [OF allow.prems(2), of i]
  show ?case
    by (rule nest_inv_other [OF allow.prems(2), of i]) (use D allow.hyps in \<open>simp_all add: intr_on_def\<close>)
next
  case (forbid x i)
  note D = nest_invD [OF forbid.prems(2), of i]
  show ?case
    by (rule nest_inv_other [OF forbid.prems(2), of i]) (use D in \<open>simp_all add: intr_off_def\<close>)
qed

lemma lk_reach_nest: "lk_reach x \<Longrightarrow> nest_inv x"
  by (induction rule: lk_reach.induct) (auto intro: nest_inv_init nest_inv_step dest: lk_reach_inv)

text \<open>A hart just after reset: nothing held, interrupts off.\<close>

definition hart0 :: hart where
  "hart0 = lhart lsys_init"

lemma hart0_ok [simp]: "hart_ok hart0" "lock_free l hart0"
  by (simp_all add: hart0_def lsys_init_def hart_ok_def lock_free_def mycpu_def cpuid_def intr_get_def)

text \<open>The steps of an uncontended acquire, and of the release that ends it.\<close>

lemma lk_steps_acquire:
  assumes "pc x i = Out" "acquire l (at i x) = Some h"
  shows "lk_step\<^sup>*\<^sup>* x (x\<lparr>lhart := h, held := (held x)(i := insert l (held x i))\<rparr>)"
proof -
  have free: "\<not> locked (locks (lhart x) l)" and h: "h = acq l (at i x)"
    using assms(2) by (auto simp: acquire_Some_iff)
  let ?x1 = "x\<lparr>lhart := push_off (at i x), pc := (pc x)(i := Spinning l)\<rparr>"
  let ?x2 = "?x1\<lparr>lhart := set_lock l (\<lambda>k. k\<lparr>locked := True\<rparr>) (at i ?x1), pc := (pc ?x1)(i := Won l)\<rparr>"
  let ?x3 = "?x2\<lparr>lhart := set_lock l (\<lambda>k. k\<lparr>lk_cpu := Some i\<rparr>) (at i ?x2), pc := (pc ?x2)(i := Out),
    held := (held ?x2)(i := insert l (held ?x2 i))\<rparr>"
  have "lk_step x ?x1" using assms(1) free by (intro lk_step.enter) (simp_all add: holding_def)
  moreover have "lk_step ?x1 ?x2" using free by (intro lk_step.swap) simp_all
  moreover have "lk_step ?x2 ?x3" by (intro lk_step.record_cpu) simp
  moreover have "?x3 = x\<lparr>lhart := h, held := (held x)(i := insert l (held x i))\<rparr>"
    using assms(1) by (simp add: h acq_def at_def set_lock_def fun_upd_idem)
  ultimately show ?thesis by (metis (no_types, lifting) rtranclp.simps)
qed

lemma lk_steps_release:
  assumes "pc x i = Out" "release l (at i x) = Some h"
  shows "lk_step\<^sup>*\<^sup>* x (x\<lparr>lhart := h, held := (held x)(i := held x i - {l})\<rparr>)"
proof -
  let ?x1 = "x\<lparr>lhart := set_lock l (\<lambda>k. k\<lparr>lk_cpu := None\<rparr>) (at i x),
      pc := (pc x)(i := Leaving l), held := (held x)(i := held x i - {l})\<rparr>"
  let ?x2 = "?x1\<lparr>lhart := set_lock l (\<lambda>k. k\<lparr>locked := False\<rparr>) (at i ?x1), pc := (pc ?x1)(i := Popping)\<rparr>"
  let ?x3 = "?x2\<lparr>lhart := h, pc := (pc ?x2)(i := Out)\<rparr>"
  have hold: "holding l (at i x)" using assms(2) by (rule release_Some_holding)
  have at2: "at i ?x2 = (at i x)\<lparr>locks := (locks (at i x))(l := (locks (at i x) l)\<lparr>lk_cpu := None, locked := False\<rparr>)\<rparr>"
    by (intro hart.equality) simp_all
  have pop: "pop_off (at i ?x2) = Some h"
    unfolding at2 using assms(2) hold by (simp add: release_def Let_def split: if_splits)
  have "lk_step x ?x1" using assms(1) hold by (rule lk_step.drop_cpu)
  moreover have "lk_step ?x1 ?x2" by (intro lk_step.unswap) simp
  moreover have "lk_step ?x2 ?x3" using pop by (intro lk_step.pop) simp_all
  moreover have "?x3 = x\<lparr>lhart := h, held := (held x)(i := held x i - {l})\<rparr>"
    using assms(1) by (simp add: fun_upd_idem)
  ultimately show ?thesis by (metis (no_types, lifting) rtranclp.simps)
qed

lemma lk_reach_steps: "lk_step\<^sup>*\<^sup>* x y \<Longrightarrow> lk_reach x \<Longrightarrow> lk_reach y"
  by (induction rule: rtranclp_induct) (auto intro: lk_reach.step)

text \<open>A reachable state in which hart 1 is inside the critical section of kmem.lock.\<close>

definition lsys_held :: lsys where
  "lsys_held = lsys_init\<lparr>lhart := acq Lk_kmem (at 1 lsys_init), held := (held lsys_init)(1 := {Lk_kmem})\<rparr>"

lemma lsys_held_reach: "lk_reach lsys_held"
proof -
  have "pc lsys_init 1 = Out" by (simp add: lsys_init_def)
  moreover have "acquire Lk_kmem (at 1 lsys_init) = Some (acq Lk_kmem (at 1 lsys_init))"
    by (simp add: acquire_Some_iff lsys_init_def)
  moreover have "held lsys_init 1 = {}" by (simp add: lsys_init_def)
  ultimately have "lk_step\<^sup>*\<^sup>* lsys_init lsys_held"
    using lk_steps_acquire [of lsys_init 1] by (simp add: lsys_held_def)
  then show ?thesis using lk_reach.start by (rule lk_reach_steps)
qed

section \<open>Properties\<close>

text \<open>C1: spin locks give mutual exclusion under every interleaving of any number of harts:
  in every reachable state a lock is in the critical section of at most one hart, holding()
  says of every hart exactly whether it is that one, and the lock word is set whenever some
  hart is in it.\<close>

theorem spinlock_mutual_exclusion:
  assumes "lk_reach x"
  shows "(l \<in> held x i \<longrightarrow> l \<in> held x j \<longrightarrow> i = j) \<and>
    (holding l (at i x) \<longleftrightarrow> l \<in> held x i) \<and>
    (l \<in> held x i \<longrightarrow> locked (locks (lhart x) l))"
proof -
  note D = lk_invD [OF lk_reach_inv [OF assms]]
  have "locked (locks (lhart x) l)" if "l \<in> held x i" using that D(1) by (auto simp: owns_def)
  then show ?thesis using D(3) [of l i] D(3) [of l j] by (auto simp: holding_def cpuid_def)
qed

theorem spinlock_mutual_exclusion_witness:
  "holding Lk_kmem (at 1 lsys_held) \<and> \<not> holding Lk_kmem (at 0 lsys_held)"
  using spinlock_mutual_exclusion [OF lsys_held_reach, of Lk_kmem 1 0]
    spinlock_mutual_exclusion [OF lsys_held_reach, of Lk_kmem 0 1]
  by (simp add: lsys_held_def)

text \<open>C33: interrupts stay off in critical sections, and leaving them never panics: in every
  reachable state a hart that holds a lock, or is between push_off and pop_off, has its
  interrupts disabled, its noff is the number of locks it holds plus the one being taken or
  released, and a hart about to run pop_off gets through it.\<close>

theorem interrupts_off_while_nested:
  assumes "lk_reach x"
  shows "(held x i \<noteq> {} \<or> pc x i \<noteq> Out \<longrightarrow> \<not> intr_get (at i x)) \<and>
    noff (mycpu (at i x)) = int (card (held x i)) + (if pc x i = Out then 0 else 1) \<and>
    (pc x i = Popping \<longrightarrow> pop_off (at i x) \<noteq> None)"
proof -
  note D = nest_invD [OF lk_reach_nest [OF assms], of i]
  have off: "\<not> sie (lhart x) i" if "held x i \<noteq> {} \<or> pc x i \<noteq> Out"
    using that D by (intro D(3)) (auto simp: card_gt_0_iff)
  then show ?thesis using D(2) by (auto simp: pop_off_def hart_defs Let_def)
qed

theorem interrupts_off_while_nested_witness:
  "\<not> intr_get (at 1 lsys_held) \<and> noff (mycpu (at 1 lsys_held)) = 1"
  using interrupts_off_while_nested [OF lsys_held_reach, of 1]
  by (simp add: lsys_held_def lsys_init_def)

text \<open>C34: acquire and release are steps of the interleaved system: when acquire returns on
  hart i, its effect is a run of that hart's atomic steps that puts the lock into its critical
  section, and the same for release; so everything shown of the reachable states holds of
  harts that call acquire and release.\<close>

theorem acquire_release_refine_steps:
  assumes "pc x i = Out"
  shows "(acquire l (at i x) = Some h \<longrightarrow>
      lk_step\<^sup>*\<^sup>* x (x\<lparr>lhart := h, held := (held x)(i := insert l (held x i))\<rparr>)) \<and>
    (release l (at i x) = Some h' \<longrightarrow>
      lk_step\<^sup>*\<^sup>* x (x\<lparr>lhart := h', held := (held x)(i := held x i - {l})\<rparr>))"
  using lk_steps_acquire lk_steps_release assms by blast

theorem acquire_release_refine_steps_witness:
  "\<exists>h. acquire Lk_kmem (at 1 lsys_init) = Some h \<and>
     lk_step\<^sup>*\<^sup>* lsys_init (lsys_init\<lparr>lhart := h, held := (held lsys_init)(1 := insert Lk_kmem (held lsys_init 1))\<rparr>)"
proof -
  have "acquire Lk_kmem (at 1 lsys_init) = Some (acq Lk_kmem (at 1 lsys_init))"
    by (simp add: acquire_Some_iff lsys_init_def)
  moreover have "pc lsys_init 1 = Out" by (simp add: lsys_init_def)
  ultimately show ?thesis using acquire_release_refine_steps [of lsys_init 1 Lk_kmem] by blast
qed

end
