(* ===== verification/Cmem.thy ===== *)
theory Cmem
  imports Spinlock
begin

unbundle bit_operations_syntax

text \<open>
  Byte memory, the page and page-table-entry macros of kernel/riscv.h and memlayout.h, and
  the memory and string routines of kernel/string.c.

  Memory is a function from 64-bit addresses to bytes; address arithmetic wraps, as the
  hardware's does. Multi-byte values are little-endian. A C loop over a counter is a fold
  over the counter's values; the string routines recurse on the bound they are given, and
  strlen, which has none, is a partial function (no terminator: no result).
\<close>

type_synonym mem = "u64 \<Rightarrow> u8"

section \<open>Little-endian words\<close>

primrec le_nat :: "nat \<Rightarrow> (nat \<Rightarrow> u8) \<Rightarrow> nat" where
  "le_nat 0 f = 0"
| "le_nat (Suc k) f = unat (f 0) + 256 * le_nat k (\<lambda>i. f (Suc i))"

definition le_word :: "(nat \<Rightarrow> u8) \<Rightarrow> 'a::len word" where
  "le_word f = of_nat (le_nat (LENGTH('a) div 8) f)"

definition byte_of :: "'a::len word \<Rightarrow> nat \<Rightarrow> u8" where
  "byte_of w i = of_nat (unat w div 256 ^ i)"

definition load :: "mem \<Rightarrow> u64 \<Rightarrow> 'a::len word" where
  "load m a = le_word (\<lambda>i. m (a + of_nat i))"

definition store :: "u64 \<Rightarrow> 'a::len word \<Rightarrow> mem \<Rightarrow> mem" where
  "store a w m = fold (\<lambda>i m. m(a + of_nat i := byte_of w i)) [0..<LENGTH('a) div 8] m"

lemma le_nat_bound: "le_nat k f < 256 ^ k"
proof (induction k arbitrary: f)
  case (Suc k)
  have "unat (f 0) < 256" using unat_bound [of "f 0"] by simp
  moreover have "le_nat k (\<lambda>i. f (Suc i)) + 1 \<le> 256 ^ k" using Suc [of "\<lambda>i. f (Suc i)"] by simp
  then have "256 * (le_nat k (\<lambda>i. f (Suc i)) + 1) \<le> 256 * 256 ^ k" by (rule mult_le_mono2)
  ultimately show ?case by simp
qed simp

lemma le_nat_cong: "(\<And>i. i < k \<Longrightarrow> f i = g i) \<Longrightarrow> le_nat k f = le_nat k g"
proof (induction k arbitrary: f g)
  case (Suc k)
  have "le_nat k (\<lambda>i. f (Suc i)) = le_nat k (\<lambda>i. g (Suc i))"
    by (rule Suc.IH) (simp add: Suc.prems)
  then show ?case using Suc.prems [of 0] by simp
qed simp

lemma le_nat_bytes: "le_nat k (\<lambda>i. of_nat (n div 256 ^ i)) = n mod 256 ^ k"
proof (induction k arbitrary: n)
  case (Suc k)
  have "le_nat k (\<lambda>i. of_nat (n div 256 ^ Suc i)) = (n div 256) mod 256 ^ k"
    using Suc.IH [of "n div 256"] by (simp add: div_mult2_eq)
  then show ?case by (simp add: unat_of_nat mod_mult2_eq)
qed simp

lemma le_nat_byte: "i < k \<Longrightarrow> (of_nat (le_nat k f div 256 ^ i) :: u8) = f i"
proof (induction k arbitrary: f i)
  case (Suc k)
  have b: "unat (f 0) < 256" using unat_bound [of "f 0"] by simp
  show ?case
  proof (cases i)
    case 0
    have "(of_nat (unat (f 0) + 256 * x) :: u8) = f 0" for x
      by (rule word_unat_eq_iff [THEN iffD2]) (use b in \<open>simp only: unat_of_nat\<close>, simp)
    with 0 show ?thesis by simp
  next
    case (Suc j)
    have "(unat (f 0) + 256 * x) div 256 ^ Suc j = x div 256 ^ j" for x
      using b by (simp add: div_mult2_eq)
    with Suc Suc.IH [of j "\<lambda>i. f (Suc i)"] Suc.prems show ?thesis by simp
  qed
qed simp

lemma le_word_cong:
  "(\<And>i. i < LENGTH('a) div 8 \<Longrightarrow> f i = g i) \<Longrightarrow> (le_word f :: 'a::len word) = le_word g"
  by (simp add: le_word_def cong: le_nat_cong)

lemma le_word_byte_of:
  assumes "8 dvd LENGTH('a)"
  shows "le_word (byte_of w) = (w :: 'a::len word)"
proof -
  have "(256::nat) ^ (LENGTH('a) div 8) = 2 ^ LENGTH('a)"
    using assms by (rule pow256)
  then have "le_nat (LENGTH('a) div 8) (byte_of w) = unat w"
    unfolding byte_of_def using le_nat_bytes [of "LENGTH('a) div 8" "unat w"] unat_bound [of w]
    by simp
  then show ?thesis by (simp add: le_word_def)
qed

lemma byte_of_le_word:
  assumes "8 dvd LENGTH('a)" "i < LENGTH('a) div 8"
  shows "byte_of (le_word f :: 'a::len word) i = f i"
proof -
  have "(256::nat) ^ (LENGTH('a) div 8) = 2 ^ LENGTH('a)"
    using assms(1) by (rule pow256)
  then have "unat (le_word f :: 'a word) = le_nat (LENGTH('a) div 8) f"
    using le_nat_bound [of "LENGTH('a) div 8" f] by (simp add: le_word_def unat_of_nat)
  then show ?thesis using le_nat_byte [OF assms(2)] by (simp add: byte_of_def)
qed

section \<open>Ranges of addresses\<close>

text \<open>\<open>off a d\<close> is the distance from \<open>d\<close> up to \<open>a\<close>: an address is one of the \<open>n\<close>
  bytes from \<open>d\<close> when it is below \<open>n\<close>.\<close>

abbreviation off :: "u64 \<Rightarrow> u64 \<Rightarrow> nat" where
  "off a d \<equiv> unat (a - d)"

lemma off_add: "n < 2 ^ 64 \<Longrightarrow> off (d + of_nat n) d = n"
  by (simp add: unat_of_nat)

lemma add_off: "d + of_nat (off a d) = a"
  by simp

lemma fold_bytes:
  assumes "n \<le> 2 ^ 64"
  shows "fold (\<lambda>i m. m(d + of_nat i := f i)) [0..<n] m a =
    (if off a d < n then f (off a d) else m a)"
  using assms
proof (induction n)
  case (Suc n)
  have "a = d + of_nat n \<longleftrightarrow> off a d = n"
    using Suc.prems by (metis Suc_le_lessD add_off off_add)
  with Suc show ?case by (auto simp: less_Suc_eq)
qed simp

lemma store_apply:
  "store a (w :: 'a::len word) m b = (if off b a < LENGTH('a) div 8 then byte_of w (off b a) else m b)"
  if "LENGTH('a) \<le> 2 ^ 64"
  unfolding store_def by (rule fold_bytes) (use that in \<open>simp add: div_le_mono le_trans\<close>)

lemma load_store_same:
  assumes "8 dvd LENGTH('a)" "LENGTH('a) \<le> 64"
  shows "load (store a (w :: 'a::len word) m) a = w"
proof -
  have "load (store a w m) a = (le_word (byte_of w) :: 'a word)"
    unfolding load_def
  proof (rule le_word_cong)
    fix i assume i: "i < LENGTH('a) div 8"
    then have "i < 8" using assms(2) by linarith
    then have "off (a + of_nat i) a = i" by (intro off_add) simp
    then show "store a w m (a + of_nat i) = byte_of w i"
      using i assms(2) by (simp add: store_apply)
  qed
  with assms(1) show ?thesis by (simp add: le_word_byte_of)
qed

lemma load_cong:
  "(\<And>i. i < LENGTH('a) div 8 \<Longrightarrow> m (a + of_nat i) = m' (a + of_nat i)) \<Longrightarrow>
   (load m a :: 'a::len word) = load m' a"
  unfolding load_def by (rule le_word_cong)

lemma load_store_other:
  assumes "8 \<le> off b a" "8 \<le> off a b"
  shows "load (store a (w :: u64) m) b = (load m b :: u64)"
proof (rule load_cong)
  fix i :: nat assume "i < LENGTH(64) div 8"
  then have i: "i < 8" by simp
  have "(off b a + off a b) mod 2 ^ 64 = unat ((b - a) + (a - b))" by (simp only: unat_word_ariths) simp
  then have "2 ^ 64 dvd off b a + off a b" by (simp add: dvd_eq_mod_eq_0)
  then obtain k where k: "off b a + off a b = 2 ^ 64 * k" by blast
  have "off b a < 2 ^ 64" "off a b < 2 ^ 64" using unat_bound [of "b - a"] unat_bound [of "a - b"] by simp_all
  then have "2 ^ 64 * k < 2 ^ 64 * 2" using k by simp
  then have "k < 2" by (subst (asm) mult_less_cancel1) simp
  then have "off b a + off a b \<le> 2 ^ 64" using k by (simp add: less_2_cases_iff) auto
  then have "off b a + 8 \<le> 2 ^ 64" using assms by simp
  moreover have "b + of_nat i - a = (b - a) + of_nat i" by simp
  ultimately have "off (b + of_nat i) a = off b a + i" using i by (simp only: unat_word_ariths) (simp add: unat_of_nat)
  then show "store a w m (b + of_nat i) = m (b + of_nat i)" using assms(1) by (simp add: store_apply)
qed

text \<open>A run of bytes, read and written.\<close>

definition get_bytes :: "u64 \<Rightarrow> nat \<Rightarrow> mem \<Rightarrow> u8 list" where
  "get_bytes a n m = map (\<lambda>i. m (a + of_nat i)) [0..<n]"

definition put_bytes :: "u64 \<Rightarrow> u8 list \<Rightarrow> mem \<Rightarrow> mem" where
  "put_bytes a bs m = fold (\<lambda>i m. m(a + of_nat i := bs ! i)) [0..<length bs] m"

lemma put_bytes_apply:
  "length bs \<le> 2 ^ 64 \<Longrightarrow> put_bytes a bs m b = (if off b a < length bs then bs ! off b a else m b)"
  unfolding put_bytes_def by (rule fold_bytes)

lemma length_get_bytes [simp]: "length (get_bytes a n m) = n"
  by (simp add: get_bytes_def)

section \<open>Pages and page-table entries (riscv.h, memlayout.h)\<close>

definition PGSIZE :: u64 where "PGSIZE = 4096"

definition PGROUNDUP :: "u64 \<Rightarrow> u64" where
  "PGROUNDUP sz = (sz + PGSIZE - 1) AND NOT (PGSIZE - 1)"

definition PGROUNDDOWN :: "u64 \<Rightarrow> u64" where
  "PGROUNDDOWN a = a AND NOT (PGSIZE - 1)"

definition PTE_V :: u64 where "PTE_V = push_bit 0 1"
definition PTE_R :: u64 where "PTE_R = push_bit 1 1"
definition PTE_W :: u64 where "PTE_W = push_bit 2 1"
definition PTE_X :: u64 where "PTE_X = push_bit 3 1"
definition PTE_U :: u64 where "PTE_U = push_bit 4 1"

definition PA2PTE :: "u64 \<Rightarrow> u64" where
  "PA2PTE pa = push_bit 10 (drop_bit 12 pa)"

definition PTE2PA :: "u64 \<Rightarrow> u64" where
  "PTE2PA pte = push_bit 12 (drop_bit 10 pte)"

definition PTE_FLAGS :: "u64 \<Rightarrow> u64" where
  "PTE_FLAGS pte = pte AND 0x3FF"

definition PXSHIFT :: "nat \<Rightarrow> nat" where
  "PXSHIFT level = 12 + 9 * level"

definition PX :: "nat \<Rightarrow> u64 \<Rightarrow> u64" where
  "PX level va = drop_bit (PXSHIFT level) va AND 0x1FF"

definition MAXVA :: u64 where "MAXVA = push_bit (9 + 9 + 9 + 12 - 1) 1"

definition KERNBASE :: u64 where "KERNBASE = 0x80000000"
definition PHYSTOP :: u64 where "PHYSTOP = KERNBASE + 128 * 1024 * 1024"
definition TRAMPOLINE :: u64 where "TRAMPOLINE = MAXVA - PGSIZE"
definition TRAPFRAME :: u64 where "TRAPFRAME = TRAMPOLINE - PGSIZE"

definition KSTACK :: "nat \<Rightarrow> u64" where
  "KSTACK p = TRAMPOLINE - (of_nat p + 1) * 2 * PGSIZE"

lemmas pte_bits = PTE_V_def PTE_R_def PTE_W_def PTE_X_def PTE_U_def
lemmas layout_defs = PGSIZE_def MAXVA_def KERNBASE_def PHYSTOP_def TRAMPOLINE_def TRAPFRAME_def

definition page_aligned :: "u64 \<Rightarrow> bool" where
  "page_aligned a \<longleftrightarrow> a mod PGSIZE = 0"

lemma not_4095: "NOT (PGSIZE - 1) = NOT (mask 12)"
  by (simp add: PGSIZE_def mask_eq_exp_minus_1)

lemma and_not_mask: "a AND NOT (mask n) = push_bit n (drop_bit n (a :: 'a::len word))"
  by (rule bit_word_eqI) (auto simp: bit_simps)

lemma PGROUNDDOWN_unat: "unat (PGROUNDDOWN a) = unat a div 4096 * 4096"
proof -
  have "PGROUNDDOWN a + take_bit 12 a = a"
    by (simp only: PGROUNDDOWN_def not_4095 and_not_mask bits_ident)
  moreover have "unat (take_bit 12 a) = unat a mod 4096"
    by (simp add: unat_take_bit)
  moreover have "unat (PGROUNDDOWN a) = unat a - unat a mod 4096"
  proof -
    have "PGROUNDDOWN a = a - take_bit 12 a" using calculation(1) by (simp add: eq_diff_eq)
    moreover have "unat (take_bit 12 a) \<le> unat a" using \<open>unat (take_bit 12 a) = _\<close> by simp
    ultimately show ?thesis using \<open>unat (take_bit 12 a) = _\<close> by (simp add: unat_sub word_le_nat_alt)
  qed
  ultimately show ?thesis by (simp add: minus_mod_eq_div_mult)
qed

lemma PGROUNDUP_unat:
  assumes "unat sz + 4095 < 2 ^ 64"
  shows "unat (PGROUNDUP sz) = (unat sz + 4095) div 4096 * 4096"
proof -
  have "PGROUNDUP sz = PGROUNDDOWN (sz + 4095)"
    by (simp add: PGROUNDUP_def PGROUNDDOWN_def PGSIZE_def algebra_simps)
  moreover have "unat (sz + 4095) = unat sz + 4095"
    using assms by (simp add: unat_plus_if')
  ultimately show ?thesis by (simp add: PGROUNDDOWN_unat)
qed

lemma page_aligned_unat: "page_aligned a \<longleftrightarrow> 4096 dvd unat a"
  by (simp add: page_aligned_def PGSIZE_def word_unat_eq_iff unat_mod dvd_eq_mod_eq_0)

text \<open>A physical address in a page-table entry comes back unchanged, and the permission
  bits do not reach into it.\<close>

lemma PTE2PA_PA2PTE:
  assumes "page_aligned pa" "unat pa < 2 ^ 56" "unat fl < 2 ^ 10"
  shows "PTE2PA (PA2PTE pa OR fl) = pa" "PTE_FLAGS (PA2PTE pa OR fl) = fl"
proof -
  have flbit: "bit fl n \<Longrightarrow> n < 10" for n
  proof (rule ccontr)
    assume b: "bit fl n" "\<not> n < 10"
    have "fl = take_bit 10 fl" using assms(3) by (simp only: take_bit_small)
    with b show False by (metis bit_take_bit_iff)
  qed
  have pabit: "bit pa n \<Longrightarrow> n < 56 \<and> 12 \<le> n" for n
  proof -
    assume b: "bit pa n"
    have "pa = take_bit 56 pa" using assms(2) by (simp only: take_bit_small)
    then have "n < 56" using b by (metis bit_take_bit_iff)
    moreover have "take_bit 12 pa = 0"
      using assms(1) [unfolded page_aligned_unat] by (simp add: word_unat_eq_iff unat_take_bit)
    then have "12 \<le> n" using b by (metis bit_take_bit_iff bit_0_eq bot_apply bot_bool_def not_le)
    ultimately show ?thesis by simp
  qed
  show "PTE2PA (PA2PTE pa OR fl) = pa"
    unfolding PTE2PA_def PA2PTE_def
    by (rule bit_word_eqI) (use pabit flbit in \<open>fastforce simp: bit_simps\<close>)
  have m: "(0x3FF :: u64) = mask 10" by (simp add: mask_eq_exp_minus_1)
  show "PTE_FLAGS (PA2PTE pa OR fl) = fl"
    unfolding PTE_FLAGS_def PA2PTE_def m
    by (intro bit_word_eqI) (use pabit flbit in \<open>auto simp: bit_simps\<close>)
qed

section \<open>kernel/string.c\<close>

definition memset :: "u64 \<Rightarrow> int \<Rightarrow> u32 \<Rightarrow> mem \<Rightarrow> mem" where
  "memset dst c n m = fold (\<lambda>i m. m(dst + of_nat i := word_of_int c)) [0..<unat n] m"

primrec memcmp_loop :: "nat \<Rightarrow> u64 \<Rightarrow> u64 \<Rightarrow> mem \<Rightarrow> int" where
  "memcmp_loop 0 s1 s2 m = 0"
| "memcmp_loop (Suc n) s1 s2 m =
     (if m s1 \<noteq> m s2 then uint (m s1) - uint (m s2) else memcmp_loop n (s1 + 1) (s2 + 1) m)"

definition memcmp :: "u64 \<Rightarrow> u64 \<Rightarrow> u32 \<Rightarrow> mem \<Rightarrow> int" where
  "memcmp v1 v2 n m = memcmp_loop (unat n) v1 v2 m"

definition copy_byte :: "u64 \<Rightarrow> u64 \<Rightarrow> nat \<Rightarrow> mem \<Rightarrow> mem" where
  "copy_byte dst src i m = m(dst + of_nat i := m (src + of_nat i))"

definition memmove :: "u64 \<Rightarrow> u64 \<Rightarrow> u32 \<Rightarrow> mem \<Rightarrow> mem" where
  "memmove dst src n m =
    (if n = 0 then m
     else if src < dst \<and> src + ucast n > dst
     then fold (copy_byte dst src) (rev [0..<unat n]) m
     else fold (copy_byte dst src) [0..<unat n] m)"

definition memcpy :: "u64 \<Rightarrow> u64 \<Rightarrow> u32 \<Rightarrow> mem \<Rightarrow> mem" where
  "memcpy dst src n m = memmove dst src n m"

primrec strncmp_loop :: "nat \<Rightarrow> u64 \<Rightarrow> u64 \<Rightarrow> mem \<Rightarrow> int" where
  "strncmp_loop 0 p q m = 0"
| "strncmp_loop (Suc n) p q m =
     (if m p \<noteq> 0 \<and> m p = m q then strncmp_loop n (p + 1) (q + 1) m
      else uint (m p) - uint (m q))"

definition strncmp :: "u64 \<Rightarrow> u64 \<Rightarrow> u32 \<Rightarrow> mem \<Rightarrow> int" where
  "strncmp p q n m = strncmp_loop (unat n) p q m"

primrec zero_loop :: "nat \<Rightarrow> u64 \<Rightarrow> mem \<Rightarrow> mem" where
  "zero_loop 0 s m = m"
| "zero_loop (Suc n) s m = zero_loop n (s + 1) (m(s := 0))"

primrec strncpy_loop :: "nat \<Rightarrow> u64 \<Rightarrow> u64 \<Rightarrow> mem \<Rightarrow> mem" where
  "strncpy_loop 0 s t m = m"
| "strncpy_loop (Suc n) s t m =
     (let c = m t; m = m(s := c)
      in if c \<noteq> 0 then strncpy_loop n (s + 1) (t + 1) m else zero_loop n (s + 1) m)"

definition strncpy :: "u64 \<Rightarrow> u64 \<Rightarrow> int \<Rightarrow> mem \<Rightarrow> mem" where
  "strncpy s t n m = strncpy_loop (nat n) s t m"

primrec safestrcpy_loop :: "nat \<Rightarrow> u64 \<Rightarrow> u64 \<Rightarrow> mem \<Rightarrow> mem" where
  "safestrcpy_loop 0 s t m = m(s := 0)"
| "safestrcpy_loop (Suc n) s t m =
     (let c = m t; m = m(s := c)
      in if c \<noteq> 0 then safestrcpy_loop n (s + 1) (t + 1) m else m(s + 1 := 0))"

definition safestrcpy :: "u64 \<Rightarrow> u64 \<Rightarrow> int \<Rightarrow> mem \<Rightarrow> mem" where
  "safestrcpy s t n m = (if n \<le> 0 then m else safestrcpy_loop (nat n - 1) s t m)"

text \<open>The same routine on two arrays that the model keeps typed (p->name): \<open>i\<close> is how far
  both pointers have advanced.\<close>

primrec safestrcpy_arr_loop :: "nat \<Rightarrow> nat \<Rightarrow> u8 list \<Rightarrow> u8 list \<Rightarrow> u8 list" where
  "safestrcpy_arr_loop 0 i s t = s[i := 0]"
| "safestrcpy_arr_loop (Suc n) i s t =
     (let c = t ! i; s = s[i := c]
      in if c \<noteq> 0 then safestrcpy_arr_loop n (Suc i) s t else s[Suc i := 0])"

definition safestrcpy_arr :: "u8 list \<Rightarrow> u8 list \<Rightarrow> int \<Rightarrow> u8 list" where
  "safestrcpy_arr s t n = (if n \<le> 0 then s else safestrcpy_arr_loop (nat n - 1) 0 s t)"

partial_function (option) strlen_loop :: "mem \<Rightarrow> u64 \<Rightarrow> nat \<Rightarrow> nat option" where
  "strlen_loop m s n = (if m (s + of_nat n) = 0 then Some n else strlen_loop m s (Suc n))"

definition strlen :: "u64 \<Rightarrow> mem \<Rightarrow> nat option" where
  "strlen s m = strlen_loop m s 0"

lemma memset_apply:
  "memset dst c n m a = (if off a dst < unat n then word_of_int c else m a)"
  unfolding memset_def using unat_bound [of n] by (intro fold_bytes) simp

lemma copy_up:
  assumes "n \<le> 2 ^ 64" and "\<And>i. i < n \<Longrightarrow> i \<le> off (src + of_nat i) dst"
  shows "fold (copy_byte dst src) [0..<n] m a =
    (if off a dst < n then m (src + of_nat (off a dst)) else m a)"
  using assms
proof (induction n arbitrary: a)
  case (Suc n)
  have "a = dst + of_nat n \<longleftrightarrow> off a dst = n"
    using Suc.prems(1) by (metis Suc_le_lessD add_off off_add)
  moreover have "\<not> off (src + of_nat n) dst < n" using Suc.prems(2) [of n] by simp
  ultimately show ?case using Suc by (auto simp: copy_byte_def less_Suc_eq)
qed simp

lemma copy_down:
  assumes "n \<le> 2 ^ 64" and "\<And>i. i < n \<Longrightarrow> off (src + of_nat i) dst \<le> i \<or> n \<le> off (src + of_nat i) dst"
  shows "k \<le> n \<Longrightarrow> fold (copy_byte dst src) (rev [k..<n]) m a =
    (if k \<le> off a dst \<and> off a dst < n then m (src + of_nat (off a dst)) else m a)"
proof (induction "n - k" arbitrary: k a)
  case (Suc d)
  then have k: "k < n" by simp
  have eq: "a = dst + of_nat k \<longleftrightarrow> off a dst = k" for a
    using assms(1) k by (metis add_off off_add order_less_le_trans)
  have IH: "fold (copy_byte dst src) (rev [Suc k..<n]) m a =
    (if Suc k \<le> off a dst \<and> off a dst < n then m (src + of_nat (off a dst)) else m a)" for a
    using Suc k by simp
  have "rev [k..<n] = rev [Suc k..<n] @ [k]" using k by (simp add: upt_conv_Cons)
  then have "fold (copy_byte dst src) (rev [k..<n]) m a =
      copy_byte dst src k (fold (copy_byte dst src) (rev [Suc k..<n]) m) a" by simp
  moreover have "\<not> (Suc k \<le> off (src + of_nat k) dst \<and> off (src + of_nat k) dst < n)"
    using assms(2) [OF k] by auto
  ultimately show ?case using k eq [of a] IH by (auto simp: copy_byte_def)
qed auto

lemma off_ge: "unat dst \<le> unat x \<Longrightarrow> off x dst = unat x - unat dst"
  and off_lt: "\<not> unat dst \<le> unat x \<Longrightarrow> off x dst = unat x + 2 ^ 64 - unat dst"
  by (simp_all add: unat_sub_if')

text \<open>Copying downwards never reads a byte it has written when the source starts below the
  destination; copying upwards never does when it does not, or when the regions are apart.\<close>

lemma overlap_down:
  assumes "unat src + n < 2 ^ 64" "unat dst + n < 2 ^ 64" "src < dst" "i < n"
  shows "off (src + of_nat i) dst \<le> i \<or> n \<le> off (src + of_nat i) dst"
proof -
  have si: "unat (src + of_nat i) = unat src + i"
    using assms by (simp add: unat_plus_if' unat_of_nat)
  show ?thesis
  proof (cases "unat dst \<le> unat src + i")
    case True
    then show ?thesis using si assms(3)
      by (intro disjI1) (simp add: off_ge word_less_nat_alt del: unat_plus_if')
  next
    case False
    then show ?thesis using si assms(2) by (intro disjI2) (simp add: off_lt)
  qed
qed

lemma overlap_up:
  assumes "unat src + unat n < 2 ^ 64" "\<not> (src < dst \<and> src + ucast (n :: u32) > dst)" "i < unat n"
  shows "i \<le> off (src + of_nat i) dst"
proof -
  have si: "unat (src + of_nat i) = unat src + i"
    using assms by (simp add: unat_plus_if' unat_of_nat)
  show ?thesis
  proof (cases "unat dst \<le> unat src + i")
    case True
    have "\<not> src < dst"
    proof
      assume "src < dst"
      then have "src + ucast n \<le> dst" using assms(2) by simp
      moreover have "unat (src + ucast n) = unat src + unat n"
        using assms(1) by (simp add: unat_plus_if' unat_ucast_up)
      ultimately show False using True assms(3) by (simp add: word_le_nat_alt)
    qed
    then show ?thesis using True si by (simp add: off_ge word_less_nat_alt)
  next
    case False
    then show ?thesis using si unat_bound [of dst] by (simp add: off_lt)
  qed
qed

lemma memmove_apply:
  assumes "unat src + unat n < 2 ^ 64" "unat dst + unat n < 2 ^ 64"
  shows "memmove dst src n m a =
    (if off a dst < unat n then m (src + of_nat (off a dst)) else m a)"
proof -
  have n: "unat n \<le> 2 ^ 64" using unat_bound [of n] by simp
  show ?thesis
  proof (cases "src < dst \<and> src + ucast n > dst")
    case True
    have "fold (copy_byte dst src) (rev [0..<unat n]) m a =
        (if 0 \<le> off a dst \<and> off a dst < unat n then m (src + of_nat (off a dst)) else m a)"
      by (rule copy_down [OF n]) (use overlap_down assms True in blast, simp)
    then show ?thesis using True by (simp add: memmove_def)
  next
    case False
    have "fold (copy_byte dst src) [0..<unat n] m a =
        (if off a dst < unat n then m (src + of_nat (off a dst)) else m a)"
      by (rule copy_up [OF n]) (use overlap_up assms False in blast)
    then show ?thesis using False by (auto simp: memmove_def)
  qed
qed

section \<open>Bounded C strings\<close>

text \<open>The string at \<open>p\<close>, at most \<open>n\<close> bytes of it.\<close>

primrec cstr_n :: "nat \<Rightarrow> u64 \<Rightarrow> mem \<Rightarrow> u8 list" where
  "cstr_n 0 p m = []"
| "cstr_n (Suc n) p m = (if m p = 0 then [] else m p # cstr_n n (p + 1) m)"

lemma cstr_n_cong:
  "(\<And>i. i < n \<Longrightarrow> m (p + of_nat i) = m' (p + of_nat i)) \<Longrightarrow> cstr_n n p m = cstr_n n p m'"
proof (induction n arbitrary: p)
  case (Suc n)
  have "cstr_n n (p + 1) m = cstr_n n (p + 1) m'"
    by (rule Suc.IH) (use Suc.prems [of "Suc _"] in \<open>simp add: algebra_simps\<close>)
  then show ?case using Suc.prems [of 0] by simp
qed simp

lemma cstr_n_length: "length (cstr_n n p m) \<le> n"
  by (induction n arbitrary: p) auto

text \<open>strncmp compares at most n characters, as strings.\<close>

lemma strncmp_eq_0:
  "strncmp p q n m = 0 \<longleftrightarrow> cstr_n (unat n) p m = cstr_n (unat n) q m"
proof -
  have "strncmp_loop k p q m = 0 \<longleftrightarrow> cstr_n k p m = cstr_n k q m" for k
    by (induction k arbitrary: p q) (auto simp: word_uint_eq_iff)
  then show ?thesis by (simp add: strncmp_def)
qed

lemma strlen_loop_cstr:
  "cstr_n k (s + of_nat n) m = xs \<Longrightarrow> length xs < k \<Longrightarrow> strlen_loop m s n = Some (n + length xs)"
proof (induction k arbitrary: n xs)
  case (Suc k)
  show ?case
  proof (cases "m (s + of_nat n) = 0")
    case True
    with Suc.prems show ?thesis by (simp add: strlen_loop.simps)
  next
    case False
    then obtain ys where ys: "xs = m (s + of_nat n) # ys" "cstr_n k (s + of_nat (Suc n)) m = ys"
      using Suc.prems(1) by (auto simp: algebra_simps)
    with Suc.prems(2) have "strlen_loop m s (Suc n) = Some (Suc n + length ys)"
      by (intro Suc.IH) auto
    with False ys show ?thesis by (simp add: strlen_loop.simps [of m s n])
  qed
qed simp

lemma strlen_cstr:
  assumes "length (cstr_n k s m) < k"
  shows "strlen s m = Some (length (cstr_n k s m))"
  using strlen_loop_cstr [of k s 0 m "cstr_n k s m"] assms by (simp add: strlen_def)

lemma off_Suc: "a \<noteq> s \<Longrightarrow> off a (s + 1) = off a s - 1"
  using unat_minus_one [of "a - s"] by (simp add: diff_diff_eq)

lemma safestrcpy_loop_frame:
  "n < 2 ^ 64 - 1 \<Longrightarrow> \<not> off a s \<le> n \<Longrightarrow> safestrcpy_loop n s t m a = m a"
proof (induction n arbitrary: s t m)
  case 0
  then show ?case by auto
next
  case (Suc n)
  have "a \<noteq> s" using Suc.prems(2) by auto
  moreover have "a \<noteq> s + 1" using Suc.prems(2) by auto
  moreover have "\<not> off a (s + 1) \<le> n"
    using off_Suc [of a s] Suc.prems(2) \<open>a \<noteq> s\<close> by simp
  ultimately show ?case using Suc by (simp add: Let_def)
qed

lemma safestrcpy_loop_cstr:
  assumes "n < 2 ^ 64 - 1" "\<And>i j. i \<le> n \<Longrightarrow> j < n \<Longrightarrow> s + of_nat i \<noteq> t + of_nat j"
  shows "cstr_n (Suc n) s (safestrcpy_loop n s t m) = cstr_n n t m"
  using assms
proof (induction n arbitrary: s t m)
  case 0
  then show ?case by simp
next
  case (Suc n)
  let ?m = "m(s := m t)"
  have s: "safestrcpy_loop n (s + 1) (t + 1) ?m s = m t"
  proof -
    have "\<not> off s (s + 1) \<le> n" using Suc.prems(1) by (simp add: unsigned_minus_1_eq_mask mask_eq_exp_minus_1)
    then show ?thesis using Suc.prems(1) by (simp add: safestrcpy_loop_frame)
  qed
  show ?case
  proof (cases "m t = 0")
    case True
    then show ?thesis by simp
  next
    case False
    have "cstr_n (Suc n) (s + 1) (safestrcpy_loop n (s + 1) (t + 1) ?m) = cstr_n n (t + 1) ?m"
    proof (rule Suc.IH)
      fix i j assume "i \<le> n" "j < n"
      then show "s + 1 + of_nat i \<noteq> t + 1 + of_nat j"
        using Suc.prems(2) [of "Suc i" "Suc j"] by (simp add: algebra_simps)
    qed (use Suc.prems(1) in simp)
    also have "\<dots> = cstr_n n (t + 1) m"
    proof (rule cstr_n_cong)
      fix i assume "i < n"
      then have "s \<noteq> t + 1 + of_nat i" using Suc.prems(2) [of 0 "Suc i"] by (simp add: algebra_simps)
      then show "?m (t + 1 + of_nat i) = m (t + 1 + of_nat i)" by auto
    qed
    finally show ?thesis using False s by (simp add: Let_def)
  qed
qed

lemma safestrcpy_cstr:
  assumes "0 < n" "n < 2 ^ 31"
    and "\<And>i j. i < nat n \<Longrightarrow> j < nat n \<Longrightarrow> s + of_nat i \<noteq> t + of_nat j"
  shows "cstr_n (nat n) s (safestrcpy s t n m) = cstr_n (nat n - 1) t m \<and>
    (\<forall>a. safestrcpy s t n m a \<noteq> m a \<longrightarrow> off a s < nat n)"
proof -
  have n: "nat n = Suc (nat n - 1)" "nat n - 1 < 2 ^ 64 - 1" using assms(1,2) by auto
  have "cstr_n (Suc (nat n - 1)) s (safestrcpy_loop (nat n - 1) s t m) = cstr_n (nat n - 1) t m"
    by (rule safestrcpy_loop_cstr) (use assms(3) n in auto)
  then have "cstr_n (nat n) s (safestrcpy s t n m) = cstr_n (nat n - 1) t m"
    using assms(1) n(1) by (simp add: safestrcpy_def)
  moreover have "off a s < nat n" if "safestrcpy s t n m a \<noteq> m a" for a
  proof (rule ccontr)
    assume "\<not> off a s < nat n"
    then have "\<not> off a s \<le> nat n - 1" using n(1) by linarith
    then show False
      using that assms(1) n(2) by (simp add: safestrcpy_def safestrcpy_loop_frame)
  qed
  ultimately show ?thesis by blast
qed

section \<open>Properties\<close>

text \<open>C38: memmove copies the source as it was before the call, whichever way the two regions
  overlap, and changes no byte outside the destination; the regions must not wrap around the
  end of the address space.\<close>

theorem memmove_copies:
  assumes "unat src + unat n < 2 ^ 64" "unat dst + unat n < 2 ^ 64"
  shows "memmove dst src n m = (\<lambda>a. if unat (a - dst) < unat n then m (src + (a - dst)) else m a)"
  using memmove_apply [OF assms] by (intro ext) simp

theorem memmove_copies_witness:
  "memmove 0x1002 0x1000 8 (\<lambda>a. ucast a) 0x1007 = 5"
  by (subst memmove_copies) simp_all

text \<open>Safestrcpy leaves a terminated string in the destination, namely the first n - 1
  characters of the source string, and writes no byte outside the n bytes it was given, as long
  as the two buffers are disjoint.\<close>

lemma safestrcpy_terminates_string:
  assumes "0 < n" "n < 2 ^ 31"
    and "\<And>i j. i < nat n \<Longrightarrow> j < nat n \<Longrightarrow> s + of_nat i \<noteq> t + of_nat j"
  shows "cstr_n (nat n) s (safestrcpy s t n m) = cstr_n (nat n - 1) t m \<and>
    (\<forall>a. safestrcpy s t n m a \<noteq> m a \<longrightarrow> off a s < nat n)"
  using assms by (rule safestrcpy_cstr)

lemma safestrcpy_terminates_string_example:
  "cstr_n 3 0x2000 (safestrcpy 0x2000 0x1000 3 (\<lambda>a. 65)) = [65, 65]"
proof -
  have "(0x2000 :: u64) + of_nat i \<noteq> 0x1000 + of_nat j" if "i < 3" "j < 3" for i j
    using that by (auto simp: less_Suc_eq numeral_3_eq_3)
  then have "cstr_n (nat 3) 0x2000 (safestrcpy 0x2000 0x1000 3 (\<lambda>a. 65)) = cstr_n (nat 3 - 1) 0x1000 (\<lambda>a. 65)"
    using safestrcpy_terminates_string [of 3 "0x2000" "0x1000" "\<lambda>a. 65"] by simp
  moreover have "cstr_n (nat 3 - 1) 0x1000 (\<lambda>a. 65) = [65, 65]" by code_simp
  ultimately show ?thesis by simp
qed

end
