(* ===== verification/Kalloc.thy ===== *)
theory Kalloc
  imports Cmem
begin

unbundle bit_operations_syntax

text \<open>
  The physical page allocator (kernel/kalloc.c).

  The free list is where the code has it: the list head is kmem.freelist, and the link to
  the next free page is stored in the first eight bytes of each free page. \<open>end\<close>, the
  first address after the kernel image, is set by the linker and is a constant field of the
  state. A null pointer is address 0.
\<close>

record kmem_state = kbase +
  ram :: mem
  freelist :: u64
  kend :: u64

definition kfree :: "u64 \<Rightarrow> 'z kmem_state_scheme \<Rightarrow> 'z kmem_state_scheme option" where
  "kfree pa s =
    (if pa mod PGSIZE \<noteq> 0 \<or> pa < kend s \<or> pa \<ge> PHYSTOP then None
     else do {
       let s = s\<lparr>ram := memset pa 1 4096 (ram s)\<rparr>;
       s \<leftarrow> lock Lk_kmem s;
       let s = s\<lparr>ram := store pa (freelist s) (ram s)\<rparr>;
       let s = s\<lparr>freelist := pa\<rparr>;
       unlock Lk_kmem s })"

definition kalloc :: "'z kmem_state_scheme \<Rightarrow> (u64 \<times> 'z kmem_state_scheme) option" where
  "kalloc s = do {
     s \<leftarrow> lock Lk_kmem s;
     let r = freelist s;
     let s = (if r \<noteq> 0 then s\<lparr>freelist := load (ram s) r\<rparr> else s);
     s \<leftarrow> unlock Lk_kmem s;
     let s = (if r \<noteq> 0 then s\<lparr>ram := memset r 5 4096 (ram s)\<rparr> else s);
     Some (r, s) }"

lemma kfree_range: "kfree pa s = Some s' \<Longrightarrow> pa < PHYSTOP"
  by (auto simp: kfree_def split: if_splits)

text \<open>The loop of freerange ends: kfree of a page at or past PHYSTOP does not return.\<close>

function freerange_loop :: "u64 \<Rightarrow> u64 \<Rightarrow> 'z kmem_state_scheme \<Rightarrow> 'z kmem_state_scheme option" where
  "freerange_loop p pa_end s =
    (if p + PGSIZE \<le> pa_end then Option.bind (kfree p s) (freerange_loop (p + PGSIZE) pa_end)
     else Some s)"
  by pat_completeness auto
termination
proof (relation "measure (\<lambda>(p, pa_end, s). unat PHYSTOP - unat p)")
  fix p pa_end and s s' :: "'z kmem_state_scheme"
  assume "kfree p s = Some s'"
  then have "unat p < unat PHYSTOP" by (auto dest: kfree_range simp: word_less_nat_alt)
  moreover from this have "unat (p + PGSIZE) = unat p + 4096"
    by (simp add: unat_plus_if' layout_defs)
  ultimately show "((p + PGSIZE, pa_end, s'), p, pa_end, s) \<in> measure (\<lambda>(p, pa_end, s). unat PHYSTOP - unat p)"
    by simp
qed simp

declare freerange_loop.simps [simp del]

definition freerange :: "u64 \<Rightarrow> u64 \<Rightarrow> 'z kmem_state_scheme \<Rightarrow> 'z kmem_state_scheme option" where
  "freerange pa_start pa_end s = freerange_loop (PGROUNDUP pa_start) pa_end s"

definition kinit :: "'z kmem_state_scheme \<Rightarrow> 'z kmem_state_scheme option" where
  "kinit s = freerange (kend s) PHYSTOP (s\<lparr>hw := initlock Lk_kmem ''kmem'' (hw s)\<rparr>)"

section \<open>Pages do not overlap\<close>

definition in_page :: "u64 \<Rightarrow> u64 \<Rightarrow> bool" where
  "in_page a x \<longleftrightarrow> off a x < 4096"

lemma in_page_iff:
  assumes "page_aligned x"
  shows "in_page a x \<longleftrightarrow> unat a div 4096 = unat x div 4096"
proof -
  obtain k where k: "unat x = 4096 * k" using assms by (auto simp: page_aligned_unat)
  have kb: "4096 * k + 4096 \<le> 2 ^ 64" using k unat_bound [of x] by simp
  show ?thesis
  proof (cases "unat x \<le> unat a")
    case True
    then have "off a x = unat a - 4096 * k" using k by (simp add: unat_sub_if')
    with True k show ?thesis by (auto simp: in_page_def div_nat_eqI)
  next
    case False
    then have "off a x = unat a + 2 ^ 64 - 4096 * k" using k by (simp add: unat_sub_if')
    moreover have "unat a div 4096 \<noteq> k" using False k by auto
    moreover have "\<not> unat a + 2 ^ 64 - 4096 * k < 4096"
      using False k kb by simp
    ultimately show ?thesis using k by (simp add: in_page_def)
  qed
qed

lemma in_page_unique: "page_aligned x \<Longrightarrow> page_aligned y \<Longrightarrow> in_page a x \<Longrightarrow> in_page a y \<Longrightarrow> x = y"
  by (auto simp: in_page_iff page_aligned_unat word_unat_eq_iff [of x y])

lemma in_page_add: "i < 4096 \<Longrightarrow> in_page (x + of_nat i) x"
  by (simp add: in_page_def unat_of_nat)

lemma other_page:
  "page_aligned x \<Longrightarrow> page_aligned y \<Longrightarrow> x \<noteq> y \<Longrightarrow> in_page a x \<Longrightarrow> \<not> in_page a y"
  using in_page_unique by blast

lemma memset_page:
  "memset x c 4096 m a = (if in_page a x then word_of_int c else m a)"
  by (simp add: memset_apply in_page_def)

lemma load_other_page:
  assumes "page_aligned x" "page_aligned y" "x \<noteq> y"
    and "\<And>a. \<not> in_page a y \<Longrightarrow> m' a = m a"
  shows "(load m' x :: u64) = load m x"
proof (rule load_cong)
  fix i assume "i < LENGTH(64) div 8"
  then have "in_page (x + of_nat i) x" by (intro in_page_add) simp
  then show "m' (x + of_nat i) = m (x + of_nat i)" using assms other_page by blast
qed

lemma store_in_page:
  assumes "\<not> in_page a x"
  shows "store x (w :: u64) m a = m a"
  using assms by (simp add: store_apply in_page_def)

section \<open>The free list\<close>

primrec free_list :: "mem \<Rightarrow> u64 \<Rightarrow> u64 list \<Rightarrow> bool" where
  "free_list m p [] \<longleftrightarrow> p = 0"
| "free_list m p (x # xs) \<longleftrightarrow> p = x \<and> x \<noteq> 0 \<and> free_list m (load m x) xs"

definition page_ok :: "u64 \<Rightarrow> u64 \<Rightarrow> bool" where
  "page_ok e x \<longleftrightarrow> page_aligned x \<and> e \<le> x \<and> x < PHYSTOP"

text \<open>The pages on the free list, in order: they are whole pages of the managed range, and
  no page is on the list twice.\<close>

definition kmem_list :: "'z kmem_state_scheme \<Rightarrow> u64 list \<Rightarrow> bool" where
  "kmem_list s xs \<longleftrightarrow> free_list (ram s) (freelist s) xs \<and> distinct xs \<and>
     (\<forall>x\<in>set xs. page_ok (kend s) x) \<and> 0 < kend s"

lemma free_list_unique: "free_list m p xs \<Longrightarrow> free_list m p ys \<Longrightarrow> xs = ys"
proof (induction xs arbitrary: p ys)
  case Nil
  then show ?case by (cases ys) auto
next
  case (Cons x xs)
  then show ?case by (cases ys) auto
qed

lemma free_list_frame:
  assumes "free_list m p xs" "\<forall>x\<in>set xs. page_aligned x" "y \<notin> set xs" "page_aligned y"
    and "\<And>a. \<not> in_page a y \<Longrightarrow> m' a = m a"
  shows "free_list m' p xs"
  using assms(1-3)
proof (induction xs arbitrary: p)
  case (Cons x xs)
  have "(load m' x :: u64) = load m x"
    by (rule load_other_page [of x y]) (use Cons.prems assms(4,5) in auto)
  with Cons show ?case by simp
qed simp

lemma kmem_list_unique: "kmem_list s xs \<Longrightarrow> kmem_list s ys \<Longrightarrow> xs = ys"
  by (auto simp: kmem_list_def dest: free_list_unique)

definition kmem_ok :: "'z kmem_state_scheme \<Rightarrow> bool" where
  "kmem_ok s \<longleftrightarrow> hart_ok (hw s) \<and> lock_free Lk_kmem (hw s) \<and> (\<exists>xs. kmem_list s xs)"

definition avail :: "'z kmem_state_scheme \<Rightarrow> u64 set" where
  "avail s = {x. \<exists>xs. kmem_list s xs \<and> x \<in> set xs}"

lemma avail_list: "kmem_list s xs \<Longrightarrow> avail s = set xs"
  by (auto simp: avail_def dest: kmem_list_unique)

lemma kalloc_list_Nil:
  assumes "hart_ok (hw s)" "lock_free Lk_kmem (hw s)" "kmem_list s []"
  shows "kalloc s = Some (0, s)"
  using assms by (simp add: kalloc_def kmem_list_def kstep)

lemma kalloc_list_Cons:
  assumes "hart_ok (hw s)" "lock_free Lk_kmem (hw s)" "kmem_list s (x # xs)"
  shows "kalloc s = Some (x, s\<lparr>ram := memset x 5 4096 (ram s), freelist := load (ram s) x\<rparr>)"
    and "kmem_list (s\<lparr>ram := memset x 5 4096 (ram s), freelist := load (ram s) x\<rparr>) xs"
proof -
  have x: "x \<noteq> 0" "freelist s = x" using assms(3) by (auto simp: kmem_list_def)
  show "kalloc s = Some (x, s\<lparr>ram := memset x 5 4096 (ram s), freelist := load (ram s) x\<rparr>)"
    using assms(1,2) x by (simp add: kalloc_def kstep)
  have "free_list (memset x 5 4096 (ram s)) (load (ram s) x) xs"
    by (rule free_list_frame [where m = "ram s" and y = x])
      (use assms(3) in \<open>auto simp: kmem_list_def page_ok_def memset_page\<close>)
  with assms(3) show "kmem_list (s\<lparr>ram := memset x 5 4096 (ram s), freelist := load (ram s) x\<rparr>) xs"
    by (simp add: kmem_list_def)
qed

lemma kfree_list:
  assumes "hart_ok (hw s)" "lock_free Lk_kmem (hw s)" "kmem_list s xs" "page_ok (kend s) pa"
    "pa \<notin> set xs"
  defines "m \<equiv> store pa (freelist s) (memset pa 1 4096 (ram s))"
  shows "kfree pa s = Some (s\<lparr>ram := m, freelist := pa\<rparr>)"
    and "kmem_list (s\<lparr>ram := m, freelist := pa\<rparr>) (pa # xs)"
    and "\<not> in_page a pa \<Longrightarrow> m a = ram s a"
proof -
  show "kfree pa s = Some (s\<lparr>ram := m, freelist := pa\<rparr>)"
    using assms(1,2,4) by (simp add: kfree_def page_ok_def page_aligned_def kstep m_def linorder_not_less linorder_not_le)
  have fr: "\<not> in_page a pa \<Longrightarrow> m a = ram s a" for a
    by (simp add: m_def store_in_page memset_page)
  then show "\<not> in_page a pa \<Longrightarrow> m a = ram s a" .
  have "load m pa = freelist s" unfolding m_def by (rule load_store_same) auto
  moreover have "free_list m (freelist s) xs"
    by (rule free_list_frame [where m = "ram s" and y = pa])
      (use assms(3,4,5) fr in \<open>auto simp: kmem_list_def page_ok_def\<close>)
  moreover have "pa \<noteq> 0" using assms(3,4) by (auto simp: kmem_list_def page_ok_def)
  ultimately show "kmem_list (s\<lparr>ram := m, freelist := pa\<rparr>) (pa # xs)"
    using assms(3-5) by (simp add: kmem_list_def)
qed

section \<open>The allocator as an interface\<close>

text \<open>What callers of kalloc and kfree rely on: which pages are free, that an allocated page
  leaves that set and a freed one joins it, and that nothing else happens to it.\<close>

locale page_allocator =
  fixes alloc :: "'s \<Rightarrow> ('p \<times> 's) option"
    and free :: "'p \<Rightarrow> 's \<Rightarrow> 's option"
    and null :: 'p
    and pages :: "'s \<Rightarrow> 'p set"
    and inv :: "'s \<Rightarrow> bool"
    and valid :: "'s \<Rightarrow> 'p \<Rightarrow> bool"
  assumes alloc_none: "inv s \<Longrightarrow> pages s = {} \<Longrightarrow> alloc s = Some (null, s)"
    and alloc_some: "inv s \<Longrightarrow> pages s \<noteq> {} \<Longrightarrow> \<exists>p s'. alloc s = Some (p, s') \<and> p \<in> pages s \<and>
        inv s' \<and> pages s' = pages s - {p} \<and> valid s' = valid s"
    and free_page: "inv s \<Longrightarrow> valid s p \<Longrightarrow> p \<notin> pages s \<Longrightarrow>
        \<exists>s'. free p s = Some s' \<and> inv s' \<and> pages s' = insert p (pages s) \<and> valid s' = valid s"
    and pages_valid: "inv s \<Longrightarrow> p \<in> pages s \<Longrightarrow> valid s p \<and> p \<noteq> null"
    and pages_finite: "inv s \<Longrightarrow> finite (pages s)"
begin

lemma alloc_total: "inv s \<Longrightarrow> \<exists>p s'. alloc s = Some (p, s') \<and> inv s'"
  using alloc_none alloc_some by (cases "pages s = {}") fastforce+

lemma alloc_null_iff: "inv s \<Longrightarrow> alloc s = Some (p, s') \<Longrightarrow> p = null \<longleftrightarrow> pages s = {}"
  using alloc_none [of s] alloc_some [of s] pages_valid [of s p] by (cases "pages s = {}") auto

lemma alloc_page:
  assumes "inv s" "alloc s = Some (p, s')" "p \<noteq> null"
  shows "p \<in> pages s" "inv s'" "pages s' = pages s - {p}" "valid s' = valid s"
  using assms alloc_none [of s] alloc_some [of s] by (cases "pages s = {}"; auto)+

text \<open>Freeing the page just allocated gives back the same set of free pages.\<close>

lemma alloc_then_free:
  assumes "inv s" "alloc s = Some (p, s')" "p \<noteq> null"
  shows "\<exists>s''. free p s' = Some s'' \<and> inv s'' \<and> pages s'' = pages s"
proof -
  note a = alloc_page [OF assms]
  have "valid s' p" using pages_valid [OF assms(1) a(1)] a(4) by simp
  then obtain s'' where "free p s' = Some s''" "inv s''" "pages s'' = insert p (pages s')"
    using free_page [OF a(2)] a(3) by blast
  then show ?thesis using a(1,3) by auto
qed

text \<open>Repeated allocation: as long as pages are left, every call returns a new one.\<close>

primrec alloc_n :: "nat \<Rightarrow> 's \<Rightarrow> ('p list \<times> 's) option" where
  "alloc_n 0 s = Some ([], s)"
| "alloc_n (Suc n) s = Option.bind (alloc s) (\<lambda>(p, s). map_option (\<lambda>(ps, s). (p # ps, s)) (alloc_n n s))"

lemma alloc_n_distinct:
  "inv s \<Longrightarrow> n \<le> card (pages s) \<Longrightarrow> \<exists>ps s'. alloc_n n s = Some (ps, s') \<and> length ps = n \<and> distinct ps \<and>
     set ps \<subseteq> pages s \<and> null \<notin> set ps \<and> inv s' \<and> pages s' = pages s - set ps"
proof (induction n arbitrary: s)
  case 0
  then show ?case by simp
next
  case (Suc n)
  have "pages s \<noteq> {}" using Suc.prems by auto
  then obtain p s1 where s1: "alloc s = Some (p, s1)" "p \<in> pages s" "inv s1" "pages s1 = pages s - {p}"
    using alloc_some [OF Suc.prems(1)] by blast
  have "n \<le> card (pages s1)" using Suc.prems s1 pages_finite by (simp add: card_Diff_singleton)
  then obtain ps s' where ps: "alloc_n n s1 = Some (ps, s')" "length ps = n" "distinct ps"
      "set ps \<subseteq> pages s1" "null \<notin> set ps" "inv s'" "pages s' = pages s1 - set ps"
    using Suc.IH [OF s1(3)] by blast
  have "p \<noteq> null" using pages_valid Suc.prems(1) s1(2) by blast
  then show ?case using s1 ps by auto
qed

end

lemma kmem_ok_list: "kmem_ok s \<Longrightarrow> (\<And>xs. kmem_list s xs \<Longrightarrow> avail s = set xs \<Longrightarrow> P) \<Longrightarrow> P"
  by (auto simp: kmem_ok_def dest: avail_list)

interpretation pa: page_allocator kalloc kfree "0 :: u64" avail kmem_ok "\<lambda>s. page_ok (kend s)"
proof
  fix s :: "'a kmem_state_scheme"
  assume ok: "kmem_ok s"
  then obtain xs where xs: "kmem_list s xs" "avail s = set xs" by (rule kmem_ok_list)
  have hw: "hart_ok (hw s)" "lock_free Lk_kmem (hw s)" using ok by (auto simp: kmem_ok_def)
  show "finite (avail s)" using xs(2) by simp
  { assume "avail s = {}" with xs show "kalloc s = Some (0, s)" using hw by (simp add: kalloc_list_Nil) }
  { assume "avail s \<noteq> {}"
    then obtain y ys where "xs = y # ys" using xs(2) by (cases xs) auto
    then have l: "kmem_list s (y # ys)" using xs(1) by simp
    note k = kalloc_list_Cons [OF hw l]
    let ?s' = "s\<lparr>ram := memset y 5 4096 (ram s), freelist := load (ram s) y\<rparr>"
    have "avail ?s' = set ys" using k(2) by (rule avail_list)
    then have av: "avail ?s' = avail s - {y}" using l avail_list [OF l] by (auto simp: kmem_list_def)
    have ok': "kmem_ok ?s'" using k(2) hw by (auto simp: kmem_ok_def)
    have "y \<in> avail s" using avail_list [OF l] by simp
    then show "\<exists>p s'. kalloc s = Some (p, s') \<and> p \<in> avail s \<and> kmem_ok s' \<and>
        avail s' = avail s - {p} \<and> page_ok (kend s') = page_ok (kend s)"
      using k(1) av ok' by (intro exI [of _ y] exI [of _ ?s'] conjI) simp_all }
  { fix p assume "p \<in> avail s"
    then show "page_ok (kend s) p \<and> p \<noteq> 0" using xs by (auto simp: kmem_list_def page_ok_def) }
  { fix p assume p: "page_ok (kend s) p" "p \<notin> avail s"
    have notin: "p \<notin> set xs" using p(2) xs(2) by simp
    note k = kfree_list [OF hw xs(1) p(1) notin]
    let ?s' = "s\<lparr>ram := store p (freelist s) (memset p 1 4096 (ram s)), freelist := p\<rparr>"
    have "avail ?s' = insert p (set xs)" using avail_list [OF k(2)] by simp
    moreover have "kmem_ok ?s'" using k(2) hw by (auto simp: kmem_ok_def)
    ultimately show "\<exists>s'. kfree p s = Some s' \<and> kmem_ok s' \<and> avail s' = insert p (avail s) \<and>
        page_ok (kend s') = page_ok (kend s)"
      using k(1) xs(2) by (intro exI [of _ ?s'] conjI) simp_all }
qed

text \<open>The memory that an allocator call can touch: the page it moves.\<close>

lemma kalloc_frame:
  assumes "kmem_ok s" "kalloc s = Some (p, s')"
  shows "kmem_state.more s' = kmem_state.more s" "kend s' = kend s" "hw s' = hw s"
    and "\<not> in_page a p \<Longrightarrow> ram s' a = ram s a" "p \<noteq> 0 \<Longrightarrow> in_page a p \<Longrightarrow> ram s' a = 5"
    and "p = 0 \<Longrightarrow> s' = s"
proof -
  obtain xs where xs: "kmem_list s xs" using assms(1) by (rule kmem_ok_list)
  have hw: "hart_ok (hw s)" "lock_free Lk_kmem (hw s)" using assms(1) by (auto simp: kmem_ok_def)
  show "kmem_state.more s' = kmem_state.more s" "kend s' = kend s" "hw s' = hw s"
    and "\<not> in_page a p \<Longrightarrow> ram s' a = ram s a" "p \<noteq> 0 \<Longrightarrow> in_page a p \<Longrightarrow> ram s' a = 5"
    and "p = 0 \<Longrightarrow> s' = s"
    using assms(2) hw xs kalloc_list_Nil [of s] kalloc_list_Cons [of s]
    by (cases xs; auto simp: memset_page kmem_list_def)+
qed

lemma kfree_frame:
  assumes "kmem_ok s" "page_ok (kend s) p" "p \<notin> avail s" "kfree p s = Some s'"
  shows "kmem_state.more s' = kmem_state.more s" "kend s' = kend s" "hw s' = hw s"
    and "\<not> in_page a p \<Longrightarrow> ram s' a = ram s a"
proof -
  obtain xs where xs: "kmem_list s xs" "avail s = set xs" using assms(1) by (rule kmem_ok_list)
  have hw: "hart_ok (hw s)" "lock_free Lk_kmem (hw s)" using assms(1) by (auto simp: kmem_ok_def)
  have notin: "p \<notin> set xs" using assms(3) xs(2) by simp
  show "kmem_state.more s' = kmem_state.more s" "kend s' = kend s" "hw s' = hw s"
    and "\<not> in_page a p \<Longrightarrow> ram s' a = ram s a"
    using assms(4) kfree_list [OF hw xs(1) assms(2) notin] by auto
qed

section \<open>Initialisation\<close>

definition page_seq :: "u64 \<Rightarrow> nat \<Rightarrow> u64 list" where
  "page_seq p n = map (\<lambda>k. p + of_nat k * PGSIZE) [0..<n]"

lemma page_seq_Suc: "page_seq p (Suc n) = p # page_seq (p + PGSIZE) n"
proof -
  have "[0..<Suc n] = 0 # map Suc [0..<n]" by (simp add: map_Suc_upt upt_conv_Cons)
  then show ?thesis by (simp add: page_seq_def algebra_simps)
qed

lemma page_seq_mem:
  "x \<in> set (page_seq p n) \<Longrightarrow> unat p + n * 4096 < 2 ^ 64 \<Longrightarrow>
    \<exists>k<n. unat x = unat p + k * 4096"
proof -
  assume "x \<in> set (page_seq p n)" and b: "unat p + n * 4096 < 2 ^ 64"
  then obtain k where k: "k < n" "x = p + of_nat k * PGSIZE" by (auto simp: page_seq_def)
  have kn: "k * 4096 \<le> n * 4096" using k(1) by simp
  then have "k < 2 ^ 64" "k * 4096 < 2 ^ 64" using b by linarith+
  then have "unat (of_nat k * PGSIZE) = k * 4096"
    by (simp add: PGSIZE_def unat_word_ariths unat_of_nat)
  then have "unat x = unat p + k * 4096" using k(2) b kn by (simp add: unat_plus_if')
  with k(1) show ?thesis by blast
qed

lemma unat_add_PGSIZE: "p < PHYSTOP \<Longrightarrow> unat (p + PGSIZE) = unat p + 4096"
  by (simp add: unat_plus_if' layout_defs word_less_nat_alt)

lemma page_aligned_add: "page_aligned p \<Longrightarrow> p < PHYSTOP \<Longrightarrow> page_aligned (p + PGSIZE)"
  by (simp add: page_aligned_unat unat_add_PGSIZE)

lemma freerange_loop_list:
  assumes "hart_ok (hw s)" "lock_free Lk_kmem (hw s)" "kmem_list s xs" "page_aligned p"
    "kend s \<le> p" "\<forall>x\<in>set xs. x < p" "unat p + n * 4096 = unat PHYSTOP"
  shows "\<exists>s'. freerange_loop p PHYSTOP s = Some s' \<and> kmem_list s' (rev (page_seq p n) @ xs) \<and>
     kmem_state.more s' = kmem_state.more s \<and> hw s' = hw s \<and> kend s' = kend s"
  using assms
proof (induction n arbitrary: p s xs)
  case 0
  then have "p = PHYSTOP" by (simp add: word_unat_eq_iff [of p])
  then have "freerange_loop p PHYSTOP s = Some s" by (simp add: freerange_loop.simps layout_defs)
  then show ?case using 0 by (simp add: page_seq_def)
next
  case (Suc n)
  have p: "p < PHYSTOP" using Suc.prems(7) by (simp add: word_less_nat_alt)
  note up = unat_add_PGSIZE [OF p]
  have pok: "page_ok (kend s) p" using Suc.prems p by (simp add: page_ok_def)
  have notin: "p \<notin> set xs" using Suc.prems(6) by auto
  note k = kfree_list [OF Suc.prems(1-3) pok notin]
  let ?s = "s\<lparr>ram := store p (freelist s) (memset p 1 4096 (ram s)), freelist := p\<rparr>"
  have lt: "p < p + PGSIZE" using up by (simp add: word_less_nat_alt)
  have "\<exists>s'. freerange_loop (p + PGSIZE) PHYSTOP ?s = Some s' \<and>
     kmem_list s' (rev (page_seq (p + PGSIZE) n) @ p # xs) \<and>
     kmem_state.more s' = kmem_state.more ?s \<and> hw s' = hw ?s \<and> kend s' = kend ?s"
  proof (rule Suc.IH [OF _ _ k(2)])
    show "\<forall>x\<in>set (p # xs). x < p + PGSIZE" using Suc.prems(6) lt by (auto intro: less_trans)
  qed (use Suc.prems p up lt page_aligned_add in \<open>auto intro: order_trans\<close>)
  moreover have "p + PGSIZE \<le> PHYSTOP" using Suc.prems(7) up by (simp add: word_le_nat_alt)
  then have "freerange_loop p PHYSTOP s = freerange_loop (p + PGSIZE) PHYSTOP ?s"
    using k(1) by (simp add: freerange_loop.simps [of p])
  ultimately show ?case by (auto simp: page_seq_Suc)
qed

lemma set_page_seq:
  assumes "page_aligned p" "unat p + n * 4096 = unat PHYSTOP"
  shows "set (page_seq p n) = {x. page_aligned x \<and> p \<le> x \<and> x < PHYSTOP}"
proof (intro set_eqI iffI CollectI)
  fix x assume "x \<in> set (page_seq p n)"
  then obtain k where k: "k < n" "unat x = unat p + k * 4096"
    using page_seq_mem [of x p n] assms(2) unat_bound [of PHYSTOP] by auto
  have "k * 4096 < n * 4096" using k(1) by simp
  then show "page_aligned x \<and> p \<le> x \<and> x < PHYSTOP"
    using k(2) assms by (auto simp: page_aligned_unat word_le_nat_alt word_less_nat_alt)
next
  fix x assume "x \<in> {x. page_aligned x \<and> p \<le> x \<and> x < PHYSTOP}"
  then obtain a b where ab: "unat x = 4096 * a" "unat p = 4096 * b" "b \<le> a" "4096 * a < unat PHYSTOP"
    using assms(1) by (auto simp: page_aligned_unat word_le_nat_alt word_less_nat_alt elim!: dvdE)
  then have "4096 * a < 4096 * (b + n)" using assms(2) by simp
  then have "a < b + n" by simp
  then have "a - b < n" using ab(3) by (simp add: less_diff_conv2)
  moreover have "x = p + of_nat (a - b) * PGSIZE"
  proof -
    have "unat x = unat p + 4096 * (a - b)" using ab by (simp add: right_diff_distrib')
    then have "x = of_nat (unat p + 4096 * (a - b))" by (metis of_nat_unat ucast_id)
    then show ?thesis by (simp add: PGSIZE_def mult.commute)
  qed
  ultimately show "x \<in> set (page_seq p n)" by (auto simp: page_seq_def)
qed

lemma PGROUNDUP_le_iff:
  assumes "page_aligned x" "e \<le> PHYSTOP"
  shows "PGROUNDUP e \<le> x \<longleftrightarrow> e \<le> x"
proof -
  obtain k where k: "unat x = 4096 * k" using assms(1) by (auto simp: page_aligned_unat elim!: dvdE)
  have e: "unat e + 4095 < 2 ^ 64" using assms(2) by (simp add: word_le_nat_alt layout_defs)
  have "(unat e + 4095) div 4096 \<le> k \<longleftrightarrow> unat e \<le> 4096 * k" by linarith
  then show ?thesis using k e by (simp add: word_le_nat_alt PGROUNDUP_unat)
qed

text \<open>After kinit the free list holds exactly the whole pages between the end of the kernel
  and PHYSTOP.\<close>

lemma kinit_spec:
  assumes "hart_ok (hw s)" "freelist s = 0" "0 < kend s" "kend s \<le> PHYSTOP"
  shows "\<exists>s'. kinit s = Some s' \<and> kmem_ok s' \<and> avail s' = {x. page_ok (kend s) x} \<and> kend s' = kend s"
proof -
  let ?s = "s\<lparr>hw := initlock Lk_kmem ''kmem'' (hw s)\<rparr>" and ?p = "PGROUNDUP (kend s)"
  have e: "unat (kend s) + 4095 < 2 ^ 64" using assms(4) by (simp add: word_le_nat_alt layout_defs)
  have P: "unat PHYSTOP = 4096 * 557056" by (simp add: layout_defs)
  define b where "b = (unat (kend s) + 4095) div 4096"
  have up: "unat ?p = 4096 * b" using e by (simp add: PGROUNDUP_unat b_def)
  have b: "b \<le> 557056" "unat (kend s) \<le> 4096 * b"
    using assms(4) P by (auto simp: b_def word_le_nat_alt)
  have hw: "hart_ok (hw ?s)" "lock_free Lk_kmem (hw ?s)"
    using assms(1) by simp_all
  have al: "page_aligned ?p" using up by (simp add: page_aligned_unat)
  have n: "unat ?p + (557056 - b) * 4096 = unat PHYSTOP" using up P b(1) by simp
  have "kmem_list ?s []" using assms(2,3) by (simp add: kmem_list_def)
  then obtain s' where s': "freerange_loop ?p PHYSTOP ?s = Some s'"
      "kmem_list s' (rev (page_seq ?p (557056 - b)) @ [])" "hw s' = hw ?s" "kend s' = kend ?s"
    using freerange_loop_list [OF hw, of "[]", OF _ al _ _ n] up b(2) by (auto simp: word_le_nat_alt)
  have "kinit s = Some s'" using s'(1) by (simp add: kinit_def freerange_def)
  moreover have "kmem_ok s'" using s'(2,3) hw by (auto simp: kmem_ok_def)
  moreover have "avail s' = {x. page_ok (kend s) x}"
    using avail_list [OF s'(2)] set_page_seq [OF al n] PGROUNDUP_le_iff assms(4)
    by (auto simp: page_ok_def)
  ultimately show ?thesis using s'(4) by auto
qed

section \<open>Properties\<close>

definition kmem0 :: kmem_state where
  "kmem0 = \<lparr>hw = hart0, ram = (\<lambda>_. 0), freelist = 0x8004d000, kend = 0x8004cb20\<rparr>"

lemma kmem0_list: "kmem_list kmem0 [0x8004d000]"
proof -
  have "(load (\<lambda>_. 0) 0x8004d000 :: u64) = 0" by (simp add: load_def le_word_def le_nat_def)
  then show ?thesis
    by (simp add: kmem_list_def kmem0_def page_ok_def page_aligned_def layout_defs)
qed

lemma kmem0_ok: "kmem_ok kmem0"
  using kmem0_list by (auto simp: kmem_ok_def) (simp_all add: kmem0_def)

lemma kmem0_avail: "avail kmem0 = {0x8004d000}"
  using avail_list [OF kmem0_list] by simp

text \<open>C35: after kinit the free pages are exactly the page-aligned pages from the end of the
  kernel image up to PHYSTOP, each once, and the allocator's invariant holds.\<close>

theorem kinit_frees_all_pages:
  assumes "hart_ok (hw s)" "freelist s = 0" "0 < kend s" "kend s \<le> PHYSTOP"
  shows "\<exists>s'. kinit s = Some s' \<and> kmem_ok s' \<and>
    avail s' = {x. page_aligned x \<and> kend s \<le> x \<and> x < PHYSTOP}"
  using kinit_spec [OF assms] by (auto simp: page_ok_def)

theorem kinit_frees_all_pages_witness:
  "\<exists>s'. kinit (kmem0\<lparr>freelist := 0\<rparr>) = Some s' \<and> kmem_ok s' \<and> 0x8004d000 \<in> avail s' \<and> 0x87fff000 \<in> avail s'"
proof -
  have "\<exists>s'. kinit (kmem0\<lparr>freelist := 0\<rparr>) = Some s' \<and> kmem_ok s' \<and>
    avail s' = {x. page_aligned x \<and> kend (kmem0\<lparr>freelist := 0\<rparr>) \<le> x \<and> x < PHYSTOP}"
    by (rule kinit_frees_all_pages) (simp_all add: kmem0_def layout_defs)
  then show ?thesis by (auto simp: page_aligned_def layout_defs kmem0_def)
qed

text \<open>C18: kalloc returns 0 exactly when no page is free and then changes nothing; otherwise it
  returns a free page, which is no longer free afterwards and is filled with the byte 5, and no
  byte of any other page changes. It always returns.\<close>

theorem kalloc_takes_a_free_page:
  assumes "kmem_ok s"
  shows "\<exists>p s'. kalloc s = Some (p, s') \<and> kmem_ok s' \<and>
    (if avail s = {} then p = 0 \<and> s' = s
     else p \<in> avail s \<and> avail s' = avail s - {p} \<and>
       ram s' = (\<lambda>a. if in_page a p then 5 else ram s a))"
proof -
  obtain p s' where r: "kalloc s = Some (p, s')" "kmem_ok s'" using pa.alloc_total [OF assms] by blast
  note f = kalloc_frame [OF assms r(1)]
  show ?thesis
  proof (cases "avail s = {}")
    case True
    then have "p = 0" using pa.alloc_null_iff [OF assms r(1)] by simp
    then show ?thesis using True r f(6) by auto
  next
    case False
    then have "p \<noteq> 0" using pa.alloc_null_iff [OF assms r(1)] by simp
    then have "ram s' = (\<lambda>a. if in_page a p then 5 else ram s a)" using f(4,5) by auto
    then show ?thesis using False r pa.alloc_page(1,3) [OF assms r(1) \<open>p \<noteq> 0\<close>] by auto
  qed
qed

theorem kalloc_takes_a_free_page_witness:
  "\<exists>s'. kalloc kmem0 = Some (0x8004d000, s') \<and> avail s' = {} \<and> ram s' 0x8004dfff = 5"
  using kalloc_takes_a_free_page [OF kmem0_ok] by (auto simp: kmem0_avail in_page_def)

text \<open>Calls of kalloc in a row.\<close>

primrec kalloc_n :: "nat \<Rightarrow> 'z kmem_state_scheme \<Rightarrow> (u64 list \<times> 'z kmem_state_scheme) option" where
  "kalloc_n 0 s = Some ([], s)"
| "kalloc_n (Suc n) s = Option.bind (kalloc s) (\<lambda>(p, s). map_option (\<lambda>(ps, s). (p # ps, s)) (kalloc_n n s))"

lemma kalloc_n_alloc_n: "kalloc_n n s = pa.alloc_n n s"
  by (induction n arbitrary: s) simp_all

text \<open>C37: as long as n pages are free, n calls of kalloc in a row give n different pages, all of
  them free before and none of them null, and exactly those stop being free.\<close>

theorem kalloc_n_distinct:
  assumes "kmem_ok s" "n \<le> card (avail s)"
  shows "\<exists>ps s'. kalloc_n n s = Some (ps, s') \<and> length ps = n \<and> distinct ps \<and> set ps \<subseteq> avail s \<and>
    0 \<notin> set ps \<and> kmem_ok s' \<and> avail s' = avail s - set ps"
  unfolding kalloc_n_alloc_n using assms by (rule pa.alloc_n_distinct)

theorem kalloc_n_distinct_witness: "\<exists>s'. kalloc_n 1 kmem0 = Some ([0x8004d000], s') \<and> avail s' = {}"
  using kalloc_n_distinct [OF kmem0_ok, of 1] by (auto simp: kmem0_avail length_Suc_conv)

text \<open>C36: kfree accepts every page of the managed range that is not free already and makes
  exactly that page free, touching no other page; it panics on an address that is not page
  aligned, below the end of the kernel or at or above PHYSTOP. Freeing the page kalloc just
  returned makes the same pages free as before.\<close>

theorem kfree_returns_a_page:
  assumes "kmem_ok s"
  shows "(page_ok (kend s) p \<longrightarrow> p \<notin> avail s \<longrightarrow>
      (\<exists>s'. kfree p s = Some s' \<and> kmem_ok s' \<and> avail s' = insert p (avail s) \<and>
        (\<forall>a. \<not> in_page a p \<longrightarrow> ram s' a = ram s a))) \<and>
    (\<not> page_ok (kend s) p \<longrightarrow> kfree p s = None) \<and>
    (\<forall>q s1. kalloc s = Some (q, s1) \<longrightarrow> q \<noteq> 0 \<longrightarrow>
      (\<exists>s2. kfree q s1 = Some s2 \<and> kmem_ok s2 \<and> avail s2 = avail s))"
proof (intro conjI impI allI)
  assume p: "page_ok (kend s) p" "p \<notin> avail s"
  then show "\<exists>s'. kfree p s = Some s' \<and> kmem_ok s' \<and> avail s' = insert p (avail s) \<and>
        (\<forall>a. \<not> in_page a p \<longrightarrow> ram s' a = ram s a)"
    using pa.free_page [OF assms p] kfree_frame(4) [OF assms p] by blast
next
  assume "\<not> page_ok (kend s) p"
  then show "kfree p s = None" by (auto simp: kfree_def page_ok_def page_aligned_def not_le not_less)
qed (rule pa.alloc_then_free [OF assms])

theorem kfree_returns_a_page_witness:
  "\<exists>s'. kfree 0x8004e000 kmem0 = Some s' \<and> avail s' = {0x8004d000, 0x8004e000}"
proof -
  have "page_ok (kend kmem0) 0x8004e000"
    by (simp add: page_ok_def page_aligned_def kmem0_def layout_defs)
  then show ?thesis using kfree_returns_a_page [OF kmem0_ok, of "0x8004e000"]
    by (auto simp: kmem0_avail)
qed

end
