(* ===== verification/Vm.thy ===== *)
theory Vm
  imports Kalloc
begin

unbundle bit_operations_syntax

text \<open>
  Page tables and user memory (kernel/vm.c, and proc_mapstacks, proc_pagetable and
  proc_freepagetable of proc.c).

  Page tables live in the byte memory of the machine, as in the code: a page-table page is a
  kalloc page, an entry is eight bytes of it, and walk follows the entries. Kernel pointers
  handed to copyout, copyin and copyinstr point into objects that the model keeps typed, so
  the kernel side of these functions is a list of bytes: what copyout reads, and what copyin
  and copyinstr have written to their destination when they return. The addresses of etext and
  of the trampoline come from the linker and are fields of the state; satp is the page-table
  register of each hart.
\<close>

record vm_state = kmem_state +
  kernel_pagetable :: u64
  etext :: u64
  trampoline :: u64
  satp :: "nat \<Rightarrow> u64"

definition UART0 :: u64 where "UART0 = 0x10000000"
definition VIRTIO0 :: u64 where "VIRTIO0 = 0x10001000"
definition PLIC :: u64 where "PLIC = 0x0c000000"
definition NPROC :: nat where "NPROC = 64"

definition MAKE_SATP :: "u64 \<Rightarrow> u64" where
  "MAKE_SATP pagetable = push_bit 60 8 OR drop_bit 12 pagetable"

text \<open>\<open>&pagetable[i]\<close>, with 8-byte entries.\<close>

definition slot :: "u64 \<Rightarrow> u64 \<Rightarrow> u64" where
  "slot pagetable i = pagetable + 8 * i"

section \<open>Walking and mapping\<close>

primrec walk_loop :: "nat \<Rightarrow> u64 \<Rightarrow> u64 \<Rightarrow> bool \<Rightarrow> 'z kmem_state_scheme \<Rightarrow> (u64 \<times> 'z kmem_state_scheme) option" where
  "walk_loop 0 pagetable va alloc s = Some (slot pagetable (PX 0 va), s)"
| "walk_loop (Suc level) pagetable va alloc s =
    (let pte = slot pagetable (PX (Suc level) va)
     in if load (ram s) pte AND PTE_V \<noteq> 0
        then walk_loop level (PTE2PA (load (ram s) pte)) va alloc s
        else if \<not> alloc then Some (0, s)
        else do {
          (pagetable, s) \<leftarrow> kalloc s;
          if pagetable = 0 then Some (0, s)
          else do {
            let s = s\<lparr>ram := memset pagetable 0 4096 (ram s)\<rparr>;
            let s = s\<lparr>ram := store pte (PA2PTE pagetable OR PTE_V) (ram s)\<rparr>;
            walk_loop level pagetable va alloc s } })"

definition walk :: "u64 \<Rightarrow> u64 \<Rightarrow> bool \<Rightarrow> 'z kmem_state_scheme \<Rightarrow> (u64 \<times> 'z kmem_state_scheme) option" where
  "walk pagetable va alloc s = (if va \<ge> MAXVA then None else walk_loop 2 pagetable va alloc s)"

definition walkaddr :: "u64 \<Rightarrow> u64 \<Rightarrow> 'z kmem_state_scheme \<Rightarrow> (u64 \<times> 'z kmem_state_scheme) option" where
  "walkaddr pagetable va s =
    (if va \<ge> MAXVA then Some (0, s)
     else do {
       (pte, s) \<leftarrow> walk pagetable va False s;
       Some (if pte = 0 then 0
             else if load (ram s) pte AND PTE_V = 0 then 0
             else if load (ram s) pte AND PTE_U = 0 then 0
             else PTE2PA (load (ram s) pte), s) })"

lemma walk_range: "walk pagetable va alloc s = Some r \<Longrightarrow> unat va < 2 ^ 38"
  by (simp add: walk_def layout_defs word_le_nat_alt push_bit_eq_mult split: if_splits)

lemma unat_next_page: "unat a < 2 ^ 39 \<Longrightarrow> unat (a + PGSIZE) = unat a + 4096"
  by (simp add: PGSIZE_def unat_plus_if')

text \<open>The loop of mappages ends at \<open>last\<close>, or in walk, which panics past MAXVA.\<close>

function mappages_loop :: "u64 \<Rightarrow> u64 \<Rightarrow> u64 \<Rightarrow> u64 \<Rightarrow> u64 \<Rightarrow> 'z kmem_state_scheme
    \<Rightarrow> (int \<times> 'z kmem_state_scheme) option" where
  "mappages_loop pagetable a lst pa perm s = do {
     (pte, s) \<leftarrow> walk pagetable a True s;
     if pte = 0 then Some (-1, s)
     else if load (ram s) pte AND PTE_V \<noteq> 0 then None
     else let s = s\<lparr>ram := store pte (PA2PTE pa OR perm OR PTE_V) (ram s)\<rparr>
          in if a = lst then Some (0, s)
             else mappages_loop pagetable (a + PGSIZE) lst (pa + PGSIZE) perm s }"
  by pat_completeness auto
termination
  by (relation "measure (\<lambda>(pagetable, a, lst, pa, perm, s). 2 ^ 38 - unat a)")
    (auto dest!: walk_range simp: unat_next_page)

declare mappages_loop.simps [simp del]

definition mappages :: "u64 \<Rightarrow> u64 \<Rightarrow> u64 \<Rightarrow> u64 \<Rightarrow> u64 \<Rightarrow> 'z kmem_state_scheme
    \<Rightarrow> (int \<times> 'z kmem_state_scheme) option" where
  "mappages pagetable va sz pa perm s =
    (if sz = 0 then None
     else mappages_loop pagetable (PGROUNDDOWN va) (PGROUNDDOWN (va + sz - 1)) pa perm s)"

definition kvmmap :: "u64 \<Rightarrow> u64 \<Rightarrow> u64 \<Rightarrow> u64 \<Rightarrow> u64 \<Rightarrow> 'z kmem_state_scheme \<Rightarrow> 'z kmem_state_scheme option" where
  "kvmmap kpgtbl va pa sz perm s = do {
     (r, s) \<leftarrow> mappages kpgtbl va sz pa perm s;
     if r \<noteq> 0 then None else Some s }"

definition proc_mapstacks :: "u64 \<Rightarrow> 'z kmem_state_scheme \<Rightarrow> 'z kmem_state_scheme option" where
  "proc_mapstacks kpgtbl s = for_n 0 NPROC (\<lambda>p s. do {
     (pa, s) \<leftarrow> kalloc s;
     if pa = 0 then None
     else kvmmap kpgtbl (KSTACK p) pa PGSIZE (PTE_R OR PTE_W) s }) s"

definition kvmmake :: "'z vm_state_scheme \<Rightarrow> (u64 \<times> 'z vm_state_scheme) option" where
  "kvmmake s = do {
     (kpgtbl, s) \<leftarrow> kalloc s;
     let s = s\<lparr>ram := memset kpgtbl 0 4096 (ram s)\<rparr>;
     s \<leftarrow> kvmmap kpgtbl UART0 UART0 PGSIZE (PTE_R OR PTE_W) s;
     s \<leftarrow> kvmmap kpgtbl VIRTIO0 VIRTIO0 PGSIZE (PTE_R OR PTE_W) s;
     s \<leftarrow> kvmmap kpgtbl PLIC PLIC 0x400000 (PTE_R OR PTE_W) s;
     s \<leftarrow> kvmmap kpgtbl KERNBASE KERNBASE (etext s - KERNBASE) (PTE_R OR PTE_X) s;
     s \<leftarrow> kvmmap kpgtbl (etext s) (etext s) (PHYSTOP - etext s) (PTE_R OR PTE_W) s;
     s \<leftarrow> kvmmap kpgtbl TRAMPOLINE (trampoline s) PGSIZE (PTE_R OR PTE_X) s;
     s \<leftarrow> proc_mapstacks kpgtbl s;
     Some (kpgtbl, s) }"

definition kvminit :: "'z vm_state_scheme \<Rightarrow> 'z vm_state_scheme option" where
  "kvminit s = do {
     (kpgtbl, s) \<leftarrow> kvmmake s;
     Some (s\<lparr>kernel_pagetable := kpgtbl\<rparr>) }"

definition kvminithart :: "'z vm_state_scheme \<Rightarrow> 'z vm_state_scheme" where
  "kvminithart s = s\<lparr>satp := (satp s)(tp (hw s) := MAKE_SATP (kernel_pagetable s))\<rparr>"

section \<open>User memory\<close>

function uvmunmap_loop :: "u64 \<Rightarrow> u64 \<Rightarrow> u64 \<Rightarrow> bool \<Rightarrow> 'z kmem_state_scheme \<Rightarrow> 'z kmem_state_scheme option" where
  "uvmunmap_loop pagetable a lst do_free s =
    (if a < lst then do {
       (pte, s) \<leftarrow> walk pagetable a False s;
       if pte = 0 then None
       else if load (ram s) pte AND PTE_V = 0 then None
       else if PTE_FLAGS (load (ram s) pte) = PTE_V then None
       else do {
         s \<leftarrow> (if do_free then kfree (PTE2PA (load (ram s) pte)) s else Some s);
         let s = s\<lparr>ram := store pte (0 :: u64) (ram s)\<rparr>;
         uvmunmap_loop pagetable (a + PGSIZE) lst do_free s } }
     else Some s)"
  by pat_completeness auto
termination
  by (relation "measure (\<lambda>(pagetable, a, lst, do_free, s). 2 ^ 38 - unat a)")
    (auto dest!: walk_range simp: unat_next_page)

declare uvmunmap_loop.simps [simp del]

definition uvmunmap :: "u64 \<Rightarrow> u64 \<Rightarrow> u64 \<Rightarrow> bool \<Rightarrow> 'z kmem_state_scheme \<Rightarrow> 'z kmem_state_scheme option" where
  "uvmunmap pagetable va npages do_free s =
    (if va mod PGSIZE \<noteq> 0 then None
     else uvmunmap_loop pagetable va (va + npages * PGSIZE) do_free s)"

definition uvmcreate :: "'z kmem_state_scheme \<Rightarrow> (u64 \<times> 'z kmem_state_scheme) option" where
  "uvmcreate s = do {
     (pagetable, s) \<leftarrow> kalloc s;
     if pagetable = 0 then Some (0, s)
     else Some (pagetable, s\<lparr>ram := memset pagetable 0 4096 (ram s)\<rparr>) }"

definition uvmfirst :: "u64 \<Rightarrow> u8 list \<Rightarrow> 'z kmem_state_scheme \<Rightarrow> 'z kmem_state_scheme option" where
  "uvmfirst pagetable src s =
    (if length src \<ge> 4096 then None
     else do {
       (p, s) \<leftarrow> kalloc s;
       let s = s\<lparr>ram := memset p 0 4096 (ram s)\<rparr>;
       (r, s) \<leftarrow> mappages pagetable 0 PGSIZE p (PTE_W OR PTE_R OR PTE_X OR PTE_U) s;
       Some (s\<lparr>ram := put_bytes p src (ram s)\<rparr>) })"

definition uvmdealloc :: "u64 \<Rightarrow> u64 \<Rightarrow> u64 \<Rightarrow> 'z kmem_state_scheme \<Rightarrow> (u64 \<times> 'z kmem_state_scheme) option" where
  "uvmdealloc pagetable oldsz newsz s =
    (if newsz \<ge> oldsz then Some (oldsz, s)
     else do {
       s \<leftarrow> (if PGROUNDUP newsz < PGROUNDUP oldsz
             then uvmunmap pagetable (PGROUNDUP newsz) ((PGROUNDUP oldsz - PGROUNDUP newsz) div PGSIZE) True s
             else Some s);
       Some (newsz, s) })"

lemma mappages_range: "mappages pagetable a sz pa perm s = Some r \<Longrightarrow> unat a < 2 ^ 38 + 4096"
proof -
  assume "mappages pagetable a sz pa perm s = Some r"
  then have "unat (PGROUNDDOWN a) < 2 ^ 38"
    by (auto simp: mappages_def mappages_loop.simps [of _ "PGROUNDDOWN a"] bind_Some_iff
        split: if_splits dest: walk_range)
  then show ?thesis unfolding PGROUNDDOWN_unat by linarith
qed

function uvmalloc_loop :: "u64 \<Rightarrow> u64 \<Rightarrow> u64 \<Rightarrow> u64 \<Rightarrow> u64 \<Rightarrow> 'z kmem_state_scheme
    \<Rightarrow> (u64 \<times> 'z kmem_state_scheme) option" where
  "uvmalloc_loop pagetable a oldsz newsz xperm s =
    (if a < newsz then do {
       (p, s) \<leftarrow> kalloc s;
       if p = 0 then do {
         (_, s) \<leftarrow> uvmdealloc pagetable a oldsz s;
         Some (0, s) }
       else do {
         let s = s\<lparr>ram := memset p 0 4096 (ram s)\<rparr>;
         (r, s) \<leftarrow> mappages pagetable a PGSIZE p (PTE_R OR PTE_U OR xperm) s;
         if r \<noteq> 0 then do {
           s \<leftarrow> kfree p s;
           (_, s) \<leftarrow> uvmdealloc pagetable a oldsz s;
           Some (0, s) }
         else uvmalloc_loop pagetable (a + PGSIZE) oldsz newsz xperm s } }
     else Some (newsz, s))"
  by pat_completeness auto
termination
  by (relation "measure (\<lambda>(pagetable, a, oldsz, newsz, xperm, s). 2 ^ 38 + 4096 - unat a)")
    (auto dest!: mappages_range simp: unat_next_page)

declare uvmalloc_loop.simps [simp del]

definition uvmalloc :: "u64 \<Rightarrow> u64 \<Rightarrow> u64 \<Rightarrow> u64 \<Rightarrow> 'z kmem_state_scheme \<Rightarrow> (u64 \<times> 'z kmem_state_scheme) option" where
  "uvmalloc pagetable oldsz newsz xperm s =
    (if newsz < oldsz then Some (oldsz, s)
     else uvmalloc_loop pagetable (PGROUNDUP oldsz) (PGROUNDUP oldsz) newsz xperm s)"

text \<open>Recursion of freewalk follows the entries in memory; on a cyclic table the code would not
  return either.\<close>

partial_function (option) freewalk :: "u64 \<Rightarrow> 'z kmem_state_scheme \<Rightarrow> 'z kmem_state_scheme option" where
  "freewalk pagetable s = do {
     s \<leftarrow> for_n 0 512 (\<lambda>i s.
       let pte = load (ram s) (slot pagetable (of_nat i))
       in if pte AND PTE_V \<noteq> 0 \<and> pte AND (PTE_R OR PTE_W OR PTE_X) = 0 then do {
            s \<leftarrow> freewalk (PTE2PA pte) s;
            Some (s\<lparr>ram := store (slot pagetable (of_nat i)) (0 :: u64) (ram s)\<rparr>) }
          else if pte AND PTE_V \<noteq> 0 then None
          else Some s) s;
     kfree pagetable s }"

definition uvmfree :: "u64 \<Rightarrow> u64 \<Rightarrow> 'z kmem_state_scheme \<Rightarrow> 'z kmem_state_scheme option" where
  "uvmfree pagetable sz s = do {
     s \<leftarrow> (if sz > 0 then uvmunmap pagetable 0 (PGROUNDUP sz div PGSIZE) True s else Some s);
     freewalk pagetable s }"

text \<open>The label err of uvmcopy: undo the pages mapped so far.\<close>

function uvmcopy_loop :: "u64 \<Rightarrow> u64 \<Rightarrow> u64 \<Rightarrow> u64 \<Rightarrow> 'z kmem_state_scheme
    \<Rightarrow> (int \<times> 'z kmem_state_scheme) option" where
  "uvmcopy_loop old new i sz s =
    (if i < sz then do {
       (pte, s) \<leftarrow> walk old i False s;
       if pte = 0 then None
       else if load (ram s) pte AND PTE_V = 0 then None
       else do {
         let pa = PTE2PA (load (ram s) pte);
         let flags = PTE_FLAGS (load (ram s) pte);
         (p, s) \<leftarrow> kalloc s;
         if p = 0 then do {
           s \<leftarrow> uvmunmap new 0 (i div PGSIZE) True s;
           Some (-1, s) }
         else do {
           let s = s\<lparr>ram := memmove p pa 4096 (ram s)\<rparr>;
           (r, s) \<leftarrow> mappages new i PGSIZE p flags s;
           if r \<noteq> 0 then do {
             s \<leftarrow> kfree p s;
             s \<leftarrow> uvmunmap new 0 (i div PGSIZE) True s;
             Some (-1, s) }
           else uvmcopy_loop old new (i + PGSIZE) sz s } } }
     else Some (0, s))"
  by pat_completeness auto
termination
  by (relation "measure (\<lambda>(old, new, i, sz, s). 2 ^ 38 - unat i)")
    (auto dest!: walk_range simp: unat_next_page)

declare uvmcopy_loop.simps [simp del]

definition uvmcopy :: "u64 \<Rightarrow> u64 \<Rightarrow> u64 \<Rightarrow> 'z kmem_state_scheme \<Rightarrow> (int \<times> 'z kmem_state_scheme) option" where
  "uvmcopy old new sz s = uvmcopy_loop old new 0 sz s"

definition uvmclear :: "u64 \<Rightarrow> u64 \<Rightarrow> 'z kmem_state_scheme \<Rightarrow> 'z kmem_state_scheme option" where
  "uvmclear pagetable va s = do {
     (pte, s) \<leftarrow> walk pagetable va False s;
     if pte = 0 then None
     else Some (s\<lparr>ram := store pte (load (ram s) pte AND NOT PTE_U) (ram s)\<rparr>) }"

section \<open>Copying between kernel and user\<close>

text \<open>\<open>n = PGSIZE - (va - va0)\<close>, at most \<open>len\<close>.\<close>

definition chunk :: "u64 \<Rightarrow> nat \<Rightarrow> nat" where
  "chunk va len = min (4096 - unat (va - PGROUNDDOWN va)) len"

lemma chunk_pos [simp]: "0 < len \<Longrightarrow> 0 < chunk va len"
proof -
  have "unat (va - PGROUNDDOWN va) < 4096"
    using PGROUNDDOWN_unat [of va] by (simp add: unat_sub_if')
  then show "0 < len \<Longrightarrow> 0 < chunk va len" by (simp add: chunk_def)
qed

function copyout :: "u64 \<Rightarrow> u64 \<Rightarrow> u8 list \<Rightarrow> 'z kmem_state_scheme \<Rightarrow> (int \<times> 'z kmem_state_scheme) option" where
  "copyout pagetable dstva src s =
    (if src = [] then Some (0, s)
     else do {
       let va0 = PGROUNDDOWN dstva;
       (pa0, s) \<leftarrow> walkaddr pagetable va0 s;
       if pa0 = 0 then Some (-1, s)
       else do {
         let n = chunk dstva (length src);
         let s = s\<lparr>ram := put_bytes (pa0 + (dstva - va0)) (take n src) (ram s)\<rparr>;
         copyout pagetable (va0 + PGSIZE) (drop n src) s } })"
  by pat_completeness auto
termination
  by (relation "measure (\<lambda>(pagetable, dstva, src, s). length src)") auto

declare copyout.simps [simp del]

function copyin :: "u64 \<Rightarrow> u64 \<Rightarrow> nat \<Rightarrow> 'z kmem_state_scheme \<Rightarrow> (int \<times> u8 list \<times> 'z kmem_state_scheme) option" where
  "copyin pagetable srcva len s =
    (if len = 0 then Some (0, [], s)
     else do {
       let va0 = PGROUNDDOWN srcva;
       (pa0, s) \<leftarrow> walkaddr pagetable va0 s;
       if pa0 = 0 then Some (-1, [], s)
       else do {
         let n = chunk srcva len;
         let bs = get_bytes (pa0 + (srcva - va0)) n (ram s);
         (r, bs', s) \<leftarrow> copyin pagetable (va0 + PGSIZE) (len - n) s;
         Some (r, bs @ bs', s) } })"
  by pat_completeness auto
termination
  by (relation "measure (\<lambda>(pagetable, srcva, len, s). len)") auto

declare copyin.simps [simp del]

text \<open>The inner loop of copyinstr: bytes up to and with a NUL, and whether there was one.\<close>

primrec copyinstr_bytes :: "nat \<Rightarrow> u64 \<Rightarrow> mem \<Rightarrow> u8 list \<times> bool" where
  "copyinstr_bytes 0 p m = ([], False)"
| "copyinstr_bytes (Suc n) p m =
    (if m p = 0 then ([0], True)
     else let (bs, got_null) = copyinstr_bytes n (p + 1) m in (m p # bs, got_null))"

function copyinstr :: "u64 \<Rightarrow> u64 \<Rightarrow> nat \<Rightarrow> 'z kmem_state_scheme \<Rightarrow> (int \<times> u8 list \<times> 'z kmem_state_scheme) option" where
  "copyinstr pagetable srcva mx s =
    (if mx = 0 then Some (-1, [], s)
     else do {
       let va0 = PGROUNDDOWN srcva;
       (pa0, s) \<leftarrow> walkaddr pagetable va0 s;
       if pa0 = 0 then Some (-1, [], s)
       else do {
         let n = chunk srcva mx;
         let (bs, got_null) = copyinstr_bytes n (pa0 + (srcva - va0)) (ram s);
         if got_null then Some (0, bs, s)
         else do {
           (r, bs', s) \<leftarrow> copyinstr pagetable (va0 + PGSIZE) (mx - n) s;
           Some (r, bs @ bs', s) } } })"
  by pat_completeness auto
termination
  by (relation "measure (\<lambda>(pagetable, srcva, mx, s). mx)") auto

declare copyinstr.simps [simp del]

section \<open>The page table of a process (proc.c)\<close>

text \<open>The argument is p->trapframe, the one field of the process that proc_pagetable reads.\<close>

definition proc_pagetable :: "u64 \<Rightarrow> 'z vm_state_scheme \<Rightarrow> (u64 \<times> 'z vm_state_scheme) option" where
  "proc_pagetable trapframe s = do {
     (pagetable, s) \<leftarrow> uvmcreate s;
     if pagetable = 0 then Some (0, s)
     else do {
       (r, s) \<leftarrow> mappages pagetable TRAMPOLINE PGSIZE (trampoline s) (PTE_R OR PTE_X) s;
       if r < 0 then do {
         s \<leftarrow> uvmfree pagetable 0 s;
         Some (0, s) }
       else do {
         (r, s) \<leftarrow> mappages pagetable TRAPFRAME PGSIZE trapframe (PTE_R OR PTE_W) s;
         if r < 0 then do {
           s \<leftarrow> uvmunmap pagetable TRAMPOLINE 1 False s;
           s \<leftarrow> uvmfree pagetable 0 s;
           Some (0, s) }
         else Some (pagetable, s) } } }"

definition proc_freepagetable :: "u64 \<Rightarrow> u64 \<Rightarrow> 'z kmem_state_scheme \<Rightarrow> 'z kmem_state_scheme option" where
  "proc_freepagetable pagetable sz s = do {
     s \<leftarrow> uvmunmap pagetable TRAMPOLINE 1 False s;
     s \<leftarrow> uvmunmap pagetable TRAPFRAME 1 False s;
     uvmfree pagetable sz s }"

section \<open>What the memory functions leave alone\<close>

text \<open>Everything in this theory changes only the memory and the free list: the rest of the
  kernel state is untouched, and the locks are as before.\<close>

definition mem_frame :: "'z kmem_state_scheme \<Rightarrow> 'z kmem_state_scheme \<Rightarrow> bool" where
  "mem_frame s s' \<longleftrightarrow> kmem_state.more s' = kmem_state.more s \<and> kend s' = kend s \<and>
     (hart_ok (hw s) \<longrightarrow> lock_free Lk_kmem (hw s) \<longrightarrow> hw s' = hw s)"

lemma mem_frame_refl [simp]: "mem_frame s s" "mem_frame s (s\<lparr>ram := m\<rparr>)"
  by (simp_all add: mem_frame_def)

lemma mem_frame_eq: "mem_frame s s' \<Longrightarrow> s' = s\<lparr>hw := hw s', ram := ram s', freelist := freelist s'\<rparr>"
  by (cases s; cases s') (simp add: mem_frame_def)

lemma mem_frame_hw: "mem_frame s s' \<Longrightarrow> hart_ok (hw s) \<Longrightarrow> lock_free Lk_kmem (hw s) \<Longrightarrow> hw s' = hw s"
  by (simp add: mem_frame_def)

lemma mem_frame_trans: "mem_frame s s' \<Longrightarrow> mem_frame s' s'' \<Longrightarrow> mem_frame s s''"
  by (auto simp: mem_frame_def)

lemma mem_frame_ram [simp]: "mem_frame s (s'\<lparr>ram := m\<rparr>) = mem_frame s s'" "mem_frame (s\<lparr>ram := m\<rparr>) s' = mem_frame s s'"
  by (simp_all add: mem_frame_def)

lemma kalloc_mem_frame: "kalloc s = Some (p, s') \<Longrightarrow> mem_frame s s'"
proof -
  assume k: "kalloc s = Some (p, s')"
  then have "kmem_state.more s' = kmem_state.more s \<and> kend s' = kend s"
    by (auto simp: kalloc_def lock_def unlock_def bind_Some_iff Let_def split: if_splits)
  moreover have "hw s' = hw s" if "hart_ok (hw s)" "lock_free Lk_kmem (hw s)"
    using k that by (auto simp: kalloc_def kstep Let_def split: if_splits)
  ultimately show ?thesis by (simp add: mem_frame_def)
qed

lemma kfree_mem_frame: "kfree p s = Some s' \<Longrightarrow> mem_frame s s'"
proof -
  assume k: "kfree p s = Some s'"
  then have "kmem_state.more s' = kmem_state.more s \<and> kend s' = kend s"
    by (auto simp: kfree_def lock_def unlock_def bind_Some_iff Let_def split: if_splits)
  moreover have "hw s' = hw s" if "hart_ok (hw s)" "lock_free Lk_kmem (hw s)"
    using k that by (auto simp: kfree_def kstep Let_def split: if_splits)
  ultimately show ?thesis by (simp add: mem_frame_def)
qed

lemmas mem_frames = kalloc_mem_frame kfree_mem_frame

lemma walk_loop_mem_frame: "walk_loop l pt va al s = Some (r, s') \<Longrightarrow> mem_frame s s'"
proof (induction l arbitrary: pt s al)
  case 0
  then show ?case by simp
next
  case (Suc l)
  from Suc.prems show ?case
    by (auto simp: Let_def bind_Some_iff split: if_splits dest!: Suc.IH kalloc_mem_frame
        intro: mem_frame_trans)
qed

lemma walk_mem_frame: "walk pt va al s = Some (r, s') \<Longrightarrow> mem_frame s s'"
  by (auto simp: walk_def split: if_splits dest: walk_loop_mem_frame)

text \<open>Without allocation a walk only reads memory.\<close>

primrec walk_ram :: "nat \<Rightarrow> u64 \<Rightarrow> u64 \<Rightarrow> mem \<Rightarrow> u64" where
  "walk_ram 0 pt va m = slot pt (PX 0 va)"
| "walk_ram (Suc l) pt va m =
    (let e = load m (slot pt (PX (Suc l) va))
     in if e AND PTE_V \<noteq> 0 then walk_ram l (PTE2PA e) va m else 0)"

definition user_pa :: "u64 \<Rightarrow> u64 \<Rightarrow> mem \<Rightarrow> u64" where
  "user_pa pt va m =
    (if va \<ge> MAXVA then 0
     else let pte = walk_ram 2 pt va m
       in if pte = 0 \<or> load m pte AND PTE_V = 0 \<or> load m pte AND PTE_U = 0 then 0
          else PTE2PA (load m pte))"

lemma walk_loop_ram: "walk_loop l pt va False s = Some (walk_ram l pt va (ram s), s)"
  by (induction l arbitrary: pt) (simp_all add: Let_def)

lemma walk_noalloc_eq:
  "walk pt va False s = (if va \<ge> MAXVA then None else Some (walk_ram 2 pt va (ram s), s))"
  by (simp add: walk_def walk_loop_ram)

lemma walk_noalloc: "walk pt va False s = Some (r, s') \<Longrightarrow> s' = s"
  by (auto simp: walk_noalloc_eq split: if_splits)

lemma walkaddr_eq [simp]: "walkaddr pt va s = Some (user_pa pt va (ram s), s)"
  by (simp add: walkaddr_def walk_noalloc_eq user_pa_def Let_def)

lemma mappages_loop_mem_frame: "mappages_loop pt a lst pa perm s = Some (r, s') \<Longrightarrow> mem_frame s s'"
proof (induction pt a lst pa perm s rule: mappages_loop.induct)
  case (1 pt a lst pa perm s)
  from 1(2) obtain pte s1 where w: "walk pt a True s = Some (pte, s1)"
    by (subst (asm) mappages_loop.simps) (auto simp: bind_Some_iff)
  note f = walk_mem_frame [OF w]
  from 1(2) w show ?case
    by (subst (asm) mappages_loop.simps)
      (auto simp: Let_def split: if_splits dest!: 1(1) [OF w refl, simplified] intro: f mem_frame_trans [OF f])
qed

lemma mappages_mem_frame: "mappages pt va sz pa perm s = Some (r, s') \<Longrightarrow> mem_frame s s'"
  by (auto simp: mappages_def split: if_splits dest: mappages_loop_mem_frame)

lemma uvmunmap_loop_mem_frame: "uvmunmap_loop pt a lst df s = Some s' \<Longrightarrow> mem_frame s s'"
proof (induction pt a lst df s rule: uvmunmap_loop.induct)
  case (1 pt a lst df s)
  show ?case
  proof (cases "a < lst")
    case False
    with 1(2) show ?thesis by (subst (asm) uvmunmap_loop.simps) simp
  next
    case True
    with 1(2) obtain pte s1 s2 where w: "walk pt a False s = Some (pte, s1)"
      and g: "\<not> pte = 0" "\<not> load (ram s1) pte AND PTE_V = 0" "\<not> PTE_FLAGS (load (ram s1) pte) = PTE_V"
      and k: "(if df then kfree (PTE2PA (load (ram s1) pte)) s1 else Some s1) = Some s2"
      and r: "uvmunmap_loop pt (a + PGSIZE) lst df (s2\<lparr>ram := store pte (0 :: u64) (ram s2)\<rparr>) = Some s'"
      by (subst (asm) uvmunmap_loop.simps) (auto simp: bind_Some_iff split: if_splits)
    have "s1 = s" using w by (rule walk_noalloc)
    moreover have "mem_frame s1 s2" using k by (auto split: if_splits dest: kfree_mem_frame)
    moreover have "mem_frame s2 s'" using 1(1) [OF True w refl g k refl r] by simp
    ultimately show ?thesis by (auto intro: mem_frame_trans)
  qed
qed

lemma uvmunmap_mem_frame: "uvmunmap pt va n df s = Some s' \<Longrightarrow> mem_frame s s'"
  by (auto simp: uvmunmap_def split: if_splits dest: uvmunmap_loop_mem_frame)

lemma uvmcreate_mem_frame: "uvmcreate s = Some (r, s') \<Longrightarrow> mem_frame s s'"
  by (auto simp: uvmcreate_def bind_Some_iff split: if_splits dest: kalloc_mem_frame)

lemma uvmdealloc_mem_frame: "uvmdealloc pt o1 n1 s = Some (r, s') \<Longrightarrow> mem_frame s s'"
  by (auto simp: uvmdealloc_def bind_Some_iff split: if_splits dest: uvmunmap_mem_frame)

lemma uvmalloc_loop_mem_frame: "uvmalloc_loop pt a oldsz newsz xp s = Some (r, s') \<Longrightarrow> mem_frame s s'"
proof (induction pt a oldsz newsz xp s rule: uvmalloc_loop.induct)
  case (1 pt a oldsz newsz xp s)
  show ?case
  proof (cases "a < newsz")
    case False
    with 1(2) show ?thesis by (subst (asm) uvmalloc_loop.simps) simp
  next
    case True
    with 1(2) obtain p s1 where k: "kalloc s = Some (p, s1)"
      by (subst (asm) uvmalloc_loop.simps) (auto simp: bind_Some_iff)
    note f = kalloc_mem_frame [OF k]
    have IH: "mem_frame s2 s'" if "p \<noteq> 0"
        "mappages pt a PGSIZE p (PTE_R OR PTE_U OR xp) (s1\<lparr>ram := memset p 0 4096 (ram s1)\<rparr>) = Some (0, s2)"
        "uvmalloc_loop pt (a + PGSIZE) oldsz newsz xp s2 = Some (r, s')" for s2
      using 1(1) [OF True k refl that(1) refl that(2) refl _ that(3)] by simp
    let ?m = "mappages pt a PGSIZE p (PTE_R OR PTE_U OR xp) (s1\<lparr>ram := memset p 0 4096 (ram s1)\<rparr>)"
    from 1(2) True k consider
        x where "uvmdealloc pt a oldsz s1 = Some (x, s')"
      | e s2 s3 x where "?m = Some (e, s2)" "kfree p s2 = Some s3" "uvmdealloc pt a oldsz s3 = Some (x, s')"
      | s2 where "p \<noteq> 0" "?m = Some (0, s2)" "uvmalloc_loop pt (a + PGSIZE) oldsz newsz xp s2 = Some (r, s')"
      by (subst (asm) uvmalloc_loop.simps) (auto simp: bind_Some_iff split: if_splits)
    then show ?thesis
    proof cases
      case 1
      then show ?thesis using f uvmdealloc_mem_frame mem_frame_trans by blast
    next
      case 2
      then have "mem_frame s1 s2" "mem_frame s2 s3" "mem_frame s3 s'"
        by (auto dest: mappages_mem_frame kfree_mem_frame uvmdealloc_mem_frame)
      then show ?thesis using f mem_frame_trans by blast
    next
      case 3
      have "mem_frame s1 s2" using mappages_mem_frame [OF 3(2)] by simp
      then show ?thesis using f IH [OF 3] mem_frame_trans by blast
    qed
  qed
qed

lemma uvmalloc_mem_frame: "uvmalloc pt o1 n1 xp s = Some (r, s') \<Longrightarrow> mem_frame s s'"
  by (auto simp: uvmalloc_def split: if_splits dest: uvmalloc_loop_mem_frame)

lemma for_n_mem_frame:
  assumes "\<And>i s s'. f i s = Some s' \<Longrightarrow> mem_frame s s'" "for_n i n f s = Some s'"
  shows "mem_frame s s'"
  by (rule for_n_inv [where I = "\<lambda>_ t. mem_frame s t", OF _ assms(2)])
    (use assms(1) mem_frame_trans in blast, simp)

lemma freewalk_mem_frame: "freewalk pt s = Some s' \<Longrightarrow> mem_frame s s'"
proof (rule freewalk.raw_induct [where P = "\<lambda>pt s s'. mem_frame s s'"], goal_cases)
  case (1 f pt s s')
  then obtain s1 where loop: "for_n 0 512 (\<lambda>i s.
       let pte = load (ram s) (slot pt (of_nat i))
       in if pte AND PTE_V \<noteq> 0 \<and> pte AND (PTE_R OR PTE_W OR PTE_X) = 0 then do {
            s \<leftarrow> f (PTE2PA pte) s;
            Some (s\<lparr>ram := store (slot pt (of_nat i)) (0 :: u64) (ram s)\<rparr>) }
          else if pte AND PTE_V \<noteq> 0 then None
          else Some s) s = Some s1" and k: "kfree pt s1 = Some s'"
    by (auto simp: bind_Some_iff)
  have "mem_frame s s1"
    by (rule for_n_mem_frame [OF _ loop])
      (auto simp: Let_def bind_Some_iff split: if_splits dest: 1(2))
  then show ?case using kfree_mem_frame [OF k] mem_frame_trans by blast
qed

lemma uvmfree_mem_frame: "uvmfree pt sz s = Some s' \<Longrightarrow> mem_frame s s'"
  by (auto simp: uvmfree_def bind_Some_iff split: if_splits dest!: uvmunmap_mem_frame freewalk_mem_frame
      intro: mem_frame_trans)

lemma uvmcopy_loop_mem_frame: "uvmcopy_loop old new i sz s = Some (r, s') \<Longrightarrow> mem_frame s s'"
proof (induction old new i sz s rule: uvmcopy_loop.induct)
  case (1 old new i sz s)
  show ?case
  proof (cases "i < sz")
    case False
    with 1(2) show ?thesis by (subst (asm) uvmcopy_loop.simps) simp
  next
    case True
    with 1(2) obtain pte s0 where w: "walk old i False s = Some (pte, s0)"
      by (subst (asm) uvmcopy_loop.simps) (auto simp: bind_Some_iff)
    have [simp]: "s0 = s" using w by (rule walk_noalloc)
    from 1(2) True w obtain p s1 where k: "kalloc s = Some (p, s1)"
      by (subst (asm) uvmcopy_loop.simps) (auto simp: bind_Some_iff split: if_splits)
    note f = kalloc_mem_frame [OF k]
    let ?e = "load (ram s) pte"
    have IH: "mem_frame s2 s'" if "pte \<noteq> 0" "?e AND PTE_V \<noteq> 0" "p \<noteq> 0"
        "mappages new i PGSIZE p (PTE_FLAGS ?e) (s1\<lparr>ram := memmove p (PTE2PA ?e) 4096 (ram s1)\<rparr>) = Some (0, s2)"
        "uvmcopy_loop old new (i + PGSIZE) sz s2 = Some (r, s')" for s2
      using 1(1) [OF True w refl that(1) _ refl refl _ refl that(3) refl _ refl _ that(5)] that(2,4) k by simp
    let ?m = "mappages new i PGSIZE p (PTE_FLAGS ?e) (s1\<lparr>ram := memmove p (PTE2PA ?e) 4096 (ram s1)\<rparr>)"
    from 1(2) True w k consider
        "uvmunmap new 0 (i div PGSIZE) True s1 = Some s'"
      | e s2 s3 where "?m = Some (e, s2)" "kfree p s2 = Some s3" "uvmunmap new 0 (i div PGSIZE) True s3 = Some s'"
      | s2 where "pte \<noteq> 0" "?e AND PTE_V \<noteq> 0" "p \<noteq> 0" "?m = Some (0, s2)"
          "uvmcopy_loop old new (i + PGSIZE) sz s2 = Some (r, s')"
      by (subst (asm) uvmcopy_loop.simps) (auto simp: bind_Some_iff split: if_splits)
    then show ?thesis
    proof cases
      case 1
      then show ?thesis using f uvmunmap_mem_frame mem_frame_trans by blast
    next
      case 2
      then have "mem_frame s1 s2" "mem_frame s2 s3" "mem_frame s3 s'"
        by (auto dest: mappages_mem_frame kfree_mem_frame uvmunmap_mem_frame)
      then show ?thesis using f mem_frame_trans by blast
    next
      case 3
      have "mem_frame s1 s2" using mappages_mem_frame [OF 3(4)] by simp
      then show ?thesis using f IH [OF 3] mem_frame_trans by blast
    qed
  qed
qed

lemma uvmcopy_mem_frame: "uvmcopy old new sz s = Some (r, s') \<Longrightarrow> mem_frame s s'"
  by (simp add: uvmcopy_def uvmcopy_loop_mem_frame)

lemma copyout_mem_frame: "\<exists>r s'. copyout pt va src s = Some (r, s') \<and> mem_frame s s'"
proof (induction pt va src s rule: copyout.induct)
  case (1 pt va src s)
  show ?case
  proof (cases "src = [] \<or> user_pa pt (PGROUNDDOWN va) (ram s) = 0")
    case True
    then show ?thesis by (subst copyout.simps) (auto simp: Let_def)
  next
    case False
    then have "src \<noteq> []" "user_pa pt (PGROUNDDOWN va) (ram s) \<noteq> 0" by auto
    from 1 [OF this(1) refl walkaddr_eq refl this(2) refl refl] this show ?thesis
      by (subst copyout.simps) (simp add: Let_def)
  qed
qed

lemma copyin_state: "\<exists>r bs. copyin pt va len s = Some (r, bs, s)"
proof (induction pt va len s rule: copyin.induct)
  case (1 pt va len s)
  show ?case
  proof (cases "len = 0 \<or> user_pa pt (PGROUNDDOWN va) (ram s) = 0")
    case True
    then show ?thesis by (subst copyin.simps) (auto simp: Let_def)
  next
    case False
    then have "len \<noteq> 0" "user_pa pt (PGROUNDDOWN va) (ram s) \<noteq> 0" by auto
    from 1 [OF this(1) refl walkaddr_eq refl this(2) refl refl] this show ?thesis
      by (subst copyin.simps) (auto simp: Let_def)
  qed
qed

lemma copyinstr_state: "\<exists>r bs. copyinstr pt va mx s = Some (r, bs, s)"
proof (induction pt va mx s rule: copyinstr.induct)
  case (1 pt va mx s)
  show ?case
  proof (cases "mx = 0 \<or> user_pa pt (PGROUNDDOWN va) (ram s) = 0")
    case True
    then show ?thesis by (subst copyinstr.simps) (auto simp: Let_def)
  next
    case False
    then have nz: "mx \<noteq> 0" "user_pa pt (PGROUNDDOWN va) (ram s) \<noteq> 0" by auto
    obtain bs g where b: "copyinstr_bytes (chunk va mx)
        (user_pa pt (PGROUNDDOWN va) (ram s) + (va - PGROUNDDOWN va)) (ram s) = (bs, g)" by fastforce
    from 1 [OF nz(1) refl walkaddr_eq refl nz(2) refl b [symmetric] refl] nz b show ?thesis
      by (subst copyinstr.simps) (cases g; auto simp: Let_def)
  qed
qed

lemma proc_pagetable_mem_frame: "proc_pagetable tf s = Some (r, s') \<Longrightarrow> mem_frame s s'"
  by (auto simp: proc_pagetable_def bind_Some_iff split: if_splits
      dest!: uvmcreate_mem_frame mappages_mem_frame uvmfree_mem_frame uvmunmap_mem_frame
      intro: mem_frame_trans; meson mem_frame_trans)

lemma proc_freepagetable_mem_frame: "proc_freepagetable pt sz s = Some s' \<Longrightarrow> mem_frame s s'"
  by (auto simp: proc_freepagetable_def bind_Some_iff dest!: uvmfree_mem_frame uvmunmap_mem_frame)
    (meson mem_frame_trans)

end
