(* ===== verification/Printf.thy ===== *)
theory Printf
  imports Vm
begin

text \<open>
  Formatted console output (kernel/printf.c), the polled path to the UART it uses
  (uartputc_sync of uart.c) and consputc of console.c.

  The device is seen through the bytes written to its transmit register THR, in order. The
  busy wait for the transmitter is over when the device says so; it always does, so the wait
  leaves no trace in the state. \<open>panicked\<close> freezes every later output call, which then does
  not return. A variable argument list is a list of typed values: a conversion that meets a
  value of another type, or none, has no meaning in C and no result here.
\<close>

record con_state = vm_state +
  panicked :: bool
  pr_locking :: bool
  thr :: "u8 list"

datatype va_arg = VInt int | VPtr u64 | VStr "string option"

definition uartputc_sync :: "int \<Rightarrow> 'z con_state_scheme \<Rightarrow> 'z con_state_scheme option" where
  "uartputc_sync c s = do {
     let s = s\<lparr>hw := push_off (hw s)\<rparr>;
     if panicked s then None
     else do {
       let s = s\<lparr>thr := thr s @ [word_of_int c]\<rparr>;
       h \<leftarrow> pop_off (hw s);
       Some (s\<lparr>hw := h\<rparr>) } }"

definition BACKSPACE :: int where "BACKSPACE = 0x100"

definition consputc :: "int \<Rightarrow> 'z con_state_scheme \<Rightarrow> 'z con_state_scheme option" where
  "consputc c s =
    (if c = BACKSPACE then do {
       s \<leftarrow> uartputc_sync 8 s;
       s \<leftarrow> uartputc_sync 32 s;
       uartputc_sync 8 s }
     else uartputc_sync c s)"

primrec consputs :: "string \<Rightarrow> 'z con_state_scheme \<Rightarrow> 'z con_state_scheme option" where
  "consputs [] s = Some s"
| "consputs (c # cs) s = Option.bind (consputc (chr_int c) s) (consputs cs)"

definition digits :: string where "digits = ''0123456789abcdef''"

text \<open>The do loop of printint: the characters put into buf, lowest digit first. \<open>x\<close> is a
  uint, which the loop only divides; the callers' bases are 10 and 16, and a base below 2 would
  keep the loop from ending.\<close>

function printint_loop :: "nat \<Rightarrow> nat \<Rightarrow> string" where
  "printint_loop x base = digits ! (x mod base) #
     (if base < 2 \<or> x div base = 0 then [] else printint_loop (x div base) base)"
  by pat_completeness auto
termination
proof (relation "measure fst")
  fix x base :: nat
  assume "\<not> (base < 2 \<or> x div base = 0)"
  then have "1 < base" "0 < x" by (auto intro: ccontr)
  then show "((x div base, base), x, base) \<in> measure fst" by simp
qed simp

declare printint_loop.simps [simp del]

text \<open>The contents of buf when printint starts to print it backwards.\<close>

definition printint_buf :: "int \<Rightarrow> nat \<Rightarrow> bool \<Rightarrow> string" where
  "printint_buf xx base sign =
    (let neg = (sign \<and> xx < 0);
         x = (if neg then word_of_int (- xx) else word_of_int xx :: u32)
     in printint_loop (unat x) base @ (if neg then ''-'' else []))"

definition printint :: "int \<Rightarrow> nat \<Rightarrow> bool \<Rightarrow> 'z con_state_scheme \<Rightarrow> 'z con_state_scheme option" where
  "printint xx base sign s = consputs (rev (printint_buf xx base sign)) s"

definition printptr :: "u64 \<Rightarrow> 'z con_state_scheme \<Rightarrow> 'z con_state_scheme option" where
  "printptr x s = do {
     s \<leftarrow> consputc (chr_int CHR ''0'') s;
     s \<leftarrow> consputc (chr_int CHR ''x'') s;
     for_n 0 16 (\<lambda>i. consputc (chr_int (digits ! unat (drop_bit 60 (push_bit (4 * i) x))))) s }"

fun printf_loop :: "string \<Rightarrow> va_arg list \<Rightarrow> 'z con_state_scheme \<Rightarrow> 'z con_state_scheme option" where
  "printf_loop [] ap s = Some s"
| "printf_loop (c # fmt) ap s =
    (if c \<noteq> CHR ''%'' then do { s \<leftarrow> consputc (chr_int c) s; printf_loop fmt ap s }
     else case fmt of
       [] \<Rightarrow> Some s
     | c # fmt \<Rightarrow>
         if c = CHR ''d'' then (case ap of
             VInt n # ap \<Rightarrow> do { s \<leftarrow> printint n 10 True s; printf_loop fmt ap s }
           | _ \<Rightarrow> None)
         else if c = CHR ''x'' then (case ap of
             VInt n # ap \<Rightarrow> do { s \<leftarrow> printint n 16 True s; printf_loop fmt ap s }
           | _ \<Rightarrow> None)
         else if c = CHR ''p'' then (case ap of
             VPtr x # ap \<Rightarrow> do { s \<leftarrow> printptr x s; printf_loop fmt ap s }
           | _ \<Rightarrow> None)
         else if c = CHR ''s'' then (case ap of
             VStr p # ap \<Rightarrow> do {
               s \<leftarrow> consputs (case p of None \<Rightarrow> ''(null)'' | Some str \<Rightarrow> str) s;
               printf_loop fmt ap s }
           | _ \<Rightarrow> None)
         else if c = CHR ''%'' then do { s \<leftarrow> consputc (chr_int CHR ''%'') s; printf_loop fmt ap s }
         else do {
           s \<leftarrow> consputc (chr_int CHR ''%'') s;
           s \<leftarrow> consputc (chr_int c) s;
           printf_loop fmt ap s })"

definition printf :: "string \<Rightarrow> va_arg list \<Rightarrow> 'z con_state_scheme \<Rightarrow> 'z con_state_scheme option" where
  "printf fmt ap s = do {
     let locking = pr_locking s;
     s \<leftarrow> (if locking then lock Lk_pr s else Some s);
     s \<leftarrow> printf_loop fmt ap s;
     if locking then unlock Lk_pr s else Some s }"

definition printfinit :: "'z con_state_scheme \<Rightarrow> 'z con_state_scheme" where
  "printfinit s = s\<lparr>hw := initlock Lk_pr ''pr'' (hw s), pr_locking := True\<rparr>"

section \<open>What is printed\<close>

definition put :: "string \<Rightarrow> 'z con_state_scheme \<Rightarrow> 'z con_state_scheme" where
  "put cs s = s\<lparr>thr := thr s @ bytes_of cs\<rparr>"

lemma put_simps [simp]:
  "put [] s = s" "put cs (put ds s) = put (ds @ cs) s" "hw (put cs s) = hw s"
  "panicked (put cs s) = panicked s" "pr_locking (put cs s) = pr_locking s"
  "(put cs s)\<lparr>hw := h\<rparr> = put cs (s\<lparr>hw := h\<rparr>)"
  by (simp_all add: put_def bytes_of_def)

lemma consputc_ok [kstep]:
  assumes "hart_ok (hw s)" "\<not> panicked s"
  shows "consputc (chr_int c) s = Some (put [c] s)"
  using assms chr_int_less [of c]
  by (simp add: consputc_def uartputc_sync_def put_def bytes_of_def pop_push_off BACKSPACE_def)

lemma consputs_ok [kstep]:
  "hart_ok (hw s) \<Longrightarrow> \<not> panicked s \<Longrightarrow> consputs cs s = Some (put cs s)"
  by (induction cs arbitrary: s) (simp_all add: kstep)

text \<open>The reference: the text a format stands for.\<close>

definition show_ptr :: "u64 \<Rightarrow> string" where
  "show_ptr x = ''0x'' @ map (\<lambda>i. digits ! unat (drop_bit 60 (push_bit (4 * i) x))) [0..<16]"

fun render :: "string \<Rightarrow> va_arg list \<Rightarrow> string option" where
  "render [] ap = Some []"
| "render [c] ap = Some (if c = CHR ''%'' then [] else [c])"
| "render (c # d # fmt) ap =
    (if c \<noteq> CHR ''%'' then map_option ((#) c) (render (d # fmt) ap)
     else if d = CHR ''d'' then (case ap of
         VInt n # ap \<Rightarrow> map_option ((@) (rev (printint_buf n 10 True))) (render fmt ap) | _ \<Rightarrow> None)
     else if d = CHR ''x'' then (case ap of
         VInt n # ap \<Rightarrow> map_option ((@) (rev (printint_buf n 16 True))) (render fmt ap) | _ \<Rightarrow> None)
     else if d = CHR ''p'' then (case ap of
         VPtr x # ap \<Rightarrow> map_option ((@) (show_ptr x)) (render fmt ap) | _ \<Rightarrow> None)
     else if d = CHR ''s'' then (case ap of
         VStr p # ap \<Rightarrow> map_option ((@) (case p of None \<Rightarrow> ''(null)'' | Some cs \<Rightarrow> cs)) (render fmt ap)
       | _ \<Rightarrow> None)
     else map_option ((@) (if d = CHR ''%'' then ''%'' else [CHR ''%'', d])) (render fmt ap))"

lemma printptr_ok [kstep]:
  assumes "hart_ok (hw s)" "\<not> panicked s"
  shows "printptr x s = Some (put (show_ptr x) s)"
proof -
  let ?d = "\<lambda>i. digits ! unat (drop_bit 60 (push_bit (4 * i) x))"
  have "for_n i n (\<lambda>i. consputc (chr_int (?d i))) s = Some (put (map ?d [i..<i + n]) s)"
    if "hart_ok (hw s)" "\<not> panicked s" for i n and s :: "'a con_state_scheme"
    using that by (induction n arbitrary: i s) (simp_all add: kstep upt_step del: upt_Suc)
  from this [of _ 0 16] show ?thesis using assms by (simp add: printptr_def kstep show_ptr_def)
qed

lemma printint_ok [kstep]:
  "hart_ok (hw s) \<Longrightarrow> \<not> panicked s \<Longrightarrow> printint n b sg s = Some (put (rev (printint_buf n b sg)) s)"
  by (simp add: printint_def kstep)

lemma printf_loop_ok:
  assumes "hart_ok (hw s)" "\<not> panicked s"
  shows "printf_loop fmt ap s = map_option (\<lambda>cs. put cs s) (render fmt ap)"
  using assms
proof (induction fmt ap arbitrary: s rule: render.induct)
  case (3 c d fmt ap)
  then show ?case
    by (auto simp: kstep option.map_comp comp_def split: list.split va_arg.split)
qed (simp_all add: kstep)

text \<open>Reading a number back: digits lowest first, and a signed text.\<close>

definition digit_val :: "char \<Rightarrow> nat" where
  "digit_val c = length (takeWhile ((\<noteq>) c) digits)"

definition digits_val :: "nat \<Rightarrow> string \<Rightarrow> nat" where
  "digits_val base cs = foldr (\<lambda>c v. digit_val c + base * v) cs 0"

definition parse_int :: "nat \<Rightarrow> string \<Rightarrow> int" where
  "parse_int base cs = (case cs of
     [] \<Rightarrow> 0
   | c # ds \<Rightarrow> if c = CHR ''-'' then - int (digits_val base (rev ds)) else int (digits_val base (rev cs)))"

lemma digits_nth:
  assumes "i < 16"
  shows "digit_val (digits ! i) = i" "digits ! i \<noteq> CHR ''-''"
proof -
  have "\<forall>i\<in>set [0..<16]. digit_val (digits ! i) = i \<and> digits ! i \<noteq> CHR ''-''"
    unfolding digit_val_def digits_def by code_simp
  then show "digit_val (digits ! i) = i" "digits ! i \<noteq> CHR ''-''" using assms by auto
qed

lemma printint_loop_val:
  assumes "2 \<le> base" "base \<le> 16"
  shows "digits_val base (printint_loop x base) = x"
proof (induction x rule: less_induct)
  case (less x)
  have d: "digit_val (digits ! (x mod base)) = x mod base"
    using assms by (intro digits_nth(1)) (auto intro: less_le_trans [OF mod_less_divisor])
  show ?case
  proof (cases "x div base = 0")
    case True
    then show ?thesis using assms d by (simp add: printint_loop.simps digits_val_def div_eq_0_iff)
  next
    case False
    then have "x div base < x" using assms by (auto intro!: div_less_dividend intro: ccontr)
    then show ?thesis using less False assms d
      by (simp add: printint_loop.simps [of x] digits_val_def)
  qed
qed

lemma printint_loop_length:
  "2 \<le> base \<Longrightarrow> x < base ^ Suc k \<Longrightarrow> length (printint_loop x base) \<le> Suc k"
proof (induction k arbitrary: x)
  case 0
  then show ?case by (simp add: printint_loop.simps div_eq_0_iff)
next
  case (Suc k)
  have "x div base < base ^ Suc k" using Suc.prems by (simp add: div_less_iff_less_mult mult.commute)
  then show ?case using Suc by (auto simp: printint_loop.simps [of x])
qed

lemma printint_loop_chars: 
  assumes "2 \<le> base" "base \<le> 16"
  shows "CHR ''-'' \<notin> set (printint_loop x base) \<and> printint_loop x base \<noteq> []"
proof (induction x rule: less_induct)
  case (less x)
  have d: "digits ! (x mod base) \<noteq> CHR ''-''"
    using assms by (intro digits_nth(2)) (auto intro: less_le_trans [OF mod_less_divisor])
  have "x div base \<noteq> 0 \<Longrightarrow> x div base < x"
    using assms by (auto intro!: div_less_dividend intro: ccontr)
  then show ?case using less d by (auto simp: printint_loop.simps [of x])
qed

lemma parse_int_rev:
  "cs \<noteq> [] \<Longrightarrow> CHR ''-'' \<notin> set cs \<Longrightarrow> parse_int base (rev cs) = int (digits_val base cs)"
  by (cases cs rule: rev_cases) (auto simp: parse_int_def)

lemma unat_word_of_int: "0 \<le> k \<Longrightarrow> k < 2 ^ LENGTH('a) \<Longrightarrow> unat (word_of_int k :: 'a::len word) = nat k"
  by (simp only: unat_eq_nat_uint unsigned_of_int take_bit_int_eq_self)

lemma printint_buf_parse:
  assumes "2 \<le> base" "base \<le> 16" "- (2 ^ 31) \<le> n" "n < 2 ^ 31"
  shows "parse_int base (rev (printint_buf n base True)) = n"
proof (cases "n < 0")
  case True
  have "unat (word_of_int (- n) :: u32) = nat (- n)"
    by (rule unat_word_of_int) (use True assms(3) in auto)
  then show ?thesis using True assms(1,2)
    by (simp add: printint_buf_def parse_int_def printint_loop_val)
next
  case False
  have "unat (word_of_int n :: u32) = nat n"
    by (rule unat_word_of_int) (use False assms(4) in auto)
  then show ?thesis using False assms(1,2) printint_loop_chars [of base]
    by (simp add: printint_buf_def parse_int_rev printint_loop_val)
qed

lemma printf_ok:
  assumes "hart_ok (hw s)" "lock_free Lk_pr (hw s)" "\<not> panicked s" "render fmt ap = Some cs"
  shows "printf fmt ap s = Some (s\<lparr>thr := thr s @ bytes_of cs\<rparr>)"
proof (cases "pr_locking s")
  case True
  have "printf_loop fmt ap (s\<lparr>hw := acq Lk_pr (hw s)\<rparr>) = Some (put cs (s\<lparr>hw := acq Lk_pr (hw s)\<rparr>))"
    using assms by (simp add: printf_loop_ok)
  then show ?thesis using True assms(1,2)
    by (simp add: printf_def kstep put_def)
next
  case False
  then show ?thesis using assms by (simp add: printf_def printf_loop_ok put_def)
qed

section \<open>Properties\<close>

text \<open>C40: printf sends to the UART exactly the text its format and arguments stand for, in
  order and nothing else, and has no other effect on the state; it returns whenever the
  arguments fit the format.\<close>

theorem printf_prints_format:
  assumes "hart_ok (hw s)" "lock_free Lk_pr (hw s)" "\<not> panicked s" "render fmt ap = Some cs"
  shows "printf fmt ap s = Some (s\<lparr>thr := thr s @ bytes_of cs\<rparr>)"
  using assms by (rule printf_ok)

definition con0 :: con_state where
  "con0 = \<lparr>hw = hart0, ram = (\<lambda>_. 0), freelist = 0, kend = 0x8004cb20, kernel_pagetable = 0,
     etext = 0x80008000, trampoline = 0x80007000, satp = (\<lambda>_. 0), panicked = False,
     pr_locking = True, thr = []\<rparr>"

theorem printf_prints_format_witness:
  "printf ''n=%d %s%%'' [VInt (-42), VStr None] con0 = Some (con0\<lparr>thr := bytes_of ''n=-42 (null)%''\<rparr>)"
proof -
  have "render ''n=%d %s%%'' [VInt (-42), VStr None] = Some ''n=-42 (null)%''" by code_simp
  then show ?thesis using printf_prints_format [of con0] by (simp add: con0_def)
qed



end
