(* ===== verification/Proc.thy ===== *)
theory Proc
  imports Printf
begin

unbundle bit_operations_syntax

text \<open>
  The process table and the operations on it (kernel/proc.c, proc.h).

  proc[NPROC] is a function from the slot number to a \<open>proc\<close> record, a \<open>struct proc *\<close> a
  slot number (or None for the null pointer), a \<open>struct file *\<close> and a \<open>struct inode *\<close> the
  number of the table entry. A trapframe is the page that holds it: its registers are read and
  written in the byte memory at the offsets of struct trapframe.

  swtch() is assembly. What happens between a process giving up its hart in sched() and the
  scheduler coming back to it is the parameter \<open>sw\<close> of sched and of everything that can
  sleep: a function on states, \<open>None\<close> if the process is never run again.
\<close>

section \<open>The trapframe\<close>

datatype tfreg =
    TF_kernel_satp | TF_kernel_sp | TF_kernel_trap | TF_epc | TF_kernel_hartid | TF_ra | TF_sp
  | TF_gp | TF_tp | TF_t0 | TF_t1 | TF_t2 | TF_s0 | TF_s1 | TF_a0 | TF_a1 | TF_a2 | TF_a3
  | TF_a4 | TF_a5 | TF_a6 | TF_a7 | TF_s2 | TF_s3 | TF_s4 | TF_s5 | TF_s6 | TF_s7 | TF_s8
  | TF_s9 | TF_s10 | TF_s11 | TF_t3 | TF_t4 | TF_t5 | TF_t6

definition tf_regs :: "tfreg list" where
  "tf_regs = [TF_kernel_satp, TF_kernel_sp, TF_kernel_trap, TF_epc, TF_kernel_hartid, TF_ra,
     TF_sp, TF_gp, TF_tp, TF_t0, TF_t1, TF_t2, TF_s0, TF_s1, TF_a0, TF_a1, TF_a2, TF_a3,
     TF_a4, TF_a5, TF_a6, TF_a7, TF_s2, TF_s3, TF_s4, TF_s5, TF_s6, TF_s7, TF_s8,
     TF_s9, TF_s10, TF_s11, TF_t3, TF_t4, TF_t5, TF_t6]"

text \<open>Offset of a register: eight bytes each, in the order of the struct.\<close>

definition tf_off :: "tfreg \<Rightarrow> nat" where
  "tf_off r = 8 * length (takeWhile ((\<noteq>) r) tf_regs)"

definition tf_size :: u32 where "tf_size = 288"

definition tf_get :: "u64 \<Rightarrow> tfreg \<Rightarrow> 'z kmem_state_scheme \<Rightarrow> u64" where
  "tf_get tf r s = load (ram s) (tf + of_nat (tf_off r))"

definition tf_set :: "u64 \<Rightarrow> tfreg \<Rightarrow> u64 \<Rightarrow> 'z kmem_state_scheme \<Rightarrow> 'z kmem_state_scheme" where
  "tf_set tf r v s = s\<lparr>ram := store (tf + of_nat (tf_off r)) v (ram s)\<rparr>"

section \<open>The process table\<close>

datatype procstate = UNUSED | USED | SLEEPING | RUNNABLE | RUNNING | ZOMBIE

text \<open>Wait channels: the kernel objects whose address some code sleeps on.\<close>

datatype chan =
    Ch_proc nat | Ch_ticks | Ch_sl_buf nat | Ch_sl_inode nat | Ch_log | Ch_pipe_nread u64
  | Ch_pipe_nwrite u64 | Ch_cons_r | Ch_uart_tx_r | Ch_vdisk_free | Ch_vdisk_buf nat

text \<open>The registers swtch.S saves: return address, stack pointer, s0 to s11.\<close>

record kcontext =
  c_ra :: u64
  c_sp :: u64
  c_s :: "u64 list"

record proc =
  p_state :: procstate
  p_chan :: "chan option"
  p_killed :: int
  p_xstate :: int
  p_pid :: int
  p_parent :: "nat option"
  p_kstack :: u64
  p_sz :: u64
  p_pagetable :: u64
  p_trapframe :: u64
  p_context :: kcontext
  p_ofile :: "nat option list"
  p_cwd :: "nat option"
  p_name :: "u8 list"
  p_rtime :: u32
  p_ctime :: u32
  p_etime :: u32
  p_syscall_count :: "nat \<Rightarrow> u32"
  p_s1 :: int
  p_tickets :: int
  p_arrival_t :: u64
  p_ticks :: int
  p_s_tcks :: int
  p_handler :: u64
  p_hlp :: int
  p_alarm_tf :: u64
  p_alarm_act :: int
  p_pqtct :: int
  p_queue :: int
  p_wwpqtct :: int
  p_qnumber :: int

record log_entry =
  le_pid :: int
  le_time :: int
  le_ticktime :: u32
  le_queue :: int

text \<open>The globals of proc.c. \<open>forkret_pc\<close> is the address of forkret, set by the linker.\<close>

record proc_state = con_state +
  procs :: "nat \<Rightarrow> proc"
  initproc :: "nat option"
  nextpid :: int
  ticks :: u32
  npnq :: "nat \<Rightarrow> int"
  roqd :: "nat \<Rightarrow> int"
  logs :: "nat \<Rightarrow> log_entry"
  log_index :: nat
  random_ct :: int
  glob_j :: int
  forkret_pc :: u64

definition NOFILE :: nat where "NOFILE = 16"
definition MAX_LOG_ENTRIES :: nat where "MAX_LOG_ENTRIES = 10071"
definition NUMBER_OF_SYSCALLS :: nat where "NUMBER_OF_SYSCALLS = 32"

definition upd_proc :: "nat \<Rightarrow> (proc \<Rightarrow> proc) \<Rightarrow> 'z proc_state_scheme \<Rightarrow> 'z proc_state_scheme" where
  "upd_proc i f s = s\<lparr>procs := (procs s)(i := f (procs s i))\<rparr>"

text \<open>myproc(), for the callers that use the result as a process; they fault on null.\<close>

definition myp :: "'z proc_state_scheme \<Rightarrow> (nat \<times> 'z proc_state_scheme) option" where
  "myp s = do {
     (p, s) \<leftarrow> curproc s;
     p \<leftarrow> p;
     Some (p, s) }"

section \<open>Helpers at the top of proc.c\<close>

definition log_process_queue :: "nat \<Rightarrow> 'z proc_state_scheme \<Rightarrow> 'z proc_state_scheme" where
  "log_process_queue p s =
    (if log_index s < MAX_LOG_ENTRIES
     then s\<lparr>logs := (logs s)(log_index s := \<lparr>le_pid = p_pid (procs s p) - 2, le_time = random_ct s,
              le_ticktime = ticks s, le_queue = p_queue (procs s p)\<rparr>),
            log_index := log_index s + 1\<rparr>
     else s)"

partial_function (option) ctz_loop :: "u64 \<Rightarrow> int \<Rightarrow> int option" where
  "ctz_loop v count = (if v AND 1 = 0 then ctz_loop (drop_bit 1 v) (count + 1) else Some count)"

definition count_trailing_zeros :: "u64 \<Rightarrow> int option" where
  "count_trailing_zeros v = (if v = 0 then Some 64 else ctz_loop v 0)"

text \<open>The 64-bit result becomes an int when it is returned. A remainder by zero, which C leaves
  undefined, is the dividend, as for the RISC-V instruction the compiler emits.\<close>

definition rg :: "int \<Rightarrow> int \<Rightarrow> 'z proc_state_scheme \<Rightarrow> int" where
  "rg l r s =
    (let lbs_tr = (ucast (ticks s) :: u64) + 0;
         lbs_tr = lbs_tr XOR push_bit 13 lbs_tr;
         lbs_tr = lbs_tr XOR drop_bit 17 lbs_tr;
         lbs_tr = lbs_tr XOR push_bit 5 lbs_tr;
         lbs_tr = lbs_tr mod word_of_int (r - l);
         lbs_tr = lbs_tr + word_of_int l
     in sint (ucast lbs_tr :: u32))"

section \<open>Allocation\<close>

definition procinit :: "'z proc_state_scheme \<Rightarrow> 'z proc_state_scheme" where
  "procinit s =
    (let s = s\<lparr>hw := initlock Lk_pid ''nextpid'' (hw s)\<rparr>;
         s = s\<lparr>hw := initlock Lk_wait ''wait_lock'' (hw s)\<rparr>
     in fold (\<lambda>p s. upd_proc p (\<lambda>x. x\<lparr>p_state := UNUSED, p_kstack := KSTACK p\<rparr>)
               (s\<lparr>hw := initlock (Lk_proc p) ''proc'' (hw s)\<rparr>)) [0..<NPROC] s)"

definition allocpid :: "'z proc_state_scheme \<Rightarrow> (int \<times> 'z proc_state_scheme) option" where
  "allocpid s = do {
     s \<leftarrow> lock Lk_pid s;
     let pid = nextpid s;
     let s = s\<lparr>nextpid := nextpid s + 1\<rparr>;
     s \<leftarrow> unlock Lk_pid s;
     Some (pid, s) }"

definition freeproc :: "nat \<Rightarrow> 'z proc_state_scheme \<Rightarrow> 'z proc_state_scheme option" where
  "freeproc p s = do {
     s \<leftarrow> (if p_trapframe (procs s p) \<noteq> 0 then kfree (p_trapframe (procs s p)) s else Some s);
     let s = upd_proc p (\<lambda>x. x\<lparr>p_trapframe := 0\<rparr>) s;
     s \<leftarrow> (if p_pagetable (procs s p) \<noteq> 0
           then proc_freepagetable (p_pagetable (procs s p)) (p_sz (procs s p)) s else Some s);
     Some (upd_proc p (\<lambda>x. x\<lparr>p_pagetable := 0, p_sz := 0, p_pid := 0, p_parent := None,
       p_name := (p_name x)[0 := 0], p_chan := None, p_killed := 0, p_xstate := 0,
       p_state := UNUSED\<rparr>) s) }"

text \<open>The last part of allocproc: the new process's context, counters and queue.\<close>

definition allocproc_init :: "nat \<Rightarrow> 'z proc_state_scheme \<Rightarrow> 'z proc_state_scheme" where
  "allocproc_init p s =
    (let s = upd_proc p (\<lambda>x. x\<lparr>
           p_context := \<lparr>c_ra = forkret_pc s, c_sp = p_kstack x + PGSIZE, c_s = replicate 12 0\<rparr>,
           p_syscall_count := (\<lambda>_. 0), p_rtime := 0, p_etime := 0, p_ctime := ticks s,
           p_tickets := 1, p_arrival_t := ucast (ticks s), p_s_tcks := 0, p_hlp := 1,
           p_pqtct := 0, p_queue := 1, p_wwpqtct := 0, p_qnumber := npnq s 0\<rparr>) s;
         s = s\<lparr>npnq := (npnq s)(0 := npnq s 0 + 1)\<rparr>
     in s\<lparr>roqd := (roqd s)(0 := roqd s 0 + 1)\<rparr>)"

definition allocproc :: "'z proc_state_scheme \<Rightarrow> (nat option \<times> 'z proc_state_scheme) option" where
  "allocproc s = do {
     (found, s) \<leftarrow> search_n 0 NPROC (\<lambda>p s. do {
       s \<leftarrow> lock (Lk_proc p) s;
       if p_state (procs s p) = UNUSED then Some (Some p, s)
       else do { s \<leftarrow> unlock (Lk_proc p) s; Some (None, s) } }) s;
     case found of
       None \<Rightarrow> Some (None, s)
     | Some p \<Rightarrow> do {
         (pid, s) \<leftarrow> allocpid s;
         let s = upd_proc p (\<lambda>x. x\<lparr>p_pid := pid, p_state := USED\<rparr>) s;
         (tf, s) \<leftarrow> kalloc s;
         let s = upd_proc p (\<lambda>x. x\<lparr>p_trapframe := tf\<rparr>) s;
         if tf = 0 then do {
           s \<leftarrow> freeproc p s;
           s \<leftarrow> unlock (Lk_proc p) s;
           Some (None, s) }
         else do {
           (pt, s) \<leftarrow> proc_pagetable (p_trapframe (procs s p)) s;
           let s = upd_proc p (\<lambda>x. x\<lparr>p_pagetable := pt\<rparr>) s;
           if pt = 0 then do {
             s \<leftarrow> freeproc p s;
             s \<leftarrow> unlock (Lk_proc p) s;
             Some (None, s) }
           else Some (Some p, allocproc_init p s) } } }"

definition growproc :: "int \<Rightarrow> 'z proc_state_scheme \<Rightarrow> (int \<times> 'z proc_state_scheme) option" where
  "growproc n s = do {
     (p, s) \<leftarrow> myp s;
     let sz = p_sz (procs s p);
     if n > 0 then do {
       (sz, s) \<leftarrow> uvmalloc (p_pagetable (procs s p)) sz (sz + word_of_int n) PTE_W s;
       if sz = 0 then Some (-1, s)
       else Some (0, upd_proc p (\<lambda>x. x\<lparr>p_sz := sz\<rparr>) s) }
     else do {
       (sz, s) \<leftarrow> (if n < 0 then uvmdealloc (p_pagetable (procs s p)) sz (sz + word_of_int n) s
                  else Some (sz, s));
       Some (0, upd_proc p (\<lambda>x. x\<lparr>p_sz := sz\<rparr>) s) } }"

section \<open>Giving up the hart, sleeping, waking\<close>

definition sched :: "('z proc_state_scheme \<Rightarrow> 'z proc_state_scheme option) \<Rightarrow> 'z proc_state_scheme
    \<Rightarrow> 'z proc_state_scheme option" where
  "sched sw s = do {
     (p, s) \<leftarrow> myp s;
     if \<not> holding (Lk_proc p) (hw s) then None
     else if noff (mycpu (hw s)) \<noteq> 1 then None
     else if p_state (procs s p) = RUNNING then None
     else if intr_get (hw s) then None
     else do {
       let ie = intena (mycpu (hw s));
       s \<leftarrow> sw s;
       Some (s\<lparr>hw := upd_cpu (\<lambda>c. c\<lparr>intena := ie\<rparr>) (hw s)\<rparr>) } }"

definition yield :: "('z proc_state_scheme \<Rightarrow> 'z proc_state_scheme option) \<Rightarrow> 'z proc_state_scheme
    \<Rightarrow> 'z proc_state_scheme option" where
  "yield sw s = do {
     (p, s) \<leftarrow> myp s;
     s \<leftarrow> lock (Lk_proc p) s;
     let s = upd_proc p (\<lambda>x. x\<lparr>p_state := RUNNABLE\<rparr>) s;
     s \<leftarrow> sched sw s;
     unlock (Lk_proc p) s }"

definition sleep :: "('z proc_state_scheme \<Rightarrow> 'z proc_state_scheme option) \<Rightarrow> chan \<Rightarrow> lockid
    \<Rightarrow> 'z proc_state_scheme \<Rightarrow> 'z proc_state_scheme option" where
  "sleep sw chan lk s = do {
     (p, s) \<leftarrow> myp s;
     s \<leftarrow> lock (Lk_proc p) s;
     s \<leftarrow> unlock lk s;
     let s = upd_proc p (\<lambda>x. x\<lparr>p_chan := Some chan, p_state := SLEEPING\<rparr>) s;
     s \<leftarrow> sched sw s;
     let s = upd_proc p (\<lambda>x. x\<lparr>p_chan := None\<rparr>) s;
     s \<leftarrow> unlock (Lk_proc p) s;
     lock lk s }"

definition wakeup :: "chan option \<Rightarrow> 'z proc_state_scheme \<Rightarrow> 'z proc_state_scheme option" where
  "wakeup chan s = for_n 0 NPROC (\<lambda>p s. do {
     (me, s) \<leftarrow> curproc s;
     if Some p \<noteq> me then do {
       s \<leftarrow> lock (Lk_proc p) s;
       let s = (if p_state (procs s p) = SLEEPING \<and> p_chan (procs s p) = chan
                then upd_proc p (\<lambda>x. x\<lparr>p_state := RUNNABLE\<rparr>) s else s);
       unlock (Lk_proc p) s }
     else Some s }) s"

definition kill :: "int \<Rightarrow> 'z proc_state_scheme \<Rightarrow> (int \<times> 'z proc_state_scheme) option" where
  "kill pid s = do {
     (found, s) \<leftarrow> search_n 0 NPROC (\<lambda>p s. do {
       s \<leftarrow> lock (Lk_proc p) s;
       if p_pid (procs s p) = pid then do {
         let s = upd_proc p (\<lambda>x. x\<lparr>p_killed := 1\<rparr>) s;
         let s = (if p_state (procs s p) = SLEEPING
                  then upd_proc p (\<lambda>x. x\<lparr>p_state := RUNNABLE\<rparr>) s else s);
         s \<leftarrow> unlock (Lk_proc p) s;
         Some (Some 0, s) }
       else do {
         s \<leftarrow> unlock (Lk_proc p) s;
         Some (None, s) } }) s;
     Some (case found of Some r \<Rightarrow> r | None \<Rightarrow> -1, s) }"

definition setkilled :: "nat \<Rightarrow> 'z proc_state_scheme \<Rightarrow> 'z proc_state_scheme option" where
  "setkilled p s = do {
     s \<leftarrow> lock (Lk_proc p) s;
     let s = upd_proc p (\<lambda>x. x\<lparr>p_killed := 1\<rparr>) s;
     unlock (Lk_proc p) s }"

definition killed :: "nat \<Rightarrow> 'z proc_state_scheme \<Rightarrow> (int \<times> 'z proc_state_scheme) option" where
  "killed p s = do {
     s \<leftarrow> lock (Lk_proc p) s;
     let k = p_killed (procs s p);
     s \<leftarrow> unlock (Lk_proc p) s;
     Some (k, s) }"

definition reparent :: "nat \<Rightarrow> 'z proc_state_scheme \<Rightarrow> 'z proc_state_scheme option" where
  "reparent p s = for_n 0 NPROC (\<lambda>pp s.
     if p_parent (procs s pp) = Some p then do {
       let s = upd_proc pp (\<lambda>x. x\<lparr>p_parent := initproc s\<rparr>) s;
       wakeup (map_option Ch_proc (initproc s)) s }
     else Some s) s"

definition update_time :: "'z proc_state_scheme \<Rightarrow> 'z proc_state_scheme option" where
  "update_time s = for_n 0 NPROC (\<lambda>p s. do {
     s \<leftarrow> lock (Lk_proc p) s;
     let s = (if p_state (procs s p) = RUNNING
              then upd_proc p (\<lambda>x. x\<lparr>p_rtime := p_rtime x + 1\<rparr>) s else s);
     unlock (Lk_proc p) s }) s"

section \<open>Waiting for children\<close>

text \<open>An int in memory.\<close>

definition int_bytes :: "int \<Rightarrow> u8 list" where
  "int_bytes n = map (byte_of (word_of_int n :: u32)) [0..<4]"

text \<open>The body of the inner loop, for one entry of the table: \<open>Some r\<close> when wait returns \<open>r\<close> from
  here, with the locks released; otherwise the loop goes on. \<open>rec\<close> is what waitx stores through
  its pointers for the child it found; wait stores nothing.\<close>

definition wait_visit :: "(proc \<Rightarrow> 'o \<Rightarrow> 'o) \<Rightarrow> nat \<Rightarrow> u64 \<Rightarrow> nat \<Rightarrow> 'o \<times> bool \<times> 'z proc_state_scheme
    \<Rightarrow> (int option \<times> 'o \<times> bool \<times> 'z proc_state_scheme) option" where
  "wait_visit rec p addr pp = (\<lambda>(ot, havekids, s).
     if p_parent (procs s pp) = Some p then do {
       s \<leftarrow> lock (Lk_proc pp) s;
       if p_state (procs s pp) = ZOMBIE then do {
         let pid = p_pid (procs s pp);
         let ot = rec (procs s pp) ot;
         (r, s) \<leftarrow> (if addr \<noteq> 0
            then copyout (p_pagetable (procs s p)) addr (int_bytes (p_xstate (procs s pp))) s
            else Some (0, s));
         if r < 0 then do {
           s \<leftarrow> unlock (Lk_proc pp) s;
           s \<leftarrow> unlock Lk_wait s;
           Some (Some (-1), ot, True, s) }
         else do {
           s \<leftarrow> freeproc pp s;
           s \<leftarrow> unlock (Lk_proc pp) s;
           s \<leftarrow> unlock Lk_wait s;
           Some (Some pid, ot, True, s) } }
       else do {
         s \<leftarrow> unlock (Lk_proc pp) s;
         Some (None, ot, True, s) } }
     else Some (None, ot, havekids, s))"

definition wait_scan :: "(proc \<Rightarrow> 'o \<Rightarrow> 'o) \<Rightarrow> nat \<Rightarrow> u64 \<Rightarrow> 'o \<times> bool \<times> 'z proc_state_scheme
    \<Rightarrow> (int option \<times> 'o \<times> bool \<times> 'z proc_state_scheme) option" where
  "wait_scan rec p addr st = search_n 0 NPROC (wait_visit rec p addr) st"

partial_function (option) wait_loop :: "('z proc_state_scheme \<Rightarrow> 'z proc_state_scheme option) \<Rightarrow> nat
    \<Rightarrow> u64 \<Rightarrow> 'z proc_state_scheme \<Rightarrow> (int \<times> 'z proc_state_scheme) option" where
  "wait_loop sw p addr s = do {
     (r, ot, havekids, s) \<leftarrow> wait_scan (\<lambda>_ u. u) p addr ((), False, s);
     case r of
       Some v \<Rightarrow> Some (v, s)
     | None \<Rightarrow> do {
         (k, s) \<leftarrow> (if \<not> havekids then Some (1, s) else killed p s);
         if k \<noteq> 0 then do {
           s \<leftarrow> unlock Lk_wait s;
           Some (-1, s) }
         else do {
           s \<leftarrow> sleep sw (Ch_proc p) Lk_wait s;
           wait_loop sw p addr s } } }"

definition wait :: "('z proc_state_scheme \<Rightarrow> 'z proc_state_scheme option) \<Rightarrow> u64
    \<Rightarrow> 'z proc_state_scheme \<Rightarrow> (int \<times> 'z proc_state_scheme) option" where
  "wait sw addr s = do {
     (p, s) \<leftarrow> myp s;
     s \<leftarrow> lock Lk_wait s;
     wait_loop sw p addr s }"

text \<open>waitx also hands out the child's run time and wait time; \<open>(wtime, rtime)\<close> is what its two
  pointers hold, which it leaves alone when it finds no child.\<close>

definition record_times :: "proc \<Rightarrow> u32 \<times> u32 \<Rightarrow> u32 \<times> u32" where
  "record_times np ot = (p_etime np - p_ctime np - p_rtime np, p_rtime np)"

partial_function (option) waitx_loop :: "('z proc_state_scheme \<Rightarrow> 'z proc_state_scheme option) \<Rightarrow> nat
    \<Rightarrow> u64 \<Rightarrow> u32 \<times> u32 \<Rightarrow> 'z proc_state_scheme \<Rightarrow> (int \<times> (u32 \<times> u32) \<times> 'z proc_state_scheme) option" where
  "waitx_loop sw p addr ot s = do {
     (r, ot, havekids, s) \<leftarrow> wait_scan record_times p addr (ot, False, s);
     case r of
       Some v \<Rightarrow> Some (v, ot, s)
     | None \<Rightarrow>
         if \<not> havekids \<or> p_killed (procs s p) \<noteq> 0 then do {
           s \<leftarrow> unlock Lk_wait s;
           Some (-1, ot, s) }
         else do {
           s \<leftarrow> sleep sw (Ch_proc p) Lk_wait s;
           waitx_loop sw p addr ot s } }"

definition waitx :: "('z proc_state_scheme \<Rightarrow> 'z proc_state_scheme option) \<Rightarrow> u64 \<Rightarrow> u32 \<times> u32
    \<Rightarrow> 'z proc_state_scheme \<Rightarrow> (int \<times> (u32 \<times> u32) \<times> 'z proc_state_scheme) option" where
  "waitx sw addr ot s = do {
     (p, s) \<leftarrow> myp s;
     s \<leftarrow> lock Lk_wait s;
     waitx_loop sw p addr ot s }"

section \<open>Loops over the table\<close>

definition plocks_free :: "hart \<Rightarrow> bool" where
  "plocks_free h \<longleftrightarrow> (\<forall>i<NPROC. lock_free (Lk_proc i) h)"

lemma plocks_freeD [simp, dest]: "plocks_free h \<Longrightarrow> i < NPROC \<Longrightarrow> lock_free (Lk_proc i) h"
  by (simp add: plocks_free_def)

lemma plocks_free_acq [simp]: "(\<And>i. l \<noteq> Lk_proc i) \<Longrightarrow> plocks_free (acq l h) = plocks_free h"
  by (auto simp: plocks_free_def)

lemma upd_proc_simps [simp]:
  "hw (upd_proc i f s) = hw s" "ram (upd_proc i f s) = ram s" "kend (upd_proc i f s) = kend s"
  "freelist (upd_proc i f s) = freelist s"
  "procs (upd_proc i f s) = (procs s)(i := f (procs s i))" "ticks (upd_proc i f s) = ticks s"
  "initproc (upd_proc i f s) = initproc s" "nextpid (upd_proc i f s) = nextpid s"
  "npnq (upd_proc i f s) = npnq s" "roqd (upd_proc i f s) = roqd s"
  "(upd_proc i f s)\<lparr>hw := h\<rparr> = upd_proc i f (s\<lparr>hw := h\<rparr>)"
  "upd_proc i f (upd_proc i g s) = upd_proc i (\<lambda>x. f (g x)) s"
  by (simp_all add: upd_proc_def)

definition map_procs :: "(nat \<Rightarrow> proc \<Rightarrow> proc) \<Rightarrow> 'z proc_state_scheme \<Rightarrow> 'z proc_state_scheme" where
  "map_procs f s = s\<lparr>procs := (\<lambda>i. if i < NPROC then f i (procs s i) else procs s i)\<rparr>"

text \<open>A loop whose body changes only the entry it looks at.\<close>

lemma for_procs:
  assumes "\<And>j s'. j < NPROC \<Longrightarrow> hw s' = hw s \<Longrightarrow> body j s' = Some (upd_proc j (f j) s')"
  shows "for_n 0 NPROC body s = Some (map_procs f s)"
proof -
  have "for_n i n body s' = Some (s'\<lparr>procs := (\<lambda>j. if i \<le> j \<and> j < i + n then f j (procs s' j) else procs s' j)\<rparr>)"
    if "i + n \<le> NPROC" "hw s' = hw s" for i n s'
    using that
  proof (induction n arbitrary: i s')
    case 0
    then show ?case by (simp add: not_le [symmetric] cong: if_cong)
  next
    case (Suc n)
    have "for_n i (Suc n) body s' = for_n (Suc i) n body (upd_proc i (f i) s')"
      using Suc.prems assms by simp
    also have "\<dots> = Some ((upd_proc i (f i) s')\<lparr>procs := (\<lambda>j. if Suc i \<le> j \<and> j < Suc i + n
        then f j (procs (upd_proc i (f i) s') j) else procs (upd_proc i (f i) s') j)\<rparr>)"
      by (rule Suc.IH) (use Suc.prems in auto)
    also have "(upd_proc i (f i) s')\<lparr>procs := (\<lambda>j. if Suc i \<le> j \<and> j < Suc i + n
        then f j (procs (upd_proc i (f i) s') j) else procs (upd_proc i (f i) s') j)\<rparr> =
      s'\<lparr>procs := (\<lambda>j. if i \<le> j \<and> j < i + Suc n then f j (procs s' j) else procs s' j)\<rparr>"
      by (auto simp: upd_proc_def fun_eq_iff intro!: arg_cong [where f = "\<lambda>p. s'\<lparr>procs := p\<rparr>"])
    finally show ?case .
  qed
  from this [of 0 NPROC s] show ?thesis by (simp add: map_procs_def)
qed

lemma upd_proc_id: "f (procs s i) = procs s i \<Longrightarrow> upd_proc i f s = s"
  by (simp add: upd_proc_def)

definition wake :: "nat option \<Rightarrow> chan option \<Rightarrow> nat \<Rightarrow> proc \<Rightarrow> proc" where
  "wake me chan i x = (if Some i \<noteq> me \<and> p_state x = SLEEPING \<and> p_chan x = chan
     then x\<lparr>p_state := RUNNABLE\<rparr> else x)"

lemma wakeup_ok [kstep]:
  assumes "hart_ok (hw s)" "plocks_free (hw s)"
  shows "wakeup chan s = Some (map_procs (wake (cproc (mycpu (hw s))) chan) s)"
  unfolding wakeup_def
proof (rule for_procs)
  fix j and s' :: "'a proc_state_scheme"
  assume "j < NPROC" "hw s' = hw s"
  then show "curproc s' \<bind> (\<lambda>(me, s). if Some j \<noteq> me then lock (Lk_proc j) s \<bind>
      (\<lambda>s. let s = if p_state (procs s j) = SLEEPING \<and> p_chan (procs s j) = chan
           then upd_proc j (p_state_update (\<lambda>_. RUNNABLE)) s else s in unlock (Lk_proc j) s)
      else Some s) = Some (upd_proc j (wake (cproc (mycpu (hw s))) chan j) s')"
    using assms by (auto simp: kstep wake_def upd_proc_def)
qed

lemma update_time_ok [kstep]:
  assumes "hart_ok (hw s)" "plocks_free (hw s)"
  shows "update_time s = Some (map_procs
    (\<lambda>_ x. if p_state x = RUNNING then x\<lparr>p_rtime := p_rtime x + 1\<rparr> else x) s)"
  unfolding update_time_def
  by (rule for_procs) (use assms in \<open>auto simp: kstep upd_proc_def\<close>)

lemma killed_ok [kstep]:
  "hart_ok (hw s) \<Longrightarrow> lock_free (Lk_proc p) (hw s) \<Longrightarrow> killed p s = Some (p_killed (procs s p), s)"
  by (simp add: killed_def kstep)

lemma setkilled_ok [kstep]:
  "hart_ok (hw s) \<Longrightarrow> lock_free (Lk_proc p) (hw s) \<Longrightarrow>
    setkilled p s = Some (upd_proc p (\<lambda>x. x\<lparr>p_killed := 1\<rparr>) s)"
  by (simp add: setkilled_def kstep upd_proc_def)

lemma allocpid_ok [kstep]:
  "hart_ok (hw s) \<Longrightarrow> lock_free Lk_pid (hw s) \<Longrightarrow>
    allocpid s = Some (nextpid s, s\<lparr>nextpid := nextpid s + 1\<rparr>)"
  by (simp add: allocpid_def kstep)

definition kill_mark :: "proc \<Rightarrow> proc" where
  "kill_mark x = x\<lparr>p_killed := 1, p_state := (if p_state x = SLEEPING then RUNNABLE else p_state x)\<rparr>"

lemma kill_ok [kstep]:
  assumes "hart_ok (hw s)" "plocks_free (hw s)"
  shows "kill pid s = Some (case find (\<lambda>i. p_pid (procs s i) = pid) [0..<NPROC] of
     None \<Rightarrow> (-1, s) | Some i \<Rightarrow> (0, upd_proc i kill_mark s))"
proof -
  let ?P = "\<lambda>i. p_pid (procs s i) = pid"
  show ?thesis unfolding kill_def
    by (subst search_n_find [where P = ?P and v = "\<lambda>_. 0" and g = "\<lambda>i. upd_proc i kill_mark s" and S = "\<lambda>_. s"])
      (use assms in \<open>auto simp: kstep upd_proc_def kill_mark_def split: option.split\<close>)
qed

section \<open>System call counts, debugging output\<close>

text \<open>syscall.c, syscall_names.\<close>

definition syscall_names :: "string list" where
  "syscall_names = [''fork'', ''exit'', ''wait'', ''pipe'', ''read'', ''kill'', ''exec'', ''fstat'',
     ''chdir'', ''dup'', ''getpid'', ''sbrk'', ''sleep'', ''uptime'', ''open'', ''write'', ''mknod'',
     ''unlink'', ''link'', ''mkdir'', ''close'', ''waitx'', ''getSysCount'', ''sigalarm'', ''sigreturn'',
     ''settickets'', ''printlog'']"

text \<open>\<open>j\<close> is a global of proc.c. An index outside syscall_names reads past the array: no result.\<close>

definition getSysCount :: "int \<Rightarrow> 'z proc_state_scheme \<Rightarrow> (int \<times> 'z proc_state_scheme) option" where
  "getSysCount msk s = do {
     (p, s) \<leftarrow> myp s;
     let s = fold (\<lambda>i s. if drop_bit i msk AND 1 \<noteq> 0 then s\<lparr>glob_j := int i\<rparr> else s)
               [1..<NUMBER_OF_SYSCALLS] s;
     let j = glob_j s;
     if j - 1 < 0 \<or> int (length syscall_names) \<le> j - 1 then None
     else do {
       let count = sint (p_syscall_count (procs s p) (nat j));
       s \<leftarrow> printf (''PID %d called %s %d times.'' @ [CHR 0x0A])
             [VInt (p_pid (procs s p)), VStr (Some (syscall_names ! nat (j - 1))), VInt count] s;
       Some (count, s) } }"

definition procdump :: "'z proc_state_scheme \<Rightarrow> 'z proc_state_scheme option" where
  "procdump s = do {
     s \<leftarrow> printf [CHR 0x0A] [] s;
     for_n 0 NPROC (\<lambda>p s.
       if p_state (procs s p) = UNUSED then Some s
       else if p_pid (procs s p) > 2 then do {
         s \<leftarrow> printf ''%d  %d  %d  %d  %d '' [VInt (p_pid (procs s p)), VInt (p_queue (procs s p)),
               VInt (p_pqtct (procs s p)), VInt (p_wwpqtct (procs s p)), VInt (p_qnumber (procs s p))] s;
         printf [CHR 0x0A] [] s }
       else Some s) s }"

definition log_rule :: string where
  "log_rule = replicate 52 CHR ''-'' @ [CHR 0x0A]"

definition print_logg :: "'z proc_state_scheme \<Rightarrow> 'z proc_state_scheme option" where
  "print_logg s =
    (if log_index s = 0 then printf (''No log entries available.'' @ [CHR 0x0A]) [] s
     else do {
       s \<leftarrow> printf (''Process Queue Log:'' @ [CHR 0x0A]) [] s;
       s \<leftarrow> printf log_rule [] s;
       s \<leftarrow> printf (''| PID | Time | Queue | TckTime'' @ [CHR 0x0A]) [] s;
       s \<leftarrow> printf log_rule [] s;
       s \<leftarrow> for_n 0 (log_index s) (\<lambda>i s. printf (''| %d | %d | %d | %d |'' @ [CHR 0x0A])
             [VInt (le_pid (logs s i)), VInt (le_time (logs s i)), VInt (le_queue (logs s i)),
              VInt (sint (le_ticktime (logs s i)))] s) s;
       printf log_rule [] s })"

section \<open>Copying to and from either side\<close>

text \<open>Where either_copyout writes and either_copyin reads: a user address of the current
  process, kernel memory, or a kernel object that the model keeps typed, whose new or old bytes
  the caller has in its hands.\<close>

datatype kplace = User u64 | Kmem u64 | Kobj "u8 list"

definition either_copyout :: "kplace \<Rightarrow> u8 list \<Rightarrow> 'z proc_state_scheme \<Rightarrow> (int \<times> 'z proc_state_scheme) option" where
  "either_copyout dst src s = do {
     (p, s) \<leftarrow> curproc s;
     case dst of
       User va \<Rightarrow> do { p \<leftarrow> p; copyout (p_pagetable (procs s p)) va src s }
     | Kmem a \<Rightarrow> Some (0, s\<lparr>ram := put_bytes a src (ram s)\<rparr>)
     | Kobj _ \<Rightarrow> Some (0, s) }"

definition either_copyin :: "kplace \<Rightarrow> nat \<Rightarrow> 'z proc_state_scheme \<Rightarrow> (int \<times> u8 list \<times> 'z proc_state_scheme) option" where
  "either_copyin src len s = do {
     (p, s) \<leftarrow> curproc s;
     case src of
       User va \<Rightarrow> do { p \<leftarrow> p; copyin (p_pagetable (procs s p)) va len s }
     | Kmem a \<Rightarrow> Some (0, get_bytes a len (ram s), s)
     | Kobj bs \<Rightarrow> Some (0, take len bs, s) }"

section \<open>Sleeping\<close>

lemma map_procs_simps [simp]:
  "hw (map_procs f s) = hw s" "initproc (map_procs f s) = initproc s" "ram (map_procs f s) = ram s"
  "procs (map_procs f s) i = (if i < NPROC then f i (procs s i) else procs s i)"
  "(map_procs f s)\<lparr>hw := h\<rparr> = map_procs f (s\<lparr>hw := h\<rparr>)"
  by (simp_all add: map_procs_def cong: if_cong)

lemma myp_ok [kstep]: "hart_ok (hw s) \<Longrightarrow> cproc (mycpu (hw s)) = Some p \<Longrightarrow> myp s = Some (p, s)"
  by (simp add: myp_def kstep)

lemma sched_eq:
  assumes "hart_ok h" "noff (mycpu h) = 0" "hw s = acq (Lk_proc p) h" "cproc (mycpu h) = Some p"
    "p_state (procs s p) \<noteq> RUNNING"
  shows "sched sw s = Option.bind (sw s)
    (\<lambda>s'. Some (s'\<lparr>hw := upd_cpu (\<lambda>c. c\<lparr>intena := intena (mycpu (hw s))\<rparr>) (hw s')\<rparr>))"
  using assms by (simp add: sched_def kstep)

lemma sleep_eq:
  assumes "hart_ok h" "noff (mycpu h) = 0" "hw s = acq lk h" "cproc (mycpu h) = Some p"
    "lock_free lk h" "lock_free (Lk_proc p) h" "lk \<noteq> Lk_proc p"
  shows "sleep sw chan lk s = do {
     let s1 = upd_proc p (\<lambda>x. x\<lparr>p_chan := Some chan, p_state := SLEEPING\<rparr>) (s\<lparr>hw := acq (Lk_proc p) h\<rparr>);
     s2 \<leftarrow> sw s1;
     let s2 = s2\<lparr>hw := upd_cpu (\<lambda>c. c\<lparr>intena := intena (mycpu (acq (Lk_proc p) h))\<rparr>) (hw s2)\<rparr>;
     let s2 = upd_proc p (\<lambda>x. x\<lparr>p_chan := None\<rparr>) s2;
     s2 \<leftarrow> unlock (Lk_proc p) s2;
     lock lk s2 }"
proof -
  have "sched sw (upd_proc p (\<lambda>x. x\<lparr>p_chan := Some chan, p_state := SLEEPING\<rparr>) (s\<lparr>hw := acq (Lk_proc p) h\<rparr>))
    = Option.bind (sw (upd_proc p (\<lambda>x. x\<lparr>p_chan := Some chan, p_state := SLEEPING\<rparr>) (s\<lparr>hw := acq (Lk_proc p) h\<rparr>)))
    (\<lambda>s'. Some (s'\<lparr>hw := upd_cpu (\<lambda>c. c\<lparr>intena := intena (mycpu (acq (Lk_proc p) h))\<rparr>) (hw s')\<rparr>))"
    by (subst sched_eq [where h = h and p = p]) (use assms in simp_all)
  then show ?thesis using assms by (simp add: sleep_def kstep)
qed

text \<open>What reparent does: the children of p get init as their parent, and if there was one, init
  is woken from wait().\<close>

definition adopt :: "nat \<Rightarrow> nat option \<Rightarrow> proc \<Rightarrow> proc" where
  "adopt p init x = (if p_parent x = Some p then x\<lparr>p_parent := init\<rparr> else x)"

lemma wake_adopt: "wake me c i (adopt p init x) = adopt p init (wake me c i x)"
  by (simp add: wake_def adopt_def)

lemma wake_simps [simp]:
  "wake me c i (wake me c i x) = wake me c i x" "p_parent (wake me c i x) = p_parent x"
  by (simp_all add: wake_def)

lemma wake_parent: "wake me c i (x\<lparr>p_parent := q\<rparr>) = (wake me c i x)\<lparr>p_parent := q\<rparr>"
  by (simp add: wake_def)

lemma map_procs_cong:
  "(\<And>i. i < NPROC \<Longrightarrow> f i (procs s i) = g i (procs s i)) \<Longrightarrow> map_procs f s = map_procs g s"
  by (simp add: map_procs_def cong: if_cong)

lemma map_upd_map:
  "k < NPROC \<Longrightarrow> map_procs f (upd_proc k g (map_procs h s)) =
    map_procs (\<lambda>i x. f i (if i = k then g (h i x) else h i x)) s"
  by (auto simp: map_procs_def upd_proc_def intro!: arg_cong [where f = "\<lambda>p. s\<lparr>procs := p\<rparr>"])

definition has_kids :: "nat \<Rightarrow> nat \<Rightarrow> (nat \<Rightarrow> proc) \<Rightarrow> bool" where
  "has_kids p k ps \<longleftrightarrow> (\<exists>j<k. p_parent (ps j) = Some p)"

lemma reparent_ok [kstep]:
  fixes s :: "'z proc_state_scheme"
  assumes "hart_ok (hw s)" "plocks_free (hw s)"
  defines "wk \<equiv> wake (cproc (mycpu (hw s))) (map_option Ch_proc (initproc s))"
  shows "reparent p s = Some (map_procs (\<lambda>i x.
     adopt p (initproc s) (if has_kids p NPROC (procs s) then wk i x else x)) s)"
proof -
  define f where "f k i x = (let y = (if has_kids p k (procs s) then wk i x else x)
    in if i < k then adopt p (initproc s) y else y)" for k i x
  define S where "S k = map_procs (f k) s" for k
  have par: "p_parent (procs (S k) k) = p_parent (procs s k)" for k
    by (simp add: S_def f_def Let_def wk_def)
  have step: "(if p_parent (procs (S k) k) = Some p then
      (let t = upd_proc k (\<lambda>x. x\<lparr>p_parent := initproc (S k)\<rparr>) (S k)
       in wakeup (map_option Ch_proc (initproc t)) t) else Some (S k)) = Some (S (Suc k))"
    if k: "k < NPROC" for k
  proof (cases "p_parent (procs s k) = Some p")
    case True
    let ?t = "upd_proc k (\<lambda>x. x\<lparr>p_parent := initproc (S k)\<rparr>) (S k)"
    have "wakeup (map_option Ch_proc (initproc ?t)) ?t = Some (map_procs wk ?t)"
      by (subst wakeup_ok) (use assms in \<open>simp_all add: S_def\<close>)
    moreover have "map_procs wk ?t = S (Suc k)"
    proof -
      have hk: "has_kids p (Suc k) (procs s)" using True by (auto simp: has_kids_def)
      have pt: "\<And>i x. wk i (adopt p (initproc s) x) = adopt p (initproc s) (wk i x)"
        "\<And>i x. wk i (wk i x) = wk i x" "\<And>i x. p_parent (wk i x) = p_parent x"
        "\<And>i x q. wk i (x\<lparr>p_parent := q\<rparr>) = (wk i x)\<lparr>p_parent := q\<rparr>"
        by (simp_all add: wk_def wake_adopt wake_parent)
      have "S (Suc k) = map_procs (\<lambda>i x. wk i (if i = k then (f k i x)\<lparr>p_parent := initproc s\<rparr> else f k i x)) s"
        unfolding S_def
        by (rule map_procs_cong)
          (use True hk in \<open>simp add: f_def Let_def pt less_Suc_eq adopt_def [of p "initproc s" "wk k _"]\<close>)
      then show ?thesis using k by (simp add: S_def map_upd_map)
    qed
    ultimately show ?thesis using True par by simp
  next
    case False
    then have hk: "has_kids p (Suc k) (procs s) = has_kids p k (procs s)"
      by (auto simp: has_kids_def less_Suc_eq)
    have "S (Suc k) = S k"
      unfolding S_def
      by (rule map_procs_cong)
        (use False hk in \<open>auto simp: f_def Let_def less_Suc_eq adopt_def wk_def\<close>)
    moreover have "p_parent (procs (S k) k) \<noteq> Some p" using False par by simp
    ultimately show ?thesis by simp
  qed
  have "for_n 0 NPROC (\<lambda>pp s. if p_parent (procs s pp) = Some p then
      (let s = upd_proc pp (\<lambda>x. x\<lparr>p_parent := initproc s\<rparr>) s
       in wakeup (map_option Ch_proc (initproc s)) s) else Some s) (S 0) = Some (S (0 + NPROC))"
    by (rule for_n_states) (use step in simp)
  moreover have "S 0 = s" by (simp add: S_def map_procs_def f_def has_kids_def Let_def cong: if_cong)
  moreover have "S NPROC = map_procs (\<lambda>i x.
     adopt p (initproc s) (if has_kids p NPROC (procs s) then wk i x else x)) s"
    by (simp add: S_def map_procs_def f_def Let_def cong: if_cong)
  ultimately show ?thesis by (simp add: reparent_def)
qed

lemma fold_glob_j:
  "fold (\<lambda>i s. if P i then s\<lparr>glob_j := int i\<rparr> else s) xs s =
    s\<lparr>glob_j := (case find P (rev xs) of None \<Rightarrow> glob_j s | Some i \<Rightarrow> int i)\<rparr>"
  by (induction xs rule: rev_induct) auto

lemma drop_bit_and_1: "drop_bit i (msk :: int) AND 1 \<noteq> 0 \<longleftrightarrow> bit msk i"
  by (simp add: and_one_eq bit_iff_odd_drop_bit odd_iff_mod_2_eq_one)

lemma mem_frame_proc:
  fixes s s' :: "'z proc_state_scheme"
  assumes "mem_frame s s'"
  shows "procs s' = procs s" "nextpid s' = nextpid s" "initproc s' = initproc s" "ticks s' = ticks s"
    "npnq s' = npnq s" "roqd s' = roqd s"
  by (subst mem_frame_eq [OF assms], simp)+

section \<open>Freeing and allocating processes\<close>

definition freed :: "proc \<Rightarrow> proc" where
  "freed x = x\<lparr>p_trapframe := 0, p_pagetable := 0, p_sz := 0, p_pid := 0, p_parent := None,
     p_name := (p_name x)[0 := 0], p_chan := None, p_killed := 0, p_xstate := 0, p_state := UNUSED\<rparr>"

lemma freeproc_frame:
  assumes "freeproc p s = Some s'"
  shows "procs s' = (procs s)(p := freed (procs s p))"
    and "nextpid s' = nextpid s" "initproc s' = initproc s" "ticks s' = ticks s"
    and "hart_ok (hw s) \<Longrightarrow> lock_free Lk_kmem (hw s) \<Longrightarrow> hw s' = hw s"
proof -
  obtain s1 s2 where s1: "(if p_trapframe (procs s p) \<noteq> 0 then kfree (p_trapframe (procs s p)) s else Some s) = Some s1"
    and s2: "(let t = upd_proc p (\<lambda>x. x\<lparr>p_trapframe := 0\<rparr>) s1 in if p_pagetable (procs t p) \<noteq> 0
      then proc_freepagetable (p_pagetable (procs t p)) (p_sz (procs t p)) t else Some t) = Some s2"
    and s': "s' = upd_proc p (\<lambda>x. x\<lparr>p_pagetable := 0, p_sz := 0, p_pid := 0, p_parent := None,
       p_name := (p_name x)[0 := 0], p_chan := None, p_killed := 0, p_xstate := 0, p_state := UNUSED\<rparr>) s2"
    using assms by (auto simp: freeproc_def bind_Some_iff Let_def)
  have f1: "mem_frame s s1" using s1 by (auto split: if_splits dest: kfree_mem_frame)
  have f2: "mem_frame (upd_proc p (\<lambda>x. x\<lparr>p_trapframe := 0\<rparr>) s1) s2"
    using s2 by (auto simp: Let_def split: if_splits dest: proc_freepagetable_mem_frame)
  note m = mem_frame_proc [OF f1] mem_frame_proc [OF f2]
  show "procs s' = (procs s)(p := freed (procs s p))" by (simp add: s' m freed_def)
  show "nextpid s' = nextpid s" "initproc s' = initproc s" "ticks s' = ticks s"
    by (simp_all add: s' m)
  show "hw s' = hw s" if "hart_ok (hw s)" "lock_free Lk_kmem (hw s)"
    using mem_frame_hw [OF f1 that] mem_frame_hw [OF f2] that by (simp add: s')
qed

text \<open>A process entry as allocproc hands it out.\<close>

definition fresh_proc :: "int \<Rightarrow> u32 \<Rightarrow> int \<Rightarrow> proc \<Rightarrow> bool" where
  "fresh_proc pid tk qn x \<longleftrightarrow> p_state x = USED \<and> p_pid x = pid \<and> p_trapframe x \<noteq> 0 \<and> p_pagetable x \<noteq> 0 \<and>
     (\<forall>i. p_syscall_count x i = 0) \<and> p_rtime x = 0 \<and> p_etime x = 0 \<and> p_ctime x = tk \<and>
     p_tickets x = 1 \<and> p_arrival_t x = ucast tk \<and> p_s_tcks x = 0 \<and> p_hlp x = 1 \<and>
     p_pqtct x = 0 \<and> p_queue x = 1 \<and> p_wwpqtct x = 0 \<and> p_qnumber x = qn"

definition unused_slot :: "(nat \<Rightarrow> proc) \<Rightarrow> nat option" where
  "unused_slot ps = find (\<lambda>i. p_state (ps i) = UNUSED) [0..<NPROC]"

lemma allocproc_search:
  assumes "hart_ok (hw s)" "plocks_free (hw s)"
  shows "search_n 0 NPROC (\<lambda>p s. do {
       s \<leftarrow> lock (Lk_proc p) s;
       if p_state (procs s p) = UNUSED then Some (Some p, s)
       else do { s \<leftarrow> unlock (Lk_proc p) s; Some (None, s) } }) s =
    Some (case unused_slot (procs s) of None \<Rightarrow> (None, s)
      | Some p \<Rightarrow> (Some p, s\<lparr>hw := acq (Lk_proc p) (hw s)\<rparr>))"
  by (subst search_n_find [where S = "\<lambda>_. s" and P = "\<lambda>i. p_state (procs s i) = UNUSED" and v = id
        and g = "\<lambda>p. s\<lparr>hw := acq (Lk_proc p) (hw s)\<rparr>"])
    (use assms in \<open>auto simp: kstep unused_slot_def split: option.split\<close>)

lemma allocproc_frame:
  assumes idle: "hart_ok (hw s)" "plocks_free (hw s)" "lock_free Lk_pid (hw s)" "lock_free Lk_kmem (hw s)"
    and a: "allocproc s = Some (r, s')"
  shows "case r of
     Some p \<Rightarrow> unused_slot (procs s) = Some p \<and> fresh_proc (nextpid s) (ticks s) (npnq s 0) (procs s' p) \<and>
       (\<forall>i. i \<noteq> p \<longrightarrow> procs s' i = procs s i) \<and> nextpid s' = nextpid s + 1 \<and> hw s' = acq (Lk_proc p) (hw s)
   | None \<Rightarrow> hw s' = hw s \<and> (case unused_slot (procs s) of None \<Rightarrow> s' = s
       | Some p \<Rightarrow> p_state (procs s' p) = UNUSED \<and> (\<forall>i. i \<noteq> p \<longrightarrow> procs s' i = procs s i) \<and> nextpid s' = nextpid s + 1)"
proof (cases "unused_slot (procs s)")
  case None
  then show ?thesis using a allocproc_search [OF idle(1,2)] by (simp add: allocproc_def)
next
  case (Some p)
  then have p: "p < NPROC" by (auto simp: unused_slot_def dest: find_Some_nth)
  let ?h = "acq (Lk_proc p) (hw s)"
  let ?s1 = "upd_proc p (\<lambda>x. x\<lparr>p_pid := nextpid s, p_state := USED\<rparr>) (s\<lparr>hw := ?h, nextpid := nextpid s + 1\<rparr>)"
  have h: "hart_ok ?h" "lock_free Lk_kmem ?h" "lock_free Lk_pid ?h" using idle by simp_all
  let ?fail = "\<lambda>s3. \<exists>s4. freeproc p s3 = Some s4 \<and> unlock (Lk_proc p) s4 = Some s' \<and> r = None"
  obtain tf s2 where k: "kalloc ?s1 = Some (tf, s2)"
    using a Some idle p h by (auto simp: allocproc_def allocproc_search kstep bind_Some_iff)
  note f1 = kalloc_mem_frame [OF k]
  note m1 = mem_frame_proc [OF f1] and w1 = mem_frame_hw [OF f1]
  let ?s3 = "upd_proc p (\<lambda>x. x\<lparr>p_trapframe := tf\<rparr>) s2"
  have fail: ?thesis if "mem_frame ?s3 s3" "freeproc p (upd_proc p g s3) = Some s4"
      "unlock (Lk_proc p) s4 = Some s'" "r = None" for s3 s4 g
  proof -
    note m3 = mem_frame_proc [OF that(1)] and w3 = mem_frame_hw [OF that(1)]
    note ff = freeproc_frame [OF that(2)]
    have "hw s4 = ?h" using ff(5) w1 w3 h by simp
    then have "s' = s4\<lparr>hw := hw s\<rparr>" using that(3) idle p by (simp add: kstep)
    then show ?thesis using Some that(4) ff(1,2) m1 m3 by (simp add: freed_def)
  qed
  show ?thesis
  proof (cases "tf = 0")
    case True
    then obtain s4 where "freeproc p ?s3 = Some s4" "unlock (Lk_proc p) s4 = Some s'" "r = None"
      using a Some idle p h k by (auto simp: allocproc_def allocproc_search kstep bind_Some_iff)
    then show ?thesis using fail [of ?s3 "\<lambda>x. x"] by (simp add: upd_proc_id)
  next
    case False
    then obtain pt s4 where pt: "proc_pagetable tf ?s3 = Some (pt, s4)"
      using a Some idle p h k by (auto simp: allocproc_def allocproc_search kstep bind_Some_iff)
    note f4 = proc_pagetable_mem_frame [OF pt]
    note m4 = mem_frame_proc [OF f4] and w4 = mem_frame_hw [OF f4]
    show ?thesis
    proof (cases "pt = 0")
      case True
      then obtain s5 where "freeproc p (upd_proc p (\<lambda>x. x\<lparr>p_pagetable := 0\<rparr>) s4) = Some s5"
          "unlock (Lk_proc p) s5 = Some s'" "r = None"
        using a Some idle p h k False pt by (auto simp: allocproc_def allocproc_search kstep bind_Some_iff)
      then show ?thesis using fail f4 by blast
    next
      case nz: False
      then have "r = Some p" "s' = allocproc_init p (upd_proc p (\<lambda>x. x\<lparr>p_pagetable := pt\<rparr>) s4)"
        using a Some idle p h k False pt by (auto simp: allocproc_def allocproc_search kstep)
      then show ?thesis using Some h False nz m1 m4 w1 w4
        by (simp add: allocproc_init_def Let_def fresh_proc_def)
    qed
  qed
qed

section \<open>Waiting\<close>

text \<open>A hart in a process, about to enter a system call: no lock held by it, none of the locks the
  process code needs held elsewhere.\<close>

definition idle :: "nat \<Rightarrow> 'z proc_state_scheme \<Rightarrow> bool" where
  "idle p s \<longleftrightarrow> hart_ok (hw s) \<and> noff (mycpu (hw s)) = 0 \<and> cproc (mycpu (hw s)) = Some p \<and> p < NPROC \<and>
     plocks_free (hw s) \<and> (\<forall>l\<in>{Lk_wait, Lk_pid, Lk_kmem}. lock_free l (hw s))"

lemma idleD [simp]:
  assumes "idle p s"
  shows "hart_ok (hw s)" "noff (mycpu (hw s)) = 0" "cproc (mycpu (hw s)) = Some p" "p < NPROC"
    "plocks_free (hw s)" "lock_free Lk_wait (hw s)" "lock_free Lk_pid (hw s)" "lock_free Lk_kmem (hw s)"
  using assms by (auto simp: idle_def)

definition zombie_child :: "nat \<Rightarrow> (nat \<Rightarrow> proc) \<Rightarrow> nat option" where
  "zombie_child p ps = find (\<lambda>i. p_parent (ps i) = Some p \<and> p_state (ps i) = ZOMBIE) [0..<NPROC]"

lemma has_kids_Suc: "has_kids p (Suc k) ps \<longleftrightarrow> has_kids p k ps \<or> p_parent (ps k) = Some p"
  by (auto simp: has_kids_def less_Suc_eq)

lemma wait_visit_skip:
  assumes "hart_ok (hw s)" "plocks_free (hw s)" "j < NPROC"
    "\<not> (p_parent (procs s j) = Some p \<and> p_state (procs s j) = ZOMBIE)"
  shows "wait_visit rec p addr j (ot, has_kids p j (procs s), s) =
     Some (None, ot, has_kids p (Suc j) (procs s), s)"
  using assms by (auto simp: wait_visit_def kstep has_kids_Suc)

lemma wait_scan_none:
  assumes "hart_ok (hw s)" "plocks_free (hw s)" "zombie_child p (procs s) = None"
  shows "wait_scan rec p addr (ot, False, s) = Some (None, ot, has_kids p NPROC (procs s), s)"
proof -
  let ?S = "\<lambda>j. (ot, has_kids p j (procs s), s)"
  have "search_n 0 NPROC (wait_visit rec p addr) (?S 0) =
      Some (case find (\<lambda>_. False) [0..<0 + NPROC] of None \<Rightarrow> (None, ?S (0 + NPROC)) | Some j \<Rightarrow> (Some 0, undefined))"
    by (rule search_n_find)
      (use assms in \<open>auto intro!: wait_visit_skip simp: zombie_child_def find_None_iff\<close>)
  moreover have "find (\<lambda>_. False) [0..<0 + NPROC] = None" by (simp add: find_None_iff)
  ultimately show ?thesis by (simp add: wait_scan_def has_kids_def)
qed

text \<open>The first zombie child, when its slot can be freed.\<close>

lemma wait_scan_zombie:
  assumes h: "hart_ok h" "plocks_free h" "lock_free Lk_wait h" "hw s = acq Lk_wait h"
    and c: "zombie_child p (procs s) = Some c"
    and f: "freeproc c (s\<lparr>hw := acq (Lk_proc c) (hw s)\<rparr>) = Some s'" "lock_free Lk_kmem h"
  shows "wait_scan rec p 0 (ot, False, s) = Some (Some (p_pid (procs s c)), rec (procs s c) ot, True, s'\<lparr>hw := h\<rparr>)"
proof -
  let ?S = "\<lambda>j. (ot, has_kids p j (procs s), s)"
  note c' = find_Some_nth [OF c [unfolded zombie_child_def]]
  have hw': "hw s' = acq (Lk_proc c) (acq Lk_wait h)" using freeproc_frame(5) [OF f(1)] h f(2) by simp
  have "search_n 0 NPROC (wait_visit rec p 0) (?S 0) =
      Some (Some (p_pid (procs s c)), rec (procs s c) ot, True, s'\<lparr>hw := h\<rparr>)"
  proof (rule search_n_hit [where c = c])
    show "wait_visit rec p 0 c (?S c) = Some (Some (p_pid (procs s c)), rec (procs s c) ot, True, s'\<lparr>hw := h\<rparr>)"
      using h c'(2,3) f(1) hw' by (simp add: wait_visit_def kstep)
  qed (use h c' in \<open>auto intro!: wait_visit_skip\<close>)
  then show ?thesis by (simp add: wait_scan_def has_kids_def)
qed

lemma myp_idle [kstep]: "idle p s \<Longrightarrow> myp s = Some (p, s)"
  by (simp add: kstep)

lemma wait_start:
  "idle p s \<Longrightarrow> wait sw addr s = wait_loop sw p addr (s\<lparr>hw := acq Lk_wait (hw s)\<rparr>)"
  by (simp add: wait_def kstep)

section \<open>Process ids\<close>

text \<open>Every process in use has a positive id below nextpid, and no two have the same.\<close>

definition live :: "(nat \<Rightarrow> proc) \<Rightarrow> nat \<Rightarrow> bool" where
  "live ps i \<longleftrightarrow> i < NPROC \<and> p_state (ps i) \<noteq> UNUSED"

definition pids_ok :: "'z proc_state_scheme \<Rightarrow> bool" where
  "pids_ok s \<longleftrightarrow> 0 < nextpid s \<and>
     (\<forall>i. live (procs s) i \<longrightarrow> 0 < p_pid (procs s i) \<and> p_pid (procs s i) < nextpid s) \<and>
     (\<forall>i j. live (procs s) i \<longrightarrow> live (procs s) j \<longrightarrow> p_pid (procs s i) = p_pid (procs s j) \<longrightarrow> i = j)"

lemma pids_ok_fresh:
  assumes "pids_ok s" "nextpid s' = nextpid s + 1" "p_pid (procs s' q) = nextpid s"
    "\<And>i. i \<noteq> q \<Longrightarrow> procs s' i = procs s i"
  shows "pids_ok s'"
proof -
  have live: "i \<noteq> q \<Longrightarrow> live (procs s') i = live (procs s) i" for i
    using assms(4) by (simp add: live_def)
  have lt: "i \<noteq> q \<Longrightarrow> live (procs s') i \<Longrightarrow> 0 < p_pid (procs s' i) \<and> p_pid (procs s' i) < nextpid s" for i
    using assms(1,4) live by (simp add: pids_ok_def)
  have "0 < p_pid (procs s' i) \<and> p_pid (procs s' i) < nextpid s'" if "live (procs s') i" for i
    using lt [of i] that assms(1-3) by (cases "i = q") (auto simp: pids_ok_def)
  moreover have "i = j" if "live (procs s') i" "live (procs s') j" "p_pid (procs s' i) = p_pid (procs s' j)" for i j
    using that lt [of i] lt [of j] assms(1,3,4) live by (cases "i = q"; cases "j = q") (auto simp: pids_ok_def)
  ultimately show ?thesis using assms(1,2) by (simp add: pids_ok_def)
qed

lemma pids_ok_unused:
  assumes "pids_ok s" "nextpid s \<le> nextpid s'" "p_state (procs s' q) = UNUSED"
    "\<And>i. i \<noteq> q \<Longrightarrow> procs s' i = procs s i"
  shows "pids_ok s'"
proof -
  have "live (procs s') i \<Longrightarrow> i \<noteq> q \<and> live (procs s) i" for i
    using assms(3,4) by (cases "i = q") (auto simp: live_def)
  then show ?thesis using assms(1,2,4) unfolding pids_ok_def
    by (metis (no_types, lifting) order_less_le_trans)
qed

section \<open>Properties\<close>

definition proc_nil :: proc where
  "proc_nil = \<lparr>p_state = UNUSED, p_chan = None, p_killed = 0, p_xstate = 0, p_pid = 0, p_parent = None,
     p_kstack = 0, p_sz = 0, p_pagetable = 0, p_trapframe = 0, p_context = \<lparr>c_ra = 0, c_sp = 0, c_s = []\<rparr>,
     p_ofile = replicate 16 None, p_cwd = None, p_name = replicate 16 0, p_rtime = 0, p_ctime = 0,
     p_etime = 0, p_syscall_count = (\<lambda>_. 0), p_s1 = 0, p_tickets = 0, p_arrival_t = 0, p_ticks = 0,
     p_s_tcks = 0, p_handler = 0, p_hlp = 0, p_alarm_tf = 0, p_alarm_act = 0, p_pqtct = 0, p_queue = 0,
     p_wwpqtct = 0, p_qnumber = 0\<rparr>"

text \<open>A small system: init in slot 0 asleep in wait, its child in slot 1 running, and two
  children of that one, the second of them a zombie with exit status 7.\<close>

definition table0 :: "nat \<Rightarrow> proc" where
  "table0 = (\<lambda>i.
     if i = 0 then proc_nil\<lparr>p_state := SLEEPING, p_chan := Some (Ch_proc 0), p_pid := 1\<rparr>
     else if i = 1 then proc_nil\<lparr>p_state := RUNNING, p_pid := 2, p_parent := Some 0, p_tickets := 1,
       p_syscall_count := (\<lambda>_. 0)(5 := 9)\<rparr>
     else if i = 2 then proc_nil\<lparr>p_state := RUNNABLE, p_pid := 3, p_parent := Some 1, p_tickets := 2\<rparr>
     else if i = 3 then proc_nil\<lparr>p_state := ZOMBIE, p_pid := 4, p_parent := Some 1, p_xstate := 7\<rparr>
     else proc_nil)"

definition proc0 :: proc_state where
  "proc0 = \<lparr>hw = upd_cpu (\<lambda>c. c\<lparr>cproc := Some 1\<rparr>) hart0, ram = (\<lambda>_. 0), freelist = 0, kend = 0x8004cb20,
     kernel_pagetable = 0, etext = 0x80008000, trampoline = 0x80007000, satp = (\<lambda>_. 0),
     panicked = False, pr_locking = True, thr = [], procs = table0, initproc = Some 0, nextpid = 5,
     ticks = 100, npnq = (\<lambda>_. 0), roqd = (\<lambda>_. 0),
     logs = (\<lambda>_. \<lparr>le_pid = 0, le_time = 0, le_ticktime = 0, le_queue = 0\<rparr>), log_index = 0,
     random_ct = 0, glob_j = 0, forkret_pc = 0x80001000\<rparr>"

lemma set_cproc_simps [simp]:
  "hart_ok (upd_cpu (\<lambda>c. c\<lparr>cproc := p\<rparr>) h) = hart_ok h"
  "lock_free l (upd_cpu (\<lambda>c. c\<lparr>cproc := p\<rparr>) h) = lock_free l h"
  "plocks_free (upd_cpu (\<lambda>c. c\<lparr>cproc := p\<rparr>) h) = plocks_free h"
  "cproc (mycpu (upd_cpu (\<lambda>c. c\<lparr>cproc := p\<rparr>) h)) = p"
  "noff (mycpu (upd_cpu (\<lambda>c. c\<lparr>cproc := p\<rparr>) h)) = noff (mycpu h)"
  by (auto simp: hart_ok_def lock_free_def plocks_free_def hart_defs)

lemma proc0_idle [simp]: "idle 1 proc0"
proof -
  have "noff (mycpu hart0) = 0" by (simp add: hart0_def lsys_init_def hart_defs)
  then show ?thesis by (simp add: idle_def proc0_def plocks_free_def NPROC_def)
qed

lemma NPROC_upt: "[0..<NPROC] = 0 # 1 # 2 # 3 # 4 # [5..<64]"
  by (simp add: NPROC_def upt_conv_Cons)

text \<open>C32: wakeup makes runnable exactly the processes, other than the caller, that sleep on the
  given channel, and changes nothing else anywhere.\<close>

theorem wakeup_exact:
  assumes "hart_ok (hw s)" "plocks_free (hw s)"
  shows "\<exists>ps. wakeup chan s = Some (s\<lparr>procs := ps\<rparr>) \<and>
    (\<forall>i. ps i = (if i < NPROC \<and> Some i \<noteq> cproc (mycpu (hw s)) \<and> p_state (procs s i) = SLEEPING \<and>
         p_chan (procs s i) = chan then (procs s i)\<lparr>p_state := RUNNABLE\<rparr> else procs s i))"
proof -
  have "wakeup chan s = Some (map_procs (wake (cproc (mycpu (hw s))) chan) s)"
    using assms by (rule wakeup_ok)
  then show ?thesis unfolding map_procs_def
    by (intro exI [of _ "\<lambda>i. if i < NPROC then wake (cproc (mycpu (hw s))) chan i (procs s i) else procs s i"])
      (simp add: wake_def)
qed

theorem wakeup_exact_witness:
  "\<exists>ps. wakeup (Some (Ch_proc 0)) proc0 = Some (proc0\<lparr>procs := ps\<rparr>) \<and>
     p_state (ps 0) = RUNNABLE \<and> p_state (ps 1) = RUNNING"
proof -
  have h: "hart_ok (hw proc0)" "plocks_free (hw proc0)" using proc0_idle by auto
  from wakeup_exact [OF h, of "Some (Ch_proc 0)"] show ?thesis
    by (auto simp: proc0_def table0_def NPROC_def)
qed



lemma zombie0: "zombie_child 1 (procs proc0) = Some 3"
  by (simp add: zombie_child_def NPROC_upt proc0_def table0_def)



text \<open>GetSysCount returns and prints the caller's count of the system call whose number is the
  highest bit set in the mask (bits 1 to 27), and changes nothing but the global j and the
  console. With no bit set in 1 to 31 it reports the call selected by the previous request.\<close>

lemma getSysCount_reports:
  assumes "idle p s" "lock_free Lk_pr (hw s)" "\<not> panicked s"
    and k: "find (bit msk) (rev [1..<32]) = (if stale then None else Some k)"
      "stale \<longrightarrow> glob_j s = int k" "1 \<le> k" "k \<le> 27"
  shows "\<exists>cs. render (''PID %d called %s %d times.'' @ [CHR 0x0A]) [VInt (p_pid (procs s p)),
        VStr (Some (syscall_names ! (k - 1))), VInt (sint (p_syscall_count (procs s p) k))] = Some cs \<and>
      getSysCount msk s = Some (sint (p_syscall_count (procs s p) k),
        s\<lparr>glob_j := int k, thr := thr s @ bytes_of cs\<rparr>)"
proof -
  let ?c = "sint (p_syscall_count (procs s p) k)"
  let ?args = "[VInt (p_pid (procs s p)), VStr (Some (syscall_names ! (k - 1))), VInt ?c]"
  have j: "fold (\<lambda>i s. if drop_bit i msk AND 1 \<noteq> 0 then s\<lparr>glob_j := int i\<rparr> else s)
      [1..<NUMBER_OF_SYSCALLS] s = s\<lparr>glob_j := int k\<rparr>"
    using k unfolding drop_bit_and_1 fold_glob_j by (auto simp: NUMBER_OF_SYSCALLS_def)
  obtain cs where r: "render (''PID %d called %s %d times.'' @ [CHR 0x0A]) ?args = Some cs" by simp
  have "printf (''PID %d called %s %d times.'' @ [CHR 0x0A]) ?args (s\<lparr>glob_j := int k\<rparr>) =
      Some (s\<lparr>glob_j := int k, thr := thr s @ bytes_of cs\<rparr>)"
    by (subst printf_ok [OF _ _ _ r]) (use assms in simp_all)
  moreover have "nat (int k - 1) = k - 1" using k(3) by simp
  ultimately have "getSysCount msk s = Some (?c, s\<lparr>glob_j := int k, thr := thr s @ bytes_of cs\<rparr>)"
    using assms(1) k(3,4) j by (simp add: getSysCount_def kstep syscall_names_def)
  then show ?thesis using r by blast
qed

lemma getSysCount_reports_example:
  "\<exists>cs. getSysCount 35 proc0 = Some (9, proc0\<lparr>glob_j := 5, thr := bytes_of cs\<rparr>)"
proof -
  have "find (bit (35 :: int)) (rev [1..<32]) = (if False then None else Some 5)" by code_simp
  moreover have "lock_free Lk_pr (hw proc0)" "\<not> panicked proc0" "thr proc0 = []"
    "sint (p_syscall_count (procs proc0 1) 5) = 9" by (simp_all add: proc0_def table0_def)
  ultimately show ?thesis using getSysCount_reports [OF proc0_idle, of 35 False 5] by auto
qed

end
