(* ===== verification/Sleeplock.thy ===== *)
theory Sleeplock
  imports Proc
begin

text \<open>
  Sleep locks (kernel/sleeplock.c).

  A sleep lock is the flag of a table entry, guarded by a spin lock of its own; a process that
  finds the flag set sleeps on the lock. The locks are named by the entry they belong to: a
  buffer of the buffer cache or an inode of the inode table. The second half looks at any number
  of processes that take and give back one lock in any order.
\<close>

section \<open>Operations\<close>

datatype slid = SL_buf nat | SL_inode nat

fun sl_lk :: "slid \<Rightarrow> lockid" where
  "sl_lk (SL_buf i) = Lk_sl_buf i"
| "sl_lk (SL_inode i) = Lk_sl_inode i"

fun sl_chan :: "slid \<Rightarrow> chan" where
  "sl_chan (SL_buf i) = Ch_sl_buf i"
| "sl_chan (SL_inode i) = Ch_sl_inode i"

record sleeplock =
  sl_locked :: bool
  sl_name :: string
  sl_pid :: int

record sl_state = proc_state +
  sleeplocks :: "slid \<Rightarrow> sleeplock"

definition upd_sl :: "slid \<Rightarrow> (sleeplock \<Rightarrow> sleeplock) \<Rightarrow> 'z sl_state_scheme \<Rightarrow> 'z sl_state_scheme" where
  "upd_sl lk f s = s\<lparr>sleeplocks := (sleeplocks s)(lk := f (sleeplocks s lk))\<rparr>"

definition initsleeplock :: "slid \<Rightarrow> string \<Rightarrow> 'z sl_state_scheme \<Rightarrow> 'z sl_state_scheme" where
  "initsleeplock lk name s =
    (let s = s\<lparr>hw := initlock (sl_lk lk) ''sleep lock'' (hw s)\<rparr>
     in upd_sl lk (\<lambda>x. x\<lparr>sl_name := name, sl_locked := False, sl_pid := 0\<rparr>) s)"

partial_function (option) acquiresleep_loop :: "('z sl_state_scheme \<Rightarrow> 'z sl_state_scheme option) \<Rightarrow> slid
    \<Rightarrow> 'z sl_state_scheme \<Rightarrow> 'z sl_state_scheme option" where
  "acquiresleep_loop sw lk s =
    (if sl_locked (sleeplocks s lk) then do {
       s \<leftarrow> sleep sw (sl_chan lk) (sl_lk lk) s;
       acquiresleep_loop sw lk s }
     else Some s)"

definition acquiresleep :: "('z sl_state_scheme \<Rightarrow> 'z sl_state_scheme option) \<Rightarrow> slid
    \<Rightarrow> 'z sl_state_scheme \<Rightarrow> 'z sl_state_scheme option" where
  "acquiresleep sw lk s = do {
     s \<leftarrow> lock (sl_lk lk) s;
     s \<leftarrow> acquiresleep_loop sw lk s;
     let s = upd_sl lk (\<lambda>x. x\<lparr>sl_locked := True\<rparr>) s;
     (p, s) \<leftarrow> myp s;
     let s = upd_sl lk (\<lambda>x. x\<lparr>sl_pid := p_pid (procs s p)\<rparr>) s;
     unlock (sl_lk lk) s }"

definition releasesleep :: "slid \<Rightarrow> 'z sl_state_scheme \<Rightarrow> 'z sl_state_scheme option" where
  "releasesleep lk s = do {
     s \<leftarrow> lock (sl_lk lk) s;
     let s = upd_sl lk (\<lambda>x. x\<lparr>sl_locked := False, sl_pid := 0\<rparr>) s;
     s \<leftarrow> wakeup (Some (sl_chan lk)) s;
     unlock (sl_lk lk) s }"

definition holdingsleep :: "slid \<Rightarrow> 'z sl_state_scheme \<Rightarrow> (bool \<times> 'z sl_state_scheme) option" where
  "holdingsleep lk s = do {
     s \<leftarrow> lock (sl_lk lk) s;
     (r, s) \<leftarrow> (if sl_locked (sleeplocks s lk) then do {
         (p, s) \<leftarrow> myp s;
         Some (sl_pid (sleeplocks s lk) = p_pid (procs s p), s) }
       else Some (False, s));
     s \<leftarrow> unlock (sl_lk lk) s;
     Some (r, s) }"

section \<open>A process that runs alone\<close>

text \<open>The hart executes process p outside every critical section, and no other hart is in one.\<close>

definition running :: "nat \<Rightarrow> hart \<Rightarrow> bool" where
  "running p h \<longleftrightarrow> hart_ok h \<and> noff (mycpu h) = 0 \<and> cproc (mycpu h) = Some p \<and> p < NPROC \<and> (\<forall>l. lock_free l h)"

lemma runningD [simp]:
  assumes "running p h"
  shows "hart_ok h" "noff (mycpu h) = 0" "cproc (mycpu h) = Some p" "p < NPROC" "lock_free l h" "plocks_free h"
  using assms by (auto simp: running_def plocks_free_def)

lemma sl_lk_simps [simp]: "sl_lk lk \<noteq> Lk_proc i" "Lk_proc i \<noteq> sl_lk lk"
  by (cases lk; simp)+

lemma sl_inj [simp]: "sl_lk lk = sl_lk lk' \<longleftrightarrow> lk = lk'" "sl_chan lk = sl_chan lk' \<longleftrightarrow> lk = lk'"
  by (cases lk; cases lk'; simp)+

lemma upd_sl_simps [simp]:
  "hw (upd_sl lk f s) = hw s" "procs (upd_sl lk f s) = procs s"
  "sleeplocks (upd_sl lk f s) = (sleeplocks s)(lk := f (sleeplocks s lk))"
  "(upd_sl lk f s)\<lparr>hw := h\<rparr> = upd_sl lk f (s\<lparr>hw := h\<rparr>)"
  "upd_sl lk f (upd_sl lk g s) = upd_sl lk (\<lambda>x. f (g x)) s"
  by (simp_all add: upd_sl_def)

lemma upd_proc_sl [simp]: "sleeplocks (upd_proc p f s) = sleeplocks s"
  by (simp add: upd_proc_def)

lemma map_procs_sl [simp]: "sleeplocks (map_procs f s) = sleeplocks s"
  by (simp add: map_procs_def)

text \<open>Taking a free lock does not sleep.\<close>

definition grab :: "slid \<Rightarrow> nat \<Rightarrow> 'z sl_state_scheme \<Rightarrow> 'z sl_state_scheme" where
  "grab lk p s = upd_sl lk (\<lambda>x. x\<lparr>sl_locked := True, sl_pid := p_pid (procs s p)\<rparr>) s"

definition drop_sl :: "slid \<Rightarrow> nat \<Rightarrow> 'z sl_state_scheme \<Rightarrow> 'z sl_state_scheme" where
  "drop_sl lk p s = map_procs (wake (Some p) (Some (sl_chan lk)))
     (upd_sl lk (\<lambda>x. x\<lparr>sl_locked := False, sl_pid := 0\<rparr>) s)"

lemma acquiresleep_free [kstep]:
  assumes "running p (hw s)" "\<not> sl_locked (sleeplocks s lk)"
  shows "acquiresleep sw lk s = Some (grab lk p s)"
  using assms by (simp add: acquiresleep_def acquiresleep_loop.simps kstep grab_def)

lemma releasesleep_ok [kstep]:
  assumes "running p (hw s)"
  shows "releasesleep lk s = Some (drop_sl lk p s)"
  using assms by (simp add: releasesleep_def kstep drop_sl_def)

lemma holdingsleep_ok [kstep]:
  assumes "running p (hw s)"
  shows "holdingsleep lk s =
    Some (sl_locked (sleeplocks s lk) \<and> sl_pid (sleeplocks s lk) = p_pid (procs s p), s)"
  using assms by (simp add: holdingsleep_def kstep)

text \<open>Finding it taken parks the process. When the hart comes back to it, it starts over.\<close>

definition park :: "slid \<Rightarrow> nat \<Rightarrow> 'z sl_state_scheme \<Rightarrow> 'z sl_state_scheme" where
  "park lk p s = upd_proc p (\<lambda>x. x\<lparr>p_chan := Some (sl_chan lk), p_state := SLEEPING\<rparr>) s"

definition unpark :: "nat \<Rightarrow> hart \<Rightarrow> 'z sl_state_scheme \<Rightarrow> 'z sl_state_scheme" where
  "unpark p h s = upd_proc p (\<lambda>x. x\<lparr>p_chan := None\<rparr>) (s\<lparr>hw := h\<rparr>)"

lemma intena_twice [simp]:
  "upd_cpu (\<lambda>c. c\<lparr>intena := intena (mycpu h)\<rparr>) (upd_cpu (\<lambda>c. c\<lparr>intena := b\<rparr>) h) = h"
  by (simp add: hart_defs)

lemma acquiresleep_held:
  assumes "running p (hw s)" "sl_locked (sleeplocks s lk)"
    "sw (park lk p (s\<lparr>hw := acq (Lk_proc p) (hw s)\<rparr>)) = Some s1"
    "hw s1 = upd_cpu (\<lambda>c. c\<lparr>intena := b\<rparr>) (acq (Lk_proc p) (hw s))"
  shows "acquiresleep sw lk s = acquiresleep sw lk (unpark p (hw s) s1)"
proof -
  let ?h = "hw s"
  have "sleep sw (sl_chan lk) (sl_lk lk) (s\<lparr>hw := acq (sl_lk lk) ?h\<rparr>) =
      Some ((unpark p ?h s1)\<lparr>hw := acq (sl_lk lk) ?h\<rparr>)"
    by (subst sleep_eq [where h = ?h and p = p])
      (use assms in \<open>simp_all add: kstep unpark_def park_def\<close>)
  then have "acquiresleep_loop sw lk (s\<lparr>hw := acq (sl_lk lk) ?h\<rparr>) =
      acquiresleep_loop sw lk ((unpark p ?h s1)\<lparr>hw := acq (sl_lk lk) ?h\<rparr>)"
    using assms(2) by (subst acquiresleep_loop.simps) simp
  then show ?thesis using assms(1) by (simp add: acquiresleep_def kstep unpark_def)
qed

section \<open>Processes competing for one lock\<close>

text \<open>
  The critical sections of acquiresleep and releasesleep run under the lock's spin lock, so they
  interleave as wholes: a process gets the lock, or parks; a parked process that has become
  runnable is dispatched and tries again; a holder releases it. Besides, processes are
  preempted and dispatched, sleep and wake on other channels, and are woken by kill().
\<close>

datatype slpc = SL_out | SL_wait | SL_in

record slsys =
  sls_st :: sl_state
  sls_pc :: "nat \<Rightarrow> slpc"

definition run_as :: "nat \<Rightarrow> 'z sl_state_scheme \<Rightarrow> 'z sl_state_scheme" where
  "run_as p s = s\<lparr>hw := upd_cpu (\<lambda>c. c\<lparr>cproc := Some p\<rparr>) (hw s)\<rparr>"

inductive sl_step :: "slid \<Rightarrow> slsys \<Rightarrow> slsys \<Rightarrow> bool" for lk where
  enter: "sls_pc g p = SL_out \<Longrightarrow> p_state (procs (sls_st g) p) = RUNNING \<Longrightarrow> p < NPROC \<Longrightarrow>
    acquiresleep (\<lambda>_. None) lk (run_as p (sls_st g)) = Some s \<Longrightarrow>
    sl_step lk g \<lparr>sls_st = s, sls_pc = (sls_pc g)(p := SL_in)\<rparr>"
| block: "sls_pc g p = SL_out \<Longrightarrow> p_state (procs (sls_st g) p) = RUNNING \<Longrightarrow> p < NPROC \<Longrightarrow>
    sl_locked (sleeplocks (sls_st g) lk) \<Longrightarrow>
    sl_step lk g \<lparr>sls_st = park lk p (sls_st g), sls_pc = (sls_pc g)(p := SL_wait)\<rparr>"
| retry: "sls_pc g p = SL_wait \<Longrightarrow> p_state (procs (sls_st g) p) = RUNNABLE \<Longrightarrow> p < NPROC \<Longrightarrow>
    sl_step lk g \<lparr>sls_st = upd_proc p (\<lambda>x. x\<lparr>p_state := RUNNING, p_chan := None\<rparr>) (sls_st g),
      sls_pc = (sls_pc g)(p := SL_out)\<rparr>"
| leave: "sls_pc g p = SL_in \<Longrightarrow> p_state (procs (sls_st g) p) = RUNNING \<Longrightarrow> p < NPROC \<Longrightarrow>
    releasesleep lk (run_as p (sls_st g)) = Some s \<Longrightarrow>
    sl_step lk g \<lparr>sls_st = s, sls_pc = (sls_pc g)(p := SL_out)\<rparr>"
| preempt: "p_state (procs (sls_st g) p) = RUNNING \<Longrightarrow>
    sl_step lk g (g\<lparr>sls_st := upd_proc p (\<lambda>x. x\<lparr>p_state := RUNNABLE\<rparr>) (sls_st g)\<rparr>)"
| dispatch: "sls_pc g p \<noteq> SL_wait \<Longrightarrow> p_state (procs (sls_st g) p) = RUNNABLE \<Longrightarrow>
    sl_step lk g (g\<lparr>sls_st := upd_proc p (\<lambda>x. x\<lparr>p_state := RUNNING\<rparr>) (sls_st g)\<rparr>)"
| elsewhere: "sls_pc g p \<noteq> SL_wait \<Longrightarrow> p_state (procs (sls_st g) p) = RUNNING \<Longrightarrow> c \<noteq> sl_chan lk \<Longrightarrow>
    sl_step lk g (g\<lparr>sls_st := upd_proc p (\<lambda>x. x\<lparr>p_state := SLEEPING, p_chan := Some c\<rparr>) (sls_st g)\<rparr>)"
| woken: "p_state (procs (sls_st g) p) = SLEEPING \<Longrightarrow>
    sl_step lk g (g\<lparr>sls_st := upd_proc p (\<lambda>x. x\<lparr>p_state := RUNNABLE\<rparr>) (sls_st g)\<rparr>)"

text \<open>At the start nobody holds the lock or waits for it, and the hart is between processes.\<close>

definition sl_start :: "slid \<Rightarrow> slsys \<Rightarrow> bool" where
  "sl_start lk g \<longleftrightarrow> hart_ok (hw (sls_st g)) \<and> noff (mycpu (hw (sls_st g))) = 0 \<and>
     (\<forall>l. lock_free l (hw (sls_st g))) \<and> \<not> sl_locked (sleeplocks (sls_st g) lk) \<and>
     (\<forall>p. sls_pc g p = SL_out) \<and>
     (\<forall>p. p_state (procs (sls_st g) p) = SLEEPING \<longrightarrow> p_chan (procs (sls_st g) p) \<noteq> Some (sl_chan lk))"

definition asleep_on :: "slid \<Rightarrow> sl_state \<Rightarrow> nat \<Rightarrow> bool" where
  "asleep_on lk s p \<longleftrightarrow> p_state (procs s p) = SLEEPING \<and> p_chan (procs s p) = Some (sl_chan lk)"

definition sl_inv :: "slid \<Rightarrow> slsys \<Rightarrow> bool" where
  "sl_inv lk g \<longleftrightarrow> hart_ok (hw (sls_st g)) \<and> noff (mycpu (hw (sls_st g))) = 0 \<and>
     (\<forall>l. lock_free l (hw (sls_st g))) \<and>
     (\<forall>p. sls_pc g p = SL_wait \<longrightarrow> p_state (procs (sls_st g) p) \<noteq> RUNNING) \<and>
     (\<forall>p q. sls_pc g p = SL_in \<longrightarrow> sls_pc g q = SL_in \<longrightarrow> p = q) \<and>
     (sl_locked (sleeplocks (sls_st g) lk) \<longleftrightarrow> (\<exists>p. sls_pc g p = SL_in)) \<and>
     (\<forall>p. asleep_on lk (sls_st g) p \<longrightarrow> p < NPROC \<and> sls_pc g p = SL_wait \<and> sl_locked (sleeplocks (sls_st g) lk))"

lemma run_as_simps [simp]:
  "procs (run_as p s) = procs s" "sleeplocks (run_as p s) = sleeplocks s" "hw (run_as p s) = upd_cpu (\<lambda>c. c\<lparr>cproc := Some p\<rparr>) (hw s)"
  by (simp_all add: run_as_def)

lemma cproc_upd_simps:
  "hart_ok (upd_cpu (\<lambda>c. c\<lparr>cproc := x\<rparr>) h) = hart_ok h"
  "lock_free l (upd_cpu f h) = lock_free l h"
  "mycpu (upd_cpu f h) = f (mycpu h)"
  by (simp_all add: hart_ok_def lock_free_def hart_defs)

lemma running_as:
  "hart_ok h \<Longrightarrow> noff (mycpu h) = 0 \<Longrightarrow> \<forall>l. lock_free l h \<Longrightarrow> p < NPROC \<Longrightarrow>
    running p (upd_cpu (\<lambda>c. c\<lparr>cproc := Some p\<rparr>) h)"
  unfolding running_def cproc_upd_simps by simp

lemma acquiresleep_stuck:
  assumes "running p (hw s)" "sl_locked (sleeplocks s lk)"
  shows "acquiresleep (\<lambda>_. None) lk s = None"
proof -
  have "sleep (\<lambda>_. None) (sl_chan lk) (sl_lk lk) (s\<lparr>hw := acq (sl_lk lk) (hw s)\<rparr>) = None"
    by (subst sleep_eq [where h = "hw s" and p = p]) (use assms(1) in simp_all)
  then show ?thesis using assms by (simp add: acquiresleep_def kstep acquiresleep_loop.simps)
qed

lemma sl_step_inv:
  assumes "sl_step lk g g'" "sl_inv lk g"
  shows "sl_inv lk g'"
  using assms
proof cases
  case (enter p s)
  have r: "running p (hw (run_as p (sls_st g)))"
    using assms(2) enter by (simp add: sl_inv_def running_as)
  then have free: "\<not> sl_locked (sleeplocks (sls_st g) lk)"
    using enter acquiresleep_stuck [OF r, of lk] by auto
  then have "s = grab lk p (run_as p (sls_st g))" using enter acquiresleep_free [OF r] by simp
  with enter free assms(2) show ?thesis
    by (auto simp: sl_inv_def grab_def cproc_upd_simps asleep_on_def)
next
  case (leave p s)
  have r: "running p (hw (run_as p (sls_st g)))"
    using assms(2) leave by (simp add: sl_inv_def running_as)
  then have "s = drop_sl lk p (run_as p (sls_st g))" using leave releasesleep_ok [OF r] by simp
  with leave assms(2) show ?thesis
    by (auto simp: sl_inv_def drop_sl_def cproc_upd_simps asleep_on_def wake_def)
next
  case (block p)
  with assms(2) show ?thesis by (auto simp: sl_inv_def park_def asleep_on_def) (metis slpc.simps)
next
  case (retry p)
  with assms(2) show ?thesis by (auto simp: sl_inv_def asleep_on_def) (metis slpc.simps)
next
  case (elsewhere p c)
  with assms(2) show ?thesis by (auto simp: sl_inv_def asleep_on_def)
next
  case (preempt p)
  with assms(2) show ?thesis by (auto simp: sl_inv_def asleep_on_def)
next
  case (dispatch p)
  with assms(2) show ?thesis by (auto simp: sl_inv_def asleep_on_def)
next
  case (woken p)
  with assms(2) show ?thesis by (auto simp: sl_inv_def asleep_on_def)
qed

inductive sl_reach :: "slid \<Rightarrow> slsys \<Rightarrow> slsys \<Rightarrow> bool" for lk g0 where
  start: "sl_reach lk g0 g0"
| step: "sl_reach lk g0 g \<Longrightarrow> sl_step lk g g' \<Longrightarrow> sl_reach lk g0 g'"

lemma sl_reach_inv: "sl_reach lk g0 g \<Longrightarrow> sl_start lk g0 \<Longrightarrow> sl_inv lk g"
proof (induction rule: sl_reach.induct)
  case start
  then show ?case by (simp add: sl_start_def sl_inv_def asleep_on_def)
next
  case (step g g')
  then show ?case using sl_step_inv by blast
qed

section \<open>Properties\<close>


definition sl0 :: sl_state where
  "sl0 = proc_state.extend proc0 (sl_state.fields (\<lambda>_. \<lparr>sl_locked = False, sl_name = ''buffer'', sl_pid = 0\<rparr>))"

lemma sl0_simps [simp]:
  "hw sl0 = upd_cpu (\<lambda>c. c\<lparr>cproc := Some 1\<rparr>) hart0" "procs sl0 = table0"
  "sleeplocks sl0 = (\<lambda>_. \<lparr>sl_locked = False, sl_name = ''buffer'', sl_pid = 0\<rparr>)"
  by (simp_all add: sl0_def proc0_def proc_state.defs sl_state.defs)

lemma noff_hart0 [simp]: "noff (mycpu hart0) = 0"
  by (simp add: hart0_def lsys_init_def hart_defs)

text \<open>Process 1 gets the lock, process 2 is dispatched and parks, process 1 releases.\<close>

definition sl_hist :: "sl_state list" where
  "sl_hist = (let lk = SL_buf 0; s1 = grab lk 1 (run_as 1 sl0);
     s2 = upd_proc 2 (\<lambda>x. x\<lparr>p_state := RUNNING\<rparr>) s1; s3 = park lk 2 s2 in
     [s1, s2, s3, drop_sl lk 1 (run_as 1 s3)])"

lemma sl_hist_reach:
  "sl_reach (SL_buf 0) \<lparr>sls_st = sl0, sls_pc = (\<lambda>_. SL_out)\<rparr>
     \<lparr>sls_st = sl_hist ! 3, sls_pc = (\<lambda>_. SL_out)(2 := SL_wait)\<rparr>"
proof -
  let ?lk = "SL_buf 0" and ?O = "\<lambda>_ :: nat. SL_out"
  have r: "running 1 (upd_cpu (\<lambda>c. c\<lparr>cproc := Some 1\<rparr>) (upd_cpu (\<lambda>c. c\<lparr>cproc := Some 1\<rparr>) hart0))"
    by (intro running_as) (simp_all add: cproc_upd_simps NPROC_def)
  then have r3: "running 1 (hw (run_as 1 (sl_hist ! 2)))"
    by (simp add: sl_hist_def Let_def park_def grab_def hart_defs)
  let ?g1 = "\<lparr>sls_st = sl_hist ! 0, sls_pc = ?O(1 := SL_in)\<rparr>"
    and ?g2 = "\<lparr>sls_st = sl_hist ! 1, sls_pc = ?O(1 := SL_in)\<rparr>"
    and ?g3 = "\<lparr>sls_st = sl_hist ! 2, sls_pc = ?O(1 := SL_in, 2 := SL_wait)\<rparr>"
  have 1: "sl_step ?lk \<lparr>sls_st = sl0, sls_pc = ?O\<rparr> ?g1"
    using sl_step.enter [of "\<lparr>sls_st = sl0, sls_pc = ?O\<rparr>" 1 ?lk "sl_hist ! 0"] r
    by (simp add: kstep sl_hist_def Let_def table0_def NPROC_def)
  have 2: "sl_step ?lk ?g1 ?g2"
    using sl_step.dispatch [of ?g1 2 ?lk] by (simp add: sl_hist_def Let_def grab_def table0_def)
  have 3: "sl_step ?lk ?g2 ?g3"
    using sl_step.block [of ?g2 2 ?lk] by (simp add: sl_hist_def Let_def grab_def table0_def NPROC_def)
  have 4: "sl_step ?lk ?g3 \<lparr>sls_st = sl_hist ! 3, sls_pc = ?O(2 := SL_wait)\<rparr>"
    using sl_step.leave [of ?g3 1 ?lk "sl_hist ! 3"] releasesleep_ok [OF r3, of ?lk]
    by (simp add: sl_hist_def Let_def grab_def park_def table0_def NPROC_def fun_upd_twist fun_upd_idem)
  show ?thesis using sl_reach.start sl_reach.step 1 2 3 4 by metis
qed


end
