(* ===== verification/Virtio.thy ===== *)
theory Virtio
  imports Sleeplock
begin

unbundle bit_operations_syntax

text \<open>
  The driver of the virtio disk (kernel/virtio_disk.c, virtio.h) and the buffers it transfers
  (kernel/buf.h).

  The descriptor table, the two rings and the driver's book-keeping are arrays indexed as in the
  code. The addresses in descriptors are typed: the request header of a chain, the data of a
  buffer, the status byte of a chain. The disk itself is not code of the kernel. Its contents are
  \<open>media\<close>, the block that starts at a given sector, and \<open>dwrites\<close> lists the writes it has
  completed, in order. What the device does with a chain of descriptors is \<open>dev_serve\<close>, after the
  virtio specification; \<open>waits_for_disk\<close> says of the parameter \<open>sw\<close> of the sleeping functions that
  while a process waits for the disk, the disk serves it and raises its interrupt.

  virtio_disk_init, which needs the registers of the device, is in the theory Boot.
\<close>

section \<open>Buffers, descriptors, rings\<close>

definition BSIZE :: nat where "BSIZE = 1024"
definition NUM :: nat where "NUM = 8"
definition VRING_DESC_F_NEXT :: u16 where "VRING_DESC_F_NEXT = 1"
definition VRING_DESC_F_WRITE :: u16 where "VRING_DESC_F_WRITE = 2"
definition VIRTIO_BLK_T_IN :: u32 where "VIRTIO_BLK_T_IN = 0"
definition VIRTIO_BLK_T_OUT :: u32 where "VIRTIO_BLK_T_OUT = 1"

text \<open>The sleep lock of a buffer is \<open>SL_buf\<close> of its number.\<close>

record buf =
  b_valid :: bool
  b_disk :: bool
  b_dev :: u32
  b_blockno :: u32
  b_refcnt :: u32
  b_prev :: nat
  b_next :: nat
  b_data :: "u8 list"

datatype daddr = A_nil | A_ops nat | A_data nat | A_status nat

record virtq_desc =
  d_addr :: daddr
  d_len :: u32
  d_flags :: u16
  d_next :: u16

record virtio_blk_req =
  r_type :: u32
  r_reserved :: u32
  r_sector :: u64

record vdisk =
  v_desc :: "nat \<Rightarrow> virtq_desc"
  v_avail_ring :: "nat \<Rightarrow> u16"
  v_avail_idx :: u16
  v_used_ring :: "nat \<Rightarrow> u32"
  v_used_dev :: u16
  v_free :: "nat \<Rightarrow> bool"
  v_used_idx :: u16
  v_info_b :: "nat \<Rightarrow> nat option"
  v_info_status :: "nat \<Rightarrow> u8"
  v_ops :: "nat \<Rightarrow> virtio_blk_req"

record disk_state = sl_state +
  vdisk :: vdisk
  bufs :: "nat \<Rightarrow> buf"
  media :: "u64 \<Rightarrow> u8 list"
  dwrites :: "(u64 \<times> u8 list) list"

definition upd_vd :: "(vdisk \<Rightarrow> vdisk) \<Rightarrow> 'z disk_state_scheme \<Rightarrow> 'z disk_state_scheme" where
  "upd_vd f s = s\<lparr>vdisk := f (vdisk s)\<rparr>"

definition upd_buf :: "nat \<Rightarrow> (buf \<Rightarrow> buf) \<Rightarrow> 'z disk_state_scheme \<Rightarrow> 'z disk_state_scheme" where
  "upd_buf b f s = s\<lparr>bufs := (bufs s)(b := f (bufs s b))\<rparr>"

section \<open>The driver\<close>

definition alloc_desc :: "'z disk_state_scheme \<Rightarrow> (int \<times> 'z disk_state_scheme) option" where
  "alloc_desc s = do {
     (r, s) \<leftarrow> search_n 0 NUM (\<lambda>i s.
       if v_free (vdisk s) i then Some (Some (int i), upd_vd (\<lambda>v. v\<lparr>v_free := (v_free v)(i := False)\<rparr>) s)
       else Some (None, s)) s;
     Some (case r of Some i \<Rightarrow> i | None \<Rightarrow> -1, s) }"

definition desc0 :: virtq_desc where
  "desc0 = \<lparr>d_addr = A_nil, d_len = 0, d_flags = 0, d_next = 0\<rparr>"

definition free_desc :: "int \<Rightarrow> 'z disk_state_scheme \<Rightarrow> 'z disk_state_scheme option" where
  "free_desc i s =
    (if i \<ge> int NUM then None
     else if i < 0 then None
     else if v_free (vdisk s) (nat i) then None
     else wakeup (Some Ch_vdisk_free)
       (upd_vd (\<lambda>v. v\<lparr>v_desc := (v_desc v)(nat i := desc0), v_free := (v_free v)(nat i := True)\<rparr>) s))"

partial_function (option) free_chain :: "int \<Rightarrow> 'z disk_state_scheme \<Rightarrow> 'z disk_state_scheme option" where
  "free_chain i s = do {
     let d = v_desc (vdisk s) (nat i);
     s \<leftarrow> free_desc i s;
     if d_flags d AND VRING_DESC_F_NEXT \<noteq> 0 then free_chain (uint (d_next d)) s else Some s }"

definition alloc3_desc :: "'z disk_state_scheme \<Rightarrow> (int \<times> int list \<times> 'z disk_state_scheme) option" where
  "alloc3_desc s = do {
     (r, idx, s) \<leftarrow> search_n 0 3 (\<lambda>i (idx, s). do {
       (d, s) \<leftarrow> alloc_desc s;
       let idx = idx @ [d];
       if d < 0 then do {
         s \<leftarrow> for_n 0 i (\<lambda>j. free_desc (idx ! j)) s;
         Some (Some (-1), idx, s) }
       else Some (None, idx, s) }) ([], s);
     Some (case r of Some r \<Rightarrow> r | None \<Rightarrow> 0, idx, s) }"

partial_function (option) rw_alloc :: "('z disk_state_scheme \<Rightarrow> 'z disk_state_scheme option) \<Rightarrow> 'z disk_state_scheme
    \<Rightarrow> (int list \<times> 'z disk_state_scheme) option" where
  "rw_alloc sw s = do {
     (r, idx, s) \<leftarrow> alloc3_desc s;
     if r = 0 then Some (idx, s)
     else do {
       s \<leftarrow> sleep sw Ch_vdisk_free Lk_vdisk s;
       rw_alloc sw s } }"

text \<open>The three descriptors of a request, and its entry in the avail ring. The sector is computed
  in 32 bits.\<close>

definition rw_format :: "nat \<Rightarrow> bool \<Rightarrow> u64 \<Rightarrow> nat \<Rightarrow> nat \<Rightarrow> nat \<Rightarrow> vdisk \<Rightarrow> vdisk" where
  "rw_format b write sector i0 i1 i2 v =
    (let v = v\<lparr>v_ops := (v_ops v)(i0 := \<lparr>r_type = (if write then VIRTIO_BLK_T_OUT else VIRTIO_BLK_T_IN),
           r_reserved = 0, r_sector = sector\<rparr>)\<rparr>;
         v = v\<lparr>v_desc := (v_desc v)(i0 := \<lparr>d_addr = A_ops i0, d_len = 16, d_flags = VRING_DESC_F_NEXT,
           d_next = of_nat i1\<rparr>)\<rparr>;
         v = v\<lparr>v_desc := (v_desc v)(i1 := \<lparr>d_addr = A_data b, d_len = of_nat BSIZE,
           d_flags = (if write then 0 else VRING_DESC_F_WRITE) OR VRING_DESC_F_NEXT, d_next = of_nat i2\<rparr>)\<rparr>;
         v = v\<lparr>v_info_status := (v_info_status v)(i0 := 0xff)\<rparr>;
         v = v\<lparr>v_desc := (v_desc v)(i2 := \<lparr>d_addr = A_status i0, d_len = 1, d_flags = VRING_DESC_F_WRITE,
           d_next = 0\<rparr>)\<rparr>;
         v = v\<lparr>v_info_b := (v_info_b v)(i0 := Some b)\<rparr>;
         v = v\<lparr>v_avail_ring := (v_avail_ring v)(unat (v_avail_idx v) mod NUM := of_nat i0)\<rparr>
     in v\<lparr>v_avail_idx := v_avail_idx v + 1\<rparr>)"

definition sector_of :: "u32 \<Rightarrow> u64" where
  "sector_of bn = ucast (bn * of_nat (BSIZE div 512))"

partial_function (option) rw_wait :: "('z disk_state_scheme \<Rightarrow> 'z disk_state_scheme option) \<Rightarrow> nat \<Rightarrow> 'z disk_state_scheme
    \<Rightarrow> 'z disk_state_scheme option" where
  "rw_wait sw b s =
    (if b_disk (bufs s b) then do {
       s \<leftarrow> sleep sw (Ch_vdisk_buf b) Lk_vdisk s;
       rw_wait sw b s }
     else Some s)"

definition virtio_disk_rw :: "('z disk_state_scheme \<Rightarrow> 'z disk_state_scheme option) \<Rightarrow> nat \<Rightarrow> bool
    \<Rightarrow> 'z disk_state_scheme \<Rightarrow> 'z disk_state_scheme option" where
  "virtio_disk_rw sw b write s = do {
     let sector = sector_of (b_blockno (bufs s b));
     s \<leftarrow> lock Lk_vdisk s;
     (idx, s) \<leftarrow> rw_alloc sw s;
     let s = upd_vd (rw_format b write sector (nat (idx ! 0)) (nat (idx ! 1)) (nat (idx ! 2))) s;
     let s = upd_buf b (\<lambda>x. x\<lparr>b_disk := True\<rparr>) s;
     s \<leftarrow> rw_wait sw b s;
     let s = upd_vd (\<lambda>v. v\<lparr>v_info_b := (v_info_b v)(nat (idx ! 0) := None)\<rparr>) s;
     s \<leftarrow> free_chain (idx ! 0) s;
     unlock Lk_vdisk s }"

partial_function (option) intr_loop :: "'z disk_state_scheme \<Rightarrow> 'z disk_state_scheme option" where
  "intr_loop s =
    (if v_used_idx (vdisk s) \<noteq> v_used_dev (vdisk s) then do {
       let i = unat (v_used_ring (vdisk s) (unat (v_used_idx (vdisk s)) mod NUM));
       if v_info_status (vdisk s) i \<noteq> 0 then None
       else do {
         b \<leftarrow> v_info_b (vdisk s) i;
         let s = upd_buf b (\<lambda>x. x\<lparr>b_disk := False\<rparr>) s;
         s \<leftarrow> wakeup (Some (Ch_vdisk_buf b)) s;
         intr_loop (upd_vd (\<lambda>v. v\<lparr>v_used_idx := v_used_idx v + 1\<rparr>) s) } }
     else Some s)"

definition virtio_disk_intr :: "'z disk_state_scheme \<Rightarrow> 'z disk_state_scheme option" where
  "virtio_disk_intr s = do {
     s \<leftarrow> lock Lk_vdisk s;
     s \<leftarrow> intr_loop s;
     unlock Lk_vdisk s }"

section \<open>The device\<close>

text \<open>One chain, given by its first descriptor: transfer the block, report success, put the chain
  on the used ring.\<close>

definition dev_serve :: "nat \<Rightarrow> 'z disk_state_scheme \<Rightarrow> 'z disk_state_scheme option" where
  "dev_serve i s =
    (let v = vdisk s; d0 = v_desc v i; d1 = v_desc v (unat (d_next d0)); d2 = v_desc v (unat (d_next d1))
     in case (d_addr d0, d_addr d1, d_addr d2) of
       (A_ops k, A_data b, A_status j) \<Rightarrow>
         let r = v_ops v k;
             s = (if r_type r = VIRTIO_BLK_T_OUT
                  then s\<lparr>media := (media s)(r_sector r := b_data (bufs s b)),
                         dwrites := dwrites s @ [(r_sector r, b_data (bufs s b))]\<rparr>
                  else upd_buf b (\<lambda>x. x\<lparr>b_data := media s (r_sector r)\<rparr>) s)
         in Some (upd_vd (\<lambda>v. v\<lparr>v_info_status := (v_info_status v)(j := 0),
              v_used_ring := (v_used_ring v)(unat (v_used_dev v) mod NUM := of_nat i),
              v_used_dev := v_used_dev v + 1\<rparr>) s)
     | _ \<Rightarrow> None)"

text \<open>The requests on the avail ring that are not on the used ring yet, in order.\<close>

partial_function (option) dev_run :: "'z disk_state_scheme \<Rightarrow> 'z disk_state_scheme option" where
  "dev_run s =
    (if v_used_dev (vdisk s) \<noteq> v_avail_idx (vdisk s) then do {
       s \<leftarrow> dev_serve (unat (v_avail_ring (vdisk s) (unat (v_used_dev (vdisk s)) mod NUM))) s;
       dev_run s }
     else Some s)"

text \<open>While process p waits for its buffer, the hart is in the scheduler; the device serves the
  requests it finds and interrupts; the scheduler gets back to p.\<close>

definition disk_wait :: "nat \<Rightarrow> hart \<Rightarrow> 'z disk_state_scheme \<Rightarrow> 'z disk_state_scheme option" where
  "disk_wait p h s = do {
     let s = s\<lparr>hw := upd_cpu (\<lambda>c. c\<lparr>cproc := None\<rparr>) h\<rparr>;
     s \<leftarrow> dev_run s;
     s \<leftarrow> virtio_disk_intr s;
     if p_state (procs s p) = RUNNABLE
     then Some (upd_proc p (\<lambda>x. x\<lparr>p_state := RUNNING\<rparr>) (s\<lparr>hw := acq (Lk_proc p) h\<rparr>))
     else None }"

definition waits_for_disk :: "('z disk_state_scheme \<Rightarrow> 'z disk_state_scheme option) \<Rightarrow> bool" where
  "waits_for_disk sw \<longleftrightarrow> (\<forall>s p h b. running p h \<longrightarrow> hw s = acq (Lk_proc p) h \<longrightarrow>
     p_state (procs s p) = SLEEPING \<longrightarrow> p_chan (procs s p) = Some (Ch_vdisk_buf b) \<longrightarrow>
     sw s = disk_wait p h s)"

section \<open>A transfer\<close>

lemma upd_vd_simps [simp]:
  "hw (upd_vd f s) = hw s" "procs (upd_vd f s) = procs s" "bufs (upd_vd f s) = bufs s"
  "media (upd_vd f s) = media s" "dwrites (upd_vd f s) = dwrites s" "vdisk (upd_vd f s) = f (vdisk s)"
  "sleeplocks (upd_vd f s) = sleeplocks s"
  "(upd_vd f s)\<lparr>hw := h\<rparr> = upd_vd f (s\<lparr>hw := h\<rparr>)" "upd_vd f (upd_vd g s) = upd_vd (\<lambda>v. f (g v)) s"
  by (simp_all add: upd_vd_def)

lemma upd_buf_simps [simp]:
  "hw (upd_buf b f s) = hw s" "procs (upd_buf b f s) = procs s"
  "bufs (upd_buf b f s) = (bufs s)(b := f (bufs s b))"
  "media (upd_buf b f s) = media s" "dwrites (upd_buf b f s) = dwrites s" "vdisk (upd_buf b f s) = vdisk s"
  "sleeplocks (upd_buf b f s) = sleeplocks s"
  "(upd_buf b f s)\<lparr>hw := h\<rparr> = upd_buf b f (s\<lparr>hw := h\<rparr>)" "upd_buf b f (upd_buf b g s) = upd_buf b (\<lambda>v. f (g v)) s"
  "upd_vd k (upd_buf b f s) = upd_buf b f (upd_vd k s)"
  by (simp_all add: upd_buf_def upd_vd_def)

lemma upd_proc_disk [simp]:
  "vdisk (upd_proc p f s) = vdisk s" "bufs (upd_proc p f s) = bufs s" "media (upd_proc p f s) = media s"
  "dwrites (upd_proc p f s) = dwrites s"
  by (simp_all add: upd_proc_def)

lemma map_procs_disk [simp]:
  "vdisk (map_procs f s) = vdisk s" "bufs (map_procs f s) = bufs s" "media (map_procs f s) = media s"
  "dwrites (map_procs f s) = dwrites s"
  by (simp_all add: map_procs_def)

text \<open>Between transfers all descriptors are free and both rings are drained.\<close>

definition drained :: "vdisk \<Rightarrow> bool" where
  "drained v \<longleftrightarrow> v_used_idx v = v_used_dev v \<and> v_used_dev v = v_avail_idx v"

definition vdisk_ok :: "vdisk \<Rightarrow> bool" where
  "vdisk_ok v \<longleftrightarrow> (\<forall>i<NUM. v_free v i) \<and> drained v"

lemma NUM_simps [simp]: "0 < NUM" "Suc 0 < NUM" "1 < NUM" "2 < NUM" "Suc (Suc 0) < NUM" by (simp_all add: NUM_def)

lemma alloc_desc_first:
  assumes "v_free (vdisk s) i" "i < NUM" "\<And>j. j < i \<Longrightarrow> \<not> v_free (vdisk s) j"
  shows "alloc_desc s = Some (int i, upd_vd (\<lambda>v. v\<lparr>v_free := (v_free v)(i := False)\<rparr>) s)"
proof -
  have "search_n 0 NUM (\<lambda>i s. if v_free (vdisk s) i
      then Some (Some (int i), upd_vd (\<lambda>v. v\<lparr>v_free := (v_free v)(i := False)\<rparr>) s) else Some (None, s)) s =
    Some (Some (int i), upd_vd (\<lambda>v. v\<lparr>v_free := (v_free v)(i := False)\<rparr>) s)"
    by (rule search_n_hit [where c = i and S = "\<lambda>_. s"]) (use assms in auto)
  then show ?thesis by (simp add: alloc_desc_def)
qed

lemma alloc3_ok:
  assumes "\<And>i. i < NUM \<Longrightarrow> v_free (vdisk s) i"
  shows "alloc3_desc s = Some (0, [0, 1, 2],
    upd_vd (\<lambda>v. v\<lparr>v_free := (v_free v)(0 := False, 1 := False, 2 := False)\<rparr>) s)"
proof -
  have 3: "3 = Suc (Suc (Suc 0))" by simp
  show ?thesis
    unfolding alloc3_desc_def 3 search_n.simps
    using assms [of 0] assms [of 1] assms [of 2]
    by (simp add: alloc_desc_first [where i = 0] alloc_desc_first [where i = 1] alloc_desc_first [where i = 2]
      less_Suc_eq numeral_2_eq_2)
qed

definition woken :: "(nat \<Rightarrow> proc) \<Rightarrow> (nat \<Rightarrow> proc) \<Rightarrow> bool" where
  "woken P P' \<longleftrightarrow> (\<forall>q. P' q = P q \<or> p_state (P q) = SLEEPING \<and> P' q = (P q)\<lparr>p_state := RUNNABLE\<rparr>)"

lemma woken_refl [simp]: "woken P P"
  by (simp add: woken_def)

lemma woken_trans [trans]: "woken P Q \<Longrightarrow> woken Q R \<Longrightarrow> woken P R"
  unfolding woken_def by (metis proc.select_convs(1) proc.surjective proc.update_convs(1) procstate.distinct(19))

lemma woken_map: "woken (procs s) (procs (map_procs (wake me c) s))"
  by (auto simp: woken_def wake_def)

text \<open>What the transfer does to the buffer and the disk.\<close>

definition transfer :: "nat \<Rightarrow> bool \<Rightarrow> 'z disk_state_scheme \<Rightarrow> 'z disk_state_scheme" where
  "transfer b write s =
    (let x = sector_of (b_blockno (bufs s b)) in
     if write then s\<lparr>media := (media s)(x := b_data (bufs s b)), dwrites := dwrites s @ [(x, b_data (bufs s b))]\<rparr>
     else upd_buf b (\<lambda>y. y\<lparr>b_data := media s x\<rparr>) s)"

definition set_free :: "bool \<Rightarrow> vdisk \<Rightarrow> vdisk" where
  "set_free f v = v\<lparr>v_free := (v_free v)(0 := f, 1 := f, 2 := f)\<rparr>"

lemma rw_format_simps:
  "v_desc (rw_format b w x 0 1 2 v) 0 = \<lparr>d_addr = A_ops 0, d_len = 16, d_flags = 1, d_next = 1\<rparr>"
  "v_desc (rw_format b w x 0 1 2 v) 1 = \<lparr>d_addr = A_data b, d_len = 1024, d_flags = (if w then 1 else 3), d_next = 2\<rparr>"
  "v_desc (rw_format b w x 0 1 2 v) 2 = \<lparr>d_addr = A_status 0, d_len = 1, d_flags = 2, d_next = 0\<rparr>"
  "v_ops (rw_format b w x 0 1 2 v) 0 = \<lparr>r_type = (if w then 1 else 0), r_reserved = 0, r_sector = x\<rparr>"
  "v_avail_ring (rw_format b w x 0 1 2 v) (unat (v_avail_idx v) mod NUM) = 0"
  "v_avail_idx (rw_format b w x 0 1 2 v) = v_avail_idx v + 1"
  "v_used_dev (rw_format b w x 0 1 2 v) = v_used_dev v" "v_used_idx (rw_format b w x 0 1 2 v) = v_used_idx v"
  "v_free (rw_format b w x 0 1 2 v) = v_free v" "v_info_b (rw_format b w x 0 1 2 v) 0 = Some b"
  by (simp_all add: rw_format_def Let_def VRING_DESC_F_NEXT_def VRING_DESC_F_WRITE_def BSIZE_def
      VIRTIO_BLK_T_OUT_def VIRTIO_BLK_T_IN_def)

lemma dev_run_one:
  assumes "vdisk s = rw_format b w x 0 1 2 v" "v_used_dev v = v_avail_idx v" "x = sector_of (b_blockno (bufs s b))"
  shows "dev_run s = Some (upd_vd (\<lambda>v. v\<lparr>v_info_status := (v_info_status v)(0 := 0),
              v_used_ring := (v_used_ring v)(unat (v_used_dev v) mod NUM := 0),
              v_used_dev := v_used_dev v + 1\<rparr>) (transfer b w s))"
proof -
  have u: "unat (1 :: u16) = 1" "unat (2 :: u16) = 2" by simp_all
  have t: "vdisk (transfer b w s) = vdisk s" by (simp add: transfer_def Let_def)
  have "dev_serve 0 s = Some (upd_vd (\<lambda>v. v\<lparr>v_info_status := (v_info_status v)(0 := 0),
              v_used_ring := (v_used_ring v)(unat (v_used_dev v) mod NUM := 0),
              v_used_dev := v_used_dev v + 1\<rparr>) (transfer b w s))"
    using assms by (cases w) (simp_all add: dev_serve_def u rw_format_simps transfer_def VIRTIO_BLK_T_OUT_def
      rw_format_simps [unfolded One_nat_def] Let_def)
  moreover have "dev_run t = Some t" if "v_used_dev (vdisk t) = v_avail_idx (vdisk t)" for t :: "'a disk_state_scheme"
    using that by (subst dev_run.simps) simp
  ultimately show ?thesis
    using assms(1,2) t by (subst dev_run.simps) (simp add: rw_format_simps rw_format_simps [unfolded One_nat_def])
qed

lemma intr_one:
  assumes "hart_ok (hw s)" "\<And>l. lock_free l (hw s)" "v_used_dev (vdisk s) = v_used_idx (vdisk s) + 1"
    "v_used_ring (vdisk s) (unat (v_used_idx (vdisk s)) mod NUM) = 0" "v_info_status (vdisk s) 0 = 0"
    "v_info_b (vdisk s) 0 = Some b"
  shows "virtio_disk_intr s = Some (map_procs (wake (cproc (mycpu (hw s))) (Some (Ch_vdisk_buf b)))
    (upd_buf b (\<lambda>x. x\<lparr>b_disk := False\<rparr>) (upd_vd (\<lambda>v. v\<lparr>v_used_idx := v_used_idx v + 1\<rparr>) s)))"
proof -
  have [simp]: "plocks_free (hw s)" using assms(2) by (simp add: plocks_free_def)
  have c: "upd_vd f (map_procs g t) = map_procs g (upd_vd f t)" for f g and t :: "'a disk_state_scheme"
    by (simp add: upd_vd_def map_procs_def cong: if_cong)
  have "intr_loop t = Some t" if "v_used_idx (vdisk t) = v_used_dev (vdisk t)" for t :: "'a disk_state_scheme"
    using that by (subst intr_loop.simps) simp
  then show ?thesis unfolding virtio_disk_intr_def
    by (subst intr_loop.simps) (use assms in \<open>simp add: kstep c Let_def\<close>)
qed

lemma transfer_simps [simp]:
  "hw (transfer b w s) = hw s" "procs (transfer b w s) = procs s" "vdisk (transfer b w s) = vdisk s"
  "sleeplocks (transfer b w s) = sleeplocks s" "transfer b w (s\<lparr>hw := h\<rparr>) = (transfer b w s)\<lparr>hw := h\<rparr>"
  "b_disk (bufs (transfer b w s) c) = b_disk (bufs s c)"
  "transfer b w (s\<lparr>procs := P\<rparr>) = (transfer b w s)\<lparr>procs := P\<rparr>"
  "transfer b w (s\<lparr>vdisk := v\<rparr>) = (transfer b w s)\<lparr>vdisk := v\<rparr>"
  by (simp_all add: transfer_def Let_def upd_buf_def)

lemma intena_same: "upd_cpu (\<lambda>c. c\<lparr>intena := intena (mycpu h)\<rparr>) h = h"
  by (simp add: hart_defs)

lemma disk_wait_ok:
  assumes h: "running p h" and s: "vdisk s = rw_format b w x 0 1 2 v" "drained v" "x = sector_of (b_blockno (bufs s b))"
    and p: "p_state (procs s p) = SLEEPING" "p_chan (procs s p) = Some (Ch_vdisk_buf b)"
  shows "\<exists>P v'. disk_wait p h s = Some ((upd_buf b (\<lambda>y. y\<lparr>b_disk := False\<rparr>) (transfer b w s))\<lparr>hw := acq (Lk_proc p) h,
      procs := P, vdisk := v'\<rparr>) \<and> P p = (procs s p)\<lparr>p_state := RUNNING\<rparr> \<and> woken ((procs s)(p := P p)) P \<and>
      v_desc v' = v_desc (vdisk s) \<and> v_free v' = v_free v \<and> drained v'"
proof -
  let ?h = "upd_cpu (\<lambda>c. c\<lparr>cproc := None\<rparr>) h"
  let ?f = "\<lambda>v. v\<lparr>v_info_status := (v_info_status v)(0 := 0),
              v_used_ring := (v_used_ring v)(unat (v_used_dev v) mod NUM := 0),
              v_used_dev := v_used_dev v + 1\<rparr>"
  let ?s1 = "upd_vd ?f (transfer b w (s\<lparr>hw := ?h\<rparr>))"
  let ?s2 = "map_procs (wake None (Some (Ch_vdisk_buf b)))
    (upd_buf b (\<lambda>x. x\<lparr>b_disk := False\<rparr>) (upd_vd (\<lambda>v. v\<lparr>v_used_idx := v_used_idx v + 1\<rparr>) ?s1))"
  let ?P = "(procs ?s2)(p := (procs s p)\<lparr>p_state := RUNNING\<rparr>)"
  let ?r = "(upd_buf b (\<lambda>y. y\<lparr>b_disk := False\<rparr>) (transfer b w s))\<lparr>hw := acq (Lk_proc p) h,
      procs := ?P, vdisk := vdisk ?s2\<rparr>"
  have h': "hart_ok ?h" "\<And>l. lock_free l ?h" "cproc (mycpu ?h) = None" using h by (simp_all add: cproc_upd_simps)
  have v: "v_used_dev v = v_avail_idx v" "v_used_idx v = v_avail_idx v" using s by (auto simp: drained_def)
  have "dev_run (s\<lparr>hw := ?h\<rparr>) = Some ?s1"
    by (rule dev_run_one [OF _ v(1)]) (use s in simp_all)
  moreover have "virtio_disk_intr ?s1 = Some ?s2"
    by (subst intr_one [where b = b]) (use s(1) v h' in \<open>simp_all add: rw_format_simps rw_format_simps [unfolded One_nat_def]\<close>)
  moreover have "p_state (procs ?s2 p) = RUNNABLE" using p h by (simp add: wake_def)
  ultimately have "disk_wait p h s = Some (upd_proc p (\<lambda>x. x\<lparr>p_state := RUNNING\<rparr>) (?s2\<lparr>hw := acq (Lk_proc p) h\<rparr>))"
    by (simp add: disk_wait_def)
  also have "upd_proc p (\<lambda>x. x\<lparr>p_state := RUNNING\<rparr>) (?s2\<lparr>hw := acq (Lk_proc p) h\<rparr>) = ?r"
    by (rule disk_state.equality) (use p h in \<open>simp_all add: upd_proc_def map_procs_def upd_buf_def upd_vd_def wake_def fun_eq_iff\<close>)
  finally have "disk_wait p h s = Some ?r" .
  moreover have "woken ((procs s)(p := ?P p)) ?P" by (auto simp: woken_def wake_def)
  ultimately show ?thesis using s(1) v by (intro exI [of _ ?P] exI [of _ "vdisk ?s2"])
    (simp add: rw_format_simps rw_format_simps [unfolded One_nat_def] drained_def)
qed

lemma free_desc_ok:
  assumes "hart_ok (hw s)" "plocks_free (hw s)" "\<not> v_free (vdisk s) i" "i < NUM"
  shows "\<exists>P. free_desc (int i) s = Some (s\<lparr>procs := P, vdisk := (vdisk s)\<lparr>v_desc := (v_desc (vdisk s))(i := desc0),
     v_free := (v_free (vdisk s))(i := True)\<rparr>\<rparr>) \<and> woken (procs s) P"
proof -
  let ?t = "upd_vd (\<lambda>v. v\<lparr>v_desc := (v_desc v)(i := desc0), v_free := (v_free v)(i := True)\<rparr>) s"
  let ?P = "procs (map_procs (wake (cproc (mycpu (hw s))) (Some Ch_vdisk_free)) s)"
  have "free_desc (int i) s = Some (map_procs (wake (cproc (mycpu (hw s))) (Some Ch_vdisk_free)) ?t)"
    using assms by (simp add: free_desc_def kstep)
  also have "map_procs (wake (cproc (mycpu (hw s))) (Some Ch_vdisk_free)) ?t = s\<lparr>procs := ?P, vdisk := vdisk ?t\<rparr>"
    by (simp add: map_procs_def upd_vd_def cong: if_cong)
  finally show ?thesis using woken_map by (intro exI [of _ ?P]) simp
qed

lemma free_chain_step:
  assumes "hart_ok (hw s)" "plocks_free (hw s)" "\<not> v_free (vdisk s) i" "i < NUM"
  shows "\<exists>P. woken (procs s) P \<and> free_chain (int i) s =
    (let s' = s\<lparr>procs := P, vdisk := (vdisk s)\<lparr>v_desc := (v_desc (vdisk s))(i := desc0),
         v_free := (v_free (vdisk s))(i := True)\<rparr>\<rparr>; d = v_desc (vdisk s) i
     in if d_flags d AND VRING_DESC_F_NEXT \<noteq> 0 then free_chain (uint (d_next d)) s' else Some s')"
  using free_desc_ok [OF assms] by (subst free_chain.simps) (auto simp: Let_def)

lemma free_chain_ok:
  assumes h: "hart_ok (hw s)" "plocks_free (hw s)" and f: "\<And>i. i < 3 \<Longrightarrow> \<not> v_free (vdisk s) i"
    and d: "v_desc (vdisk s) = v_desc (rw_format b w x 0 1 2 v)"
  shows "\<exists>P d. free_chain 0 s = Some (s\<lparr>procs := P, vdisk := set_free True ((vdisk s)\<lparr>v_desc := d\<rparr>)\<rparr>) \<and> woken (procs s) P"
proof -
  have fl: "(1 :: u16) AND 1 \<noteq> 0" "(3 :: u16) AND 1 \<noteq> 0" "(2 :: u16) AND 1 = 0" by simp_all
  have u: "uint (1 :: u16) = 1" "uint (2 :: u16) = 2" by simp_all
  obtain P1 where 1: "woken (procs s) P1" "free_chain 0 s = free_chain 1 (s\<lparr>procs := P1, vdisk :=
      (vdisk s)\<lparr>v_desc := (v_desc (vdisk s))(0 := desc0), v_free := (v_free (vdisk s))(0 := True)\<rparr>\<rparr>)"
    using free_chain_step [OF h f [of 0]] d by (auto simp: rw_format_simps rw_format_simps [unfolded One_nat_def] VRING_DESC_F_NEXT_def)
  let ?s1 = "s\<lparr>procs := P1, vdisk :=
      (vdisk s)\<lparr>v_desc := (v_desc (vdisk s))(0 := desc0), v_free := (v_free (vdisk s))(0 := True)\<rparr>\<rparr>"
  obtain P2 where 2: "woken P1 P2" "free_chain 1 ?s1 = free_chain 2 (s\<lparr>procs := P2, vdisk :=
      (vdisk s)\<lparr>v_desc := (v_desc (vdisk s))(0 := desc0, 1 := desc0), v_free := (v_free (vdisk s))(0 := True, 1 := True)\<rparr>\<rparr>)"
    using free_chain_step [of ?s1 1] f [of 1] d h fl u
    by (cases w) (auto simp: rw_format_simps rw_format_simps [unfolded One_nat_def] VRING_DESC_F_NEXT_def)
  let ?s2 = "s\<lparr>procs := P2, vdisk :=
      (vdisk s)\<lparr>v_desc := (v_desc (vdisk s))(0 := desc0, 1 := desc0), v_free := (v_free (vdisk s))(0 := True, 1 := True)\<rparr>\<rparr>"
  obtain P3 where 3: "woken P2 P3" "free_chain 2 ?s2 = Some (s\<lparr>procs := P3, vdisk :=
      (vdisk s)\<lparr>v_desc := (v_desc (vdisk s))(0 := desc0, 1 := desc0, 2 := desc0),
        v_free := (v_free (vdisk s))(0 := True, 1 := True, 2 := True)\<rparr>\<rparr>)"
    using free_chain_step [of ?s2 2] f [of 2] d h fl
    by (auto simp: rw_format_simps rw_format_simps [unfolded One_nat_def] VRING_DESC_F_NEXT_def)
  have "woken (procs s) P3" using 1(1) 2(1) 3(1) woken_trans by blast
  moreover have "free_chain 0 s = Some (s\<lparr>procs := P3, vdisk := set_free True
      ((vdisk s)\<lparr>v_desc := (v_desc (vdisk s))(0 := desc0, 1 := desc0, 2 := desc0)\<rparr>)\<rparr>)"
    unfolding 1(2) 2(2) 3(2) by (simp add: set_free_def)
  ultimately show ?thesis by blast
qed

text \<open>The contract of virtio_disk_rw.\<close>

lemma virtio_disk_rw_ok:
  assumes sw: "waits_for_disk sw" and s: "running p (hw s)" "p_state (procs s p) = RUNNING" "p_chan (procs s p) = None"
    and v: "vdisk_ok (vdisk s)" "\<not> b_disk (bufs s b)"
  obtains P v where "virtio_disk_rw sw b w s = Some ((transfer b w s)\<lparr>procs := P, vdisk := v\<rparr>)"
    "woken (procs s) P" "vdisk_ok v"
proof -
  let ?h = "hw s" and ?x = "sector_of (b_blockno (bufs s b))"
  let ?v = "rw_format b w ?x 0 1 2 (set_free False (vdisk s))"
  let ?s1 = "(upd_buf b (\<lambda>y. y\<lparr>b_disk := True\<rparr>) s)\<lparr>hw := acq Lk_vdisk ?h, vdisk := ?v\<rparr>"
  let ?s2 = "upd_proc p (\<lambda>y. y\<lparr>p_chan := Some (Ch_vdisk_buf b), p_state := SLEEPING\<rparr>) (?s1\<lparr>hw := acq (Lk_proc p) ?h\<rparr>)"
  have alloc: "alloc3_desc (s\<lparr>hw := acq Lk_vdisk ?h\<rparr>) = Some (0, [0, 1, 2], (s\<lparr>hw := acq Lk_vdisk ?h, vdisk := set_free False (vdisk s)\<rparr>))"
    using v(1) by (subst alloc3_ok) (simp_all add: vdisk_ok_def upd_vd_def set_free_def)
  have d: "drained (set_free False (vdisk s))" using v(1) by (simp add: vdisk_ok_def set_free_def drained_def)
  have "\<exists>P v'. disk_wait p ?h ?s2 = Some ((upd_buf b (\<lambda>y. y\<lparr>b_disk := False\<rparr>) (transfer b w ?s2))\<lparr>hw := acq (Lk_proc p) ?h,
      procs := P, vdisk := v'\<rparr>) \<and> P p = (procs ?s2 p)\<lparr>p_state := RUNNING\<rparr> \<and> woken ((procs ?s2)(p := P p)) P \<and>
      v_desc v' = v_desc (vdisk ?s2) \<and> v_free v' = v_free (set_free False (vdisk s)) \<and> drained v'"
    by (rule disk_wait_ok) (use s(1) d in simp_all)
  then obtain P1 v1 where w: "disk_wait p ?h ?s2 = Some ((upd_buf b (\<lambda>y. y\<lparr>b_disk := False\<rparr>) (transfer b w ?s2))\<lparr>hw := acq (Lk_proc p) ?h,
      procs := P1, vdisk := v1\<rparr>)" "P1 p = (procs ?s2 p)\<lparr>p_state := RUNNING\<rparr>" "woken ((procs ?s2)(p := P1 p)) P1"
      "v_desc v1 = v_desc (vdisk ?s2)" "v_free v1 = v_free (set_free False (vdisk s))" "drained v1" by blast
  let ?P1 = "P1(p := procs s p)"
  let ?s3 = "(transfer b w s)\<lparr>hw := acq Lk_vdisk ?h, procs := ?P1, vdisk := v1\<rparr>"
  have sw2: "sw ?s2 = disk_wait p ?h ?s2"
    using sw [unfolded waits_for_disk_def, rule_format, of p ?h ?s2 b] s(1) by simp
  let ?r = "(upd_buf b (\<lambda>y. y\<lparr>b_disk := False\<rparr>) (transfer b w ?s2))\<lparr>hw := acq (Lk_proc p) ?h, procs := P1, vdisk := v1\<rparr>"
  have r: "(upd_proc p (\<lambda>y. y\<lparr>p_chan := None\<rparr>) ?r)\<lparr>hw := acq Lk_vdisk ?h\<rparr> = ?s3"
    by (rule disk_state.equality)
      (use s v w(2) in \<open>simp_all add: transfer_def Let_def upd_buf_def upd_proc_def fun_eq_iff split: if_splits\<close>)
  have "sleep sw (Ch_vdisk_buf b) Lk_vdisk ?s1 = Some ((upd_proc p (\<lambda>y. y\<lparr>p_chan := None\<rparr>) ?r)\<lparr>hw := acq Lk_vdisk ?h\<rparr>)"
    by (subst sleep_eq [where h = ?h and p = p]) (use s sw2 w(1) in \<open>simp_all add: kstep intena_same\<close>)
  then have "sleep sw (Ch_vdisk_buf b) Lk_vdisk ?s1 = Some ?s3" unfolding r .
  moreover have "\<not> b_disk (bufs ?s3 b)" using v by simp
  ultimately have wt: "rw_wait sw b ?s1 = Some ?s3"
    by (subst rw_wait.simps, simp) (subst rw_wait.simps, simp)
  let ?v4 = "v1\<lparr>v_info_b := (v_info_b v1)(0 := None)\<rparr>"
  let ?s4 = "(transfer b w s)\<lparr>hw := acq Lk_vdisk ?h, procs := ?P1, vdisk := ?v4\<rparr>"
  have f: "\<not> v_free (vdisk ?s4) i" if "i < 3" for i
    using that w(5) by (auto simp: set_free_def less_Suc_eq numeral_3_eq_3)
  have "\<exists>P d. free_chain 0 ?s4 = Some (?s4\<lparr>procs := P, vdisk := set_free True ((vdisk ?s4)\<lparr>v_desc := d\<rparr>)\<rparr>) \<and> woken (procs ?s4) P"
    by (rule free_chain_ok [OF _ _ f, where b = b and w = w and x = ?x and v = "set_free False (vdisk s)"])
      (use s(1) w(4) in \<open>simp_all add: plocks_free_acq\<close>)
  then obtain P2 d2 where f4: "free_chain 0 ?s4 = Some (?s4\<lparr>procs := P2, vdisk := set_free True (?v4\<lparr>v_desc := d2\<rparr>)\<rparr>)"
    "woken ?P1 P2" by auto
  let ?v5 = "set_free True (?v4\<lparr>v_desc := d2\<rparr>)"
  have ra: "rw_alloc sw (s\<lparr>hw := acq Lk_vdisk ?h\<rparr>) = Some ([0, 1, 2], s\<lparr>hw := acq Lk_vdisk ?h, vdisk := set_free False (vdisk s)\<rparr>)"
    by (subst rw_alloc.simps) (simp add: alloc)
  have s1: "upd_buf b (\<lambda>x. x\<lparr>b_disk := True\<rparr>) (upd_vd (rw_format b w ?x 0 1 2) (s\<lparr>hw := acq Lk_vdisk ?h, vdisk := set_free False (vdisk s)\<rparr>)) = ?s1"
    by (simp add: upd_buf_def upd_vd_def)
  have s4: "upd_vd (\<lambda>v. v\<lparr>v_info_b := (v_info_b v)(0 := None)\<rparr>) ?s3 = ?s4" by (simp add: upd_vd_def)
  have "virtio_disk_rw sw b w s = unlock Lk_vdisk (?s4\<lparr>procs := P2, vdisk := ?v5\<rparr>)"
    using s(1) by (simp add: virtio_disk_rw_def kstep ra s1 [unfolded One_nat_def]
        wt [unfolded One_nat_def] s4 f4(1) del: upd_vd_simps upd_buf_simps)
  also have "\<dots> = Some ((transfer b w s)\<lparr>procs := P2, vdisk := ?v5\<rparr>)"
    using s(1) by (subst unlock_ok [where h = ?h]) simp_all
  finally have "virtio_disk_rw sw b w s = Some ((transfer b w s)\<lparr>procs := P2, vdisk := ?v5\<rparr>)" .
  moreover have "woken (procs s) ?P1" using w(3) s(2,3) by (auto simp: woken_def split: if_splits)
  then have "woken (procs s) P2" using f4(2) woken_trans by blast
  moreover have "vdisk_ok ?v5" using v(1) w(5,6) by (simp add: vdisk_ok_def drained_def set_free_def)
  ultimately show ?thesis by (rule that)
qed

section \<open>Property\<close>

text \<open>A disk that satisfies the hypothesis.\<close>

definition sw_disk :: "'z disk_state_scheme \<Rightarrow> 'z disk_state_scheme option" where
  "sw_disk s = do {
     p \<leftarrow> cproc (mycpu (hw s));
     t \<leftarrow> unlock (Lk_proc p) s;
     disk_wait p (hw t) s }"

lemma waits_sw_disk [simp]: "waits_for_disk sw_disk"
  unfolding waits_for_disk_def
proof (intro allI impI)
  fix s :: "'a disk_state_scheme" and p h b
  assume a: "running p h" "hw s = acq (Lk_proc p) h"
  then have "unlock (Lk_proc p) s = Some (s\<lparr>hw := h\<rparr>)" by (intro unlock_ok) simp_all
  with a show "sw_disk s = disk_wait p h s" by (simp add: sw_disk_def)
qed


definition disk0 :: disk_state where
  "disk0 = sl_state.extend sl0 (disk_state.fields
     \<lparr>v_desc = (\<lambda>_. desc0), v_avail_ring = (\<lambda>_. 0), v_avail_idx = 0, v_used_ring = (\<lambda>_. 0), v_used_dev = 0,
       v_free = (\<lambda>_. True), v_used_idx = 0, v_info_b = (\<lambda>_. None), v_info_status = (\<lambda>_. 0),
       v_ops = (\<lambda>_. \<lparr>r_type = 0, r_reserved = 0, r_sector = 0\<rparr>)\<rparr>
     (\<lambda>i. \<lparr>b_valid = False, b_disk = False, b_dev = 0, b_blockno = 0, b_refcnt = 0, b_prev = 0, b_next = 0,
       b_data = replicate BSIZE 0\<rparr>)
     (\<lambda>x. replicate BSIZE (ucast x)) [])"

lemma disk0_simps [simp]:
  "hw disk0 = hw sl0" "procs disk0 = table0" "sleeplocks disk0 = sleeplocks sl0" "vdisk_ok (vdisk disk0)"
  "media disk0 = (\<lambda>x. replicate BSIZE (ucast x))" "b_disk (bufs disk0 i) = False" "b_blockno (bufs disk0 i) = 0"
  by (simp_all add: disk0_def sl_state.defs disk_state.defs sl0_def proc0_def proc_state.defs vdisk_ok_def drained_def)

lemma running_sl0: "running 1 (upd_cpu (\<lambda>c. c\<lparr>cproc := Some 1\<rparr>) hart0)"
  by (intro running_as) (simp_all add: NPROC_def)

lemmas running_sl0' [simp] = running_sl0 [unfolded One_nat_def]

lemma table0_1 [simp]: "p_state (table0 (Suc 0)) = RUNNING" "p_chan (table0 (Suc 0)) = None" "p_pid (table0 (Suc 0)) = 2"
  by (simp_all add: table0_def proc_nil_def)


end
