(* ===== verification/Bio.thy ===== *)
theory Bio
  imports Virtio
begin

text \<open>
  The buffer cache (kernel/bio.c).

  The buffers are numbered; the list head bcache.head is number NBUF. The doubly linked list is
  kept as in the code, in the \<open>b_next\<close> and \<open>b_prev\<close> of the buffers. \<open>lru\<close> relates it to the list of
  buffers from most to least recently used, and \<open>view\<close> is the contents of a block as the file system
  sees it, cached or not.
\<close>

section \<open>Operations\<close>

definition NBUF :: nat where "NBUF = 30"
definition ROOTDEV :: u32 where "ROOTDEV = 1"

definition binit_link :: "nat \<Rightarrow> 'z disk_state_scheme \<Rightarrow> 'z disk_state_scheme" where
  "binit_link b s =
    (let s = upd_buf b (\<lambda>x. x\<lparr>b_next := b_next (bufs s NBUF)\<rparr>) s;
         s = upd_buf b (\<lambda>x. x\<lparr>b_prev := NBUF\<rparr>) s;
         s = initsleeplock (SL_buf b) ''buffer'' s;
         s = upd_buf (b_next (bufs s NBUF)) (\<lambda>x. x\<lparr>b_prev := b\<rparr>) s
     in upd_buf NBUF (\<lambda>x. x\<lparr>b_next := b\<rparr>) s)"

definition binit :: "'z disk_state_scheme \<Rightarrow> 'z disk_state_scheme option" where
  "binit s =
    (let s = s\<lparr>hw := initlock Lk_bcache ''bcache'' (hw s)\<rparr>;
         s = upd_buf NBUF (\<lambda>x. x\<lparr>b_prev := NBUF\<rparr>) s;
         s = upd_buf NBUF (\<lambda>x. x\<lparr>b_next := NBUF\<rparr>) s
     in for_n 0 NBUF (\<lambda>b s. Some (binit_link b s)) s)"

text \<open>The two scans of bget: for the block from the head on, for a buffer to recycle from the tail on.\<close>

partial_function (option) bget_hit :: "u32 \<Rightarrow> u32 \<Rightarrow> (nat \<Rightarrow> buf) \<Rightarrow> nat \<Rightarrow> nat option option" where
  "bget_hit dev blockno B b =
    (if b = NBUF then Some None
     else if b_dev (B b) = dev \<and> b_blockno (B b) = blockno then Some (Some b)
     else bget_hit dev blockno B (b_next (B b)))"

partial_function (option) bget_free :: "(nat \<Rightarrow> buf) \<Rightarrow> nat \<Rightarrow> nat option option" where
  "bget_free B b =
    (if b = NBUF then Some None
     else if b_refcnt (B b) = 0 then Some (Some b)
     else bget_free B (b_prev (B b)))"

definition bget :: "('z disk_state_scheme \<Rightarrow> 'z disk_state_scheme option) \<Rightarrow> u32 \<Rightarrow> u32
    \<Rightarrow> 'z disk_state_scheme \<Rightarrow> (nat \<times> 'z disk_state_scheme) option" where
  "bget sw dev blockno s = do {
     s \<leftarrow> lock Lk_bcache s;
     r \<leftarrow> bget_hit dev blockno (bufs s) (b_next (bufs s NBUF));
     case r of
       Some b \<Rightarrow> do {
         let s = upd_buf b (\<lambda>x. x\<lparr>b_refcnt := b_refcnt x + 1\<rparr>) s;
         s \<leftarrow> unlock Lk_bcache s;
         s \<leftarrow> acquiresleep sw (SL_buf b) s;
         Some (b, s) }
     | None \<Rightarrow> do {
         r \<leftarrow> bget_free (bufs s) (b_prev (bufs s NBUF));
         b \<leftarrow> r;
         let s = upd_buf b (\<lambda>x. x\<lparr>b_dev := dev, b_blockno := blockno, b_valid := False, b_refcnt := 1\<rparr>) s;
         s \<leftarrow> unlock Lk_bcache s;
         s \<leftarrow> acquiresleep sw (SL_buf b) s;
         Some (b, s) } }"

definition bread :: "('z disk_state_scheme \<Rightarrow> 'z disk_state_scheme option) \<Rightarrow> u32 \<Rightarrow> u32
    \<Rightarrow> 'z disk_state_scheme \<Rightarrow> (nat \<times> 'z disk_state_scheme) option" where
  "bread sw dev blockno s = do {
     (b, s) \<leftarrow> bget sw dev blockno s;
     s \<leftarrow> (if \<not> b_valid (bufs s b) then do {
         s \<leftarrow> virtio_disk_rw sw b False s;
         Some (upd_buf b (\<lambda>x. x\<lparr>b_valid := True\<rparr>) s) }
       else Some s);
     Some (b, s) }"

definition bwrite :: "('z disk_state_scheme \<Rightarrow> 'z disk_state_scheme option) \<Rightarrow> nat
    \<Rightarrow> 'z disk_state_scheme \<Rightarrow> 'z disk_state_scheme option" where
  "bwrite sw b s = do {
     (h, s) \<leftarrow> holdingsleep (SL_buf b) s;
     if \<not> h then None
     else virtio_disk_rw sw b True s }"

definition set_prev :: "nat \<Rightarrow> nat \<Rightarrow> (nat \<Rightarrow> buf) \<Rightarrow> nat \<Rightarrow> buf" where
  "set_prev i v B = B(i := (B i)\<lparr>b_prev := v\<rparr>)"

definition set_next :: "nat \<Rightarrow> nat \<Rightarrow> (nat \<Rightarrow> buf) \<Rightarrow> nat \<Rightarrow> buf" where
  "set_next i v B = B(i := (B i)\<lparr>b_next := v\<rparr>)"

definition move_to_front :: "nat \<Rightarrow> (nat \<Rightarrow> buf) \<Rightarrow> nat \<Rightarrow> buf" where
  "move_to_front b B =
    (let B = set_prev (b_next (B b)) (b_prev (B b)) B;
         B = set_next (b_prev (B b)) (b_next (B b)) B;
         B = set_next b (b_next (B NBUF)) B;
         B = set_prev b NBUF B;
         B = set_prev (b_next (B NBUF)) b B
     in set_next NBUF b B)"

definition brelse :: "nat \<Rightarrow> 'z disk_state_scheme \<Rightarrow> 'z disk_state_scheme option" where
  "brelse b s = do {
     (h, s) \<leftarrow> holdingsleep (SL_buf b) s;
     if \<not> h then None
     else do {
       s \<leftarrow> releasesleep (SL_buf b) s;
       s \<leftarrow> lock Lk_bcache s;
       let s = upd_buf b (\<lambda>x. x\<lparr>b_refcnt := b_refcnt x - 1\<rparr>) s;
       let s = (if b_refcnt (bufs s b) = 0 then s\<lparr>bufs := move_to_front b (bufs s)\<rparr> else s);
       unlock Lk_bcache s } }"

definition bpin :: "nat \<Rightarrow> 'z disk_state_scheme \<Rightarrow> 'z disk_state_scheme option" where
  "bpin b s = do {
     s \<leftarrow> lock Lk_bcache s;
     unlock Lk_bcache (upd_buf b (\<lambda>x. x\<lparr>b_refcnt := b_refcnt x + 1\<rparr>) s) }"

definition bunpin :: "nat \<Rightarrow> 'z disk_state_scheme \<Rightarrow> 'z disk_state_scheme option" where
  "bunpin b s = do {
     s \<leftarrow> lock Lk_bcache s;
     unlock Lk_bcache (upd_buf b (\<lambda>x. x\<lparr>b_refcnt := b_refcnt x - 1\<rparr>) s) }"

section \<open>The list of buffers\<close>

text \<open>\<open>lpath f x ys z\<close>: the links f lead from x through ys to z.\<close>

primrec lpath :: "(nat \<Rightarrow> nat) \<Rightarrow> nat \<Rightarrow> nat list \<Rightarrow> nat \<Rightarrow> bool" where
  "lpath f x [] z \<longleftrightarrow> f x = z"
| "lpath f x (y # ys) z \<longleftrightarrow> f x = y \<and> lpath f y ys z"

definition lru :: "(nat \<Rightarrow> buf) \<Rightarrow> nat list \<Rightarrow> bool" where
  "lru B xs \<longleftrightarrow> lpath (\<lambda>b. b_next (B b)) NBUF xs NBUF \<and> lpath (\<lambda>b. b_prev (B b)) NBUF (rev xs) NBUF \<and>
     distinct xs \<and> set xs = {..<NBUF}"

lemma path_cong: "(\<And>b. b \<in> set (x # ys) \<Longrightarrow> f b = g b) \<Longrightarrow> lpath f x ys z = lpath g x ys z"
  by (induction ys arbitrary: x) auto

lemma path_upd [simp]: "a \<notin> set (x # ys) \<Longrightarrow> lpath (f(a := v)) x ys z = lpath f x ys z"
  by (rule path_cong) auto

lemma path_if [simp]: "a \<notin> set (x # ys) \<Longrightarrow> lpath (\<lambda>b. if b = a then v else f b) x ys z = lpath f x ys z"
  by (rule path_cong) auto

lemma path_append: "lpath f x (ys @ y # zs) z \<longleftrightarrow> lpath f x ys y \<and> lpath f y zs z"
  by (induction ys arbitrary: x) auto

lemma bget_hit_path:
  assumes "lpath (\<lambda>b. b_next (B b)) x xs NBUF" "NBUF \<notin> set xs"
  shows "bget_hit dev bn B (b_next (B x)) = Some (find (\<lambda>b. b_dev (B b) = dev \<and> b_blockno (B b) = bn) xs)"
  using assms by (induction xs arbitrary: x) (auto simp: bget_hit.simps)

lemma bget_free_path:
  assumes "lpath (\<lambda>b. b_prev (B b)) x xs NBUF" "NBUF \<notin> set xs"
  shows "bget_free B (b_prev (B x)) = Some (find (\<lambda>b. b_refcnt (B b) = 0) xs)"
  using assms by (induction xs arbitrary: x) (auto simp: bget_free.simps)

lemma lruD:
  assumes "lru B xs"
  shows "distinct xs" "set xs = {..<NBUF}" "NBUF \<notin> set xs" "NBUF \<notin> set (rev xs)"
    "lpath (\<lambda>b. b_next (B b)) NBUF xs NBUF" "lpath (\<lambda>b. b_prev (B b)) NBUF (rev xs) NBUF"
  using assms by (auto simp: lru_def)

lemma bget_scans:
  assumes "lru B xs"
  shows "bget_hit dev bn B (b_next (B NBUF)) = Some (find (\<lambda>b. b_dev (B b) = dev \<and> b_blockno (B b) = bn) xs)"
    "bget_free B (b_prev (B NBUF)) = Some (find (\<lambda>b. b_refcnt (B b) = 0) (rev xs))"
  using lruD [OF assms] bget_hit_path bget_free_path by blast+

text \<open>Taking an element out of a lpath, adding one at its front, adding one at its end.\<close>

lemma path_unlink:
  "lpath f x (ys @ b # zs) z \<Longrightarrow> distinct (x # ys @ b # zs) \<Longrightarrow> lpath (f(last (x # ys) := f b)) x (ys @ zs) z"
proof (induction ys arbitrary: x)
  case Nil
  then show ?case by (cases zs) auto
next
  case (Cons y ys)
  have "lpath (f(last (y # ys) := f b)) y (ys @ zs) z" by (rule Cons.IH) (use Cons.prems in auto)
  moreover have "last (y # ys) \<noteq> x" using Cons.prems(2) last_in_set [of "y # ys"] by auto
  ultimately show ?case using Cons.prems by (auto simp: fun_upd_def)
qed

lemma path_front: "lpath f x xs z \<Longrightarrow> b \<notin> set (x # xs) \<Longrightarrow> x \<notin> set xs \<Longrightarrow> lpath (f(b := f x, x := b)) x (b # xs) z"
  by (cases xs) auto

lemma path_snoc:
  "lpath f x xs z \<Longrightarrow> distinct (x # xs) \<Longrightarrow> b \<notin> set (x # xs) \<Longrightarrow> lpath (f(last (x # xs) := b, b := z)) x (xs @ [b]) z"
proof (induction xs arbitrary: x)
  case Nil
  then show ?case by simp
next
  case (Cons y ys)
  have "lpath (f(last (y # ys) := b, b := z)) y (ys @ [b]) z" by (rule Cons.IH) (use Cons.prems in auto)
  moreover have "last (y # ys) \<noteq> x" using Cons.prems(2) last_in_set [of "y # ys"] by auto
  ultimately show ?case using Cons.prems by (auto simp: fun_upd_def)
qed

lemma path_first: "lpath f x xs z \<Longrightarrow> f x = hd (xs @ [z])"
  by (cases xs) auto

lemma set_link_simps [simp]:
  "b_valid (set_prev j v B i) = b_valid (B i)" "b_disk (set_prev j v B i) = b_disk (B i)"
  "b_dev (set_prev j v B i) = b_dev (B i)" "b_blockno (set_prev j v B i) = b_blockno (B i)"
  "b_refcnt (set_prev j v B i) = b_refcnt (B i)" "b_data (set_prev j v B i) = b_data (B i)"
  "b_valid (set_next j v B i) = b_valid (B i)" "b_disk (set_next j v B i) = b_disk (B i)"
  "b_dev (set_next j v B i) = b_dev (B i)" "b_blockno (set_next j v B i) = b_blockno (B i)"
  "b_refcnt (set_next j v B i) = b_refcnt (B i)" "b_data (set_next j v B i) = b_data (B i)"
  "b_next (set_prev j v B i) = b_next (B i)" "b_prev (set_next j v B i) = b_prev (B i)"
  "b_next (set_next j v B i) = (if i = j then v else b_next (B i))"
  "b_prev (set_prev j v B i) = (if i = j then v else b_prev (B i))"
  by (simp_all add: set_prev_def set_next_def)

lemma move_to_front_simps [simp]:
  "b_valid (move_to_front b B i) = b_valid (B i)" "b_disk (move_to_front b B i) = b_disk (B i)"
  "b_dev (move_to_front b B i) = b_dev (B i)" "b_blockno (move_to_front b B i) = b_blockno (B i)"
  "b_refcnt (move_to_front b B i) = b_refcnt (B i)" "b_data (move_to_front b B i) = b_data (B i)"
  by (simp_all add: move_to_front_def Let_def)

lemma move_to_front_lru:
  assumes "lru B xs" "b < NBUF"
  shows "lru (move_to_front b B) (b # remove1 b xs)"
proof -
  note l = lruD [OF assms(1)]
  obtain ys zs where xs: "xs = ys @ b # zs" "b \<notin> set ys" using l(2) assms(2) split_list_first [of b xs] by auto
  let ?n = "\<lambda>i. b_next (B i)" and ?p = "\<lambda>i. b_prev (B i)"
  have d: "distinct (NBUF # ys @ b # zs)" "distinct (NBUF # rev zs @ b # rev ys)" using l(1,3) xs by auto
  have n: "lpath ?n NBUF (ys @ b # zs) NBUF" and p: "lpath ?p NBUF (rev zs @ b # rev ys) NBUF" using l(5,6) xs by simp_all
  have q: "?p b = last (NBUF # ys)" "?n b = last (NBUF # rev zs)"
    using path_first [of ?p b "rev ys" NBUF] path_first [of ?n b zs NBUF] n p
    by (simp_all add: path_append hd_append hd_rev last_rev)
  have n1: "lpath (?n(?p b := ?n b)) NBUF (ys @ zs) NBUF" using path_unlink [OF n d(1)] q by simp
  have p1: "lpath (?p(?n b := ?p b)) NBUF (rev (ys @ zs)) NBUF" using path_unlink [OF p d(2)] q by simp
  let ?n1 = "?n(?p b := ?n b)" and ?p1 = "?p(?n b := ?p b)"
  have f: "?n1 NBUF = last (NBUF # rev (ys @ zs))" using path_first [OF n1] by (auto simp: last_rev hd_append)
  have b: "b \<noteq> NBUF" using assms(2) by simp
  have bn: "?p b \<noteq> b" using q d(1) last_in_set [of "NBUF # ys"] by (auto split: if_splits)
  have "(\<lambda>i. b_next (move_to_front b B i)) = ?n1(b := ?n1 NBUF, NBUF := b)"
    using b bn by (auto simp: move_to_front_def Let_def fun_eq_iff)
  moreover have fb: "?n1 NBUF \<noteq> b"
    using f d(1) last_in_set [of "NBUF # rev (ys @ zs)"] by (auto simp del: last.simps fun_upd_apply)
  then have "(\<lambda>i. b_prev (move_to_front b B i)) = ?p1(?n1 NBUF := b, b := NBUF)"
    using b bn by (auto simp: move_to_front_def Let_def fun_eq_iff)
  moreover have "lpath (?n1(b := ?n1 NBUF, NBUF := b)) NBUF (b # ys @ zs) NBUF"
    by (rule path_front [OF n1]) (use d(1) in auto)
  moreover have "lpath (?p1(?n1 NBUF := b, b := NBUF)) NBUF (rev (ys @ zs) @ [b]) NBUF"
    unfolding f by (rule path_snoc [OF p1]) (use d(1) in auto)
  moreover have "remove1 b xs = ys @ zs" using xs by (simp add: remove1_append)
  moreover have "distinct (b # ys @ zs)" "set (b # ys @ zs) = {..<NBUF}" using l(1,2) xs by auto
  ultimately show ?thesis by (simp add: lru_def)
qed

section \<open>The cache of one process\<close>

text \<open>
  The state of the cache while process p is the only one that uses it. xs is the order of the
  buffers, most recently used first; Q is the set of pinned buffers. A buffer's reference count is
  one for being locked and one for being pinned; an unlocked buffer that is not pinned holds what
  is on the disk; no block is cached twice.
\<close>

definition locked_bufs :: "'z disk_state_scheme \<Rightarrow> nat set" where
  "locked_bufs s = {i. i < NBUF \<and> sl_locked (sleeplocks s (SL_buf i))}"

definition buf_ok :: "nat \<Rightarrow> nat set \<Rightarrow> 'z disk_state_scheme \<Rightarrow> nat \<Rightarrow> bool" where
  "buf_ok p Q s i \<longleftrightarrow> (let b = bufs s i in
     \<not> b_disk b \<and> length (b_data b) = BSIZE \<and>
     b_refcnt b = of_bool (i \<in> locked_bufs s) + of_bool (i \<in> Q) \<and>
     (i \<in> locked_bufs s \<longrightarrow> sl_pid (sleeplocks s (SL_buf i)) = p_pid (procs s p)) \<and>
     (i \<in> locked_bufs s \<or> i \<in> Q \<longrightarrow> b_valid b) \<and>
     (b_valid b \<longleftrightarrow> b_dev b = ROOTDEV) \<and> (b_valid b \<longrightarrow> b_blockno b < 0x80000000) \<and>
     (b_valid b \<longrightarrow> i \<notin> locked_bufs s \<longrightarrow> i \<notin> Q \<longrightarrow> b_data b = media s (sector_of (b_blockno b))))"

definition uncopied :: "(nat \<Rightarrow> buf) \<Rightarrow> bool" where
  "uncopied B \<longleftrightarrow> (\<forall>i<NBUF. \<forall>j<NBUF. b_valid (B i) \<longrightarrow> b_valid (B j) \<longrightarrow> b_blockno (B i) = b_blockno (B j) \<longrightarrow> i = j)"

definition bio_ok :: "nat \<Rightarrow> nat set \<Rightarrow> nat list \<Rightarrow> 'z disk_state_scheme \<Rightarrow> bool" where
  "bio_ok p Q xs s \<longleftrightarrow> running p (hw s) \<and> p_state (procs s p) = RUNNING \<and> p_chan (procs s p) = None \<and>
     vdisk_ok (vdisk s) \<and> lru (bufs s) xs \<and> Q \<subseteq> {..<NBUF} \<and> (\<forall>i<NBUF. buf_ok p Q s i) \<and> uncopied (bufs s) \<and>
     (\<forall>x. length (media s x) = BSIZE)"

definition view :: "'z disk_state_scheme \<Rightarrow> u32 \<Rightarrow> u8 list" where
  "view s bn = (if bn < 0x80000000 then
     (case find (\<lambda>i. b_valid (bufs s i) \<and> b_blockno (bufs s i) = bn) [0..<NBUF] of
        Some i \<Rightarrow> b_data (bufs s i) | None \<Rightarrow> media s (sector_of bn)) else [])"

definition bio_frame :: "'z disk_state_scheme \<Rightarrow> 'z disk_state_scheme \<Rightarrow> bool" where
  "bio_frame s s' \<longleftrightarrow> woken (procs s) (procs s') \<and> (\<forall>i. sleeplocks s' (SL_inode i) = sleeplocks s (SL_inode i)) \<and>
     s'\<lparr>procs := procs s, vdisk := vdisk s, bufs := bufs s, sleeplocks := sleeplocks s, media := media s,
       dwrites := dwrites s\<rparr> = s"

lemma bio_okD:
  assumes "bio_ok p Q xs s"
  shows "running p (hw s)" "p_state (procs s p) = RUNNING" "p_chan (procs s p) = None" "vdisk_ok (vdisk s)"
    "lru (bufs s) xs" "Q \<subseteq> {..<NBUF}" "\<And>i. i < NBUF \<Longrightarrow> buf_ok p Q s i" "uncopied (bufs s)" "\<And>x. length (media s x) = BSIZE"
  using assms by (auto simp: bio_ok_def)

lemma view_cached:
  assumes "bio_ok p Q xs s" "i < NBUF" "b_valid (bufs s i)"
  shows "view s (b_blockno (bufs s i)) = b_data (bufs s i)"
proof -
  have b: "b_blockno (bufs s i) < 0x80000000" using bio_okD(7) [OF assms(1,2)] assms(3) by (simp add: buf_ok_def Let_def)
  have "find (\<lambda>j. b_valid (bufs s j) \<and> b_blockno (bufs s j) = b_blockno (bufs s i)) [0..<NBUF] \<noteq> None"
    using assms(2,3) by (auto simp: find_None_iff)
  then obtain j where j: "find (\<lambda>j. b_valid (bufs s j) \<and> b_blockno (bufs s j) = b_blockno (bufs s i)) [0..<NBUF] = Some j" by auto
  then have "j < NBUF" "b_valid (bufs s j)" "b_blockno (bufs s j) = b_blockno (bufs s i)"
    by (auto simp: find_Some_iff)
  then have "j = i" using bio_okD(8) [OF assms(1)] assms(2,3) by (auto simp: uncopied_def)
  then show ?thesis using b j by (simp add: view_def)
qed

lemma view_uncached:
  assumes "bn < 0x80000000" "\<And>i. i < NBUF \<Longrightarrow> b_valid (bufs s i) \<Longrightarrow> b_blockno (bufs s i) \<noteq> bn"
  shows "view s bn = media s (sector_of bn)"
proof -
  have "find (\<lambda>i. b_valid (bufs s i) \<and> b_blockno (bufs s i) = bn) [0..<NBUF] = None"
    using assms(2) by (auto simp: find_None_iff)
  then show ?thesis using assms(1) by (simp add: view_def)
qed

lemma sector_of_inj: "a < 0x80000000 \<Longrightarrow> b < 0x80000000 \<Longrightarrow> sector_of a = sector_of b \<longleftrightarrow> a = b"
proof -
  assume a: "a < 0x80000000" "b < 0x80000000"
  have u: "uint (sector_of x) = 2 * uint x" if "x < 0x80000000" for x :: u32
    using that by (simp add: sector_of_def BSIZE_def uint_word_ariths word_less_def unsigned_ucast_eq take_bit_eq_mod)
  show ?thesis using u [OF a(1)] u [OF a(2)] by (metis mult_cancel_left word_uint_eq_iff zero_neq_numeral)
qed

lemma view_eqI:
  assumes "bio_ok p Q xs s'"
    and "\<And>i. i < NBUF \<Longrightarrow> b_valid (bufs s' i) \<Longrightarrow> f (b_blockno (bufs s' i)) = b_data (bufs s' i)"
    and "\<And>bn. bn < 0x80000000 \<Longrightarrow> (\<And>i. i < NBUF \<Longrightarrow> b_valid (bufs s' i) \<Longrightarrow> b_blockno (bufs s' i) \<noteq> bn) \<Longrightarrow>
      f bn = media s' (sector_of bn)"
    and "\<And>bn. \<not> bn < 0x80000000 \<Longrightarrow> f bn = []"
  shows "view s' = f"
proof
  fix bn
  show "view s' bn = f bn"
  proof (cases "bn < 0x80000000")
    case True
    show ?thesis
    proof (cases "\<exists>i<NBUF. b_valid (bufs s' i) \<and> b_blockno (bufs s' i) = bn")
      case True
      then show ?thesis using view_cached [OF assms(1)] assms(2) by auto
    next
      case False
      then show ?thesis using view_uncached [OF True, of s'] assms(3) [OF True] by metis
    qed
  qed (use assms(4) in \<open>simp add: view_def\<close>)
qed

lemma view_cong:
  assumes "\<And>i. b_valid (bufs s' i) = b_valid (bufs s i)" "\<And>i. b_blockno (bufs s' i) = b_blockno (bufs s i)"
    "\<And>i. b_data (bufs s' i) = b_data (bufs s i)" "media s' = media s"
  shows "view s' = view s"
  unfolding view_def assms ..

lemma view_big [simp]: "\<not> bn < 0x80000000 \<Longrightarrow> view s bn = []"
  by (simp add: view_def)

lemma woken_runs: "woken P P' \<Longrightarrow> p_state (P p) = RUNNING \<Longrightarrow> P' p = P p"
  by (auto simp: woken_def dest!: spec [of _ p])

lemma woken_pid [simp]: "woken P P' \<Longrightarrow> p_pid (P' q) = p_pid (P q)"
  by (auto simp: woken_def dest!: spec [of _ q])

lemma bio_frame_refl [simp]: "bio_frame s s"
  by (simp add: bio_frame_def)

lemma bio_frame_trans [trans]:
  assumes "bio_frame s s'" "bio_frame s' s''"
  shows "bio_frame s s''"
proof -
  have 1: "s'\<lparr>procs := procs s, vdisk := vdisk s, bufs := bufs s, sleeplocks := sleeplocks s, media := media s,
       dwrites := dwrites s\<rparr> = s" using assms(1) by (simp add: bio_frame_def)
  have 2: "s''\<lparr>procs := procs s', vdisk := vdisk s', bufs := bufs s', sleeplocks := sleeplocks s', media := media s',
       dwrites := dwrites s'\<rparr> = s'" using assms(2) by (simp add: bio_frame_def)
  have "s''\<lparr>procs := procs s, vdisk := vdisk s, bufs := bufs s, sleeplocks := sleeplocks s, media := media s,
       dwrites := dwrites s\<rparr> = s'\<lparr>procs := procs s, vdisk := vdisk s, bufs := bufs s, sleeplocks := sleeplocks s, media := media s,
       dwrites := dwrites s\<rparr>" by (subst 2 [symmetric]) simp
  with 1 assms woken_trans show ?thesis unfolding bio_frame_def by metis
qed

lemma lru_links: "(\<And>i. b_next (B' i) = b_next (B i)) \<Longrightarrow> (\<And>i. b_prev (B' i) = b_prev (B i)) \<Longrightarrow> lru B' xs = lru B xs"
  by (simp add: lru_def)

lemma grab_simps [simp]:
  "hw (grab lk p s) = hw s" "procs (grab lk p s) = procs s"
  "sleeplocks (grab lk p s) = (sleeplocks s)(lk := (sleeplocks s lk)\<lparr>sl_locked := True, sl_pid := p_pid (procs s p)\<rparr>)"
  by (simp_all add: grab_def)

lemma grab_disk [simp]:
  "vdisk (grab lk p s) = vdisk s" "bufs (grab lk p s) = bufs s" "media (grab lk p s) = media s"
  "dwrites (grab lk p s) = dwrites s"
  by (simp_all add: grab_def upd_sl_def)

lemma find_SomeD: "find P xs = Some x \<Longrightarrow> x \<in> set xs \<and> P x"
  by (induction xs) (auto split: if_splits)

lemma bget_hit_ok:
  assumes ok: "bio_ok p Q xs s" and b: "b < NBUF" "b_valid (bufs s b)" "b_blockno (bufs s b) = bn" "b \<notin> locked_bufs s"
  shows "bget sw ROOTDEV bn s = Some (b, grab (SL_buf b) p (upd_buf b (\<lambda>x. x\<lparr>b_refcnt := b_refcnt x + 1\<rparr>) s))"
proof -
  note d = bio_okD [OF ok]
  have "find (\<lambda>i. b_dev (bufs s i) = ROOTDEV \<and> b_blockno (bufs s i) = bn) xs = Some b"
  proof -
    have "find (\<lambda>i. b_dev (bufs s i) = ROOTDEV \<and> b_blockno (bufs s i) = bn) xs \<noteq> None"
      using lruD(2) [OF d(5)] b d(7) [OF b(1)] by (auto simp: find_None_iff buf_ok_def Let_def)
    then obtain j where j: "find (\<lambda>i. b_dev (bufs s i) = ROOTDEV \<and> b_blockno (bufs s i) = bn) xs = Some j" by auto
    then have "j < NBUF" "b_dev (bufs s j) = ROOTDEV" "b_blockno (bufs s j) = bn"
      using lruD(2) [OF d(5)] find_SomeD [OF j] by auto
    then have "j = b" using d(7) [of j] d(8) b by (auto simp: buf_ok_def Let_def uncopied_def)
    with j show ?thesis by simp
  qed
  then have "bget_hit ROOTDEV bn (bufs s) (b_next (bufs s NBUF)) = Some (Some b)"
    using bget_scans(1) [OF d(5)] by simp
  then show ?thesis
    using d(1) b(1,4) by (simp add: bget_def kstep locked_bufs_def acquiresleep_free [of p])
qed

lemma bget_miss_ok:
  assumes ok: "bio_ok p Q xs s" and n: "\<And>i. i < NBUF \<Longrightarrow> b_valid (bufs s i) \<Longrightarrow> b_blockno (bufs s i) \<noteq> bn"
    and b: "find (\<lambda>i. b_refcnt (bufs s i) = 0) (rev xs) = Some b"
  shows "bget sw ROOTDEV bn s = Some (b, grab (SL_buf b) p
    (upd_buf b (\<lambda>x. x\<lparr>b_dev := ROOTDEV, b_blockno := bn, b_valid := False, b_refcnt := 1\<rparr>) s))"
proof -
  note d = bio_okD [OF ok]
  have "find (\<lambda>i. b_dev (bufs s i) = ROOTDEV \<and> b_blockno (bufs s i) = bn) xs = None"
    using n lruD(2) [OF d(5)] d(7) by (auto simp: find_None_iff buf_ok_def Let_def)
  then have h: "bget_hit ROOTDEV bn (bufs s) (b_next (bufs s NBUF)) = Some None"
    using bget_scans(1) [OF d(5)] by simp
  have f: "bget_free (bufs s) (b_prev (bufs s NBUF)) = Some (Some b)" using bget_scans(2) [OF d(5)] b by simp
  have "b \<in> set xs" "b_refcnt (bufs s b) = 0"
    using find_SomeD [OF b] by auto
  then have "b \<notin> locked_bufs s" "b < NBUF"
    using lruD(2) [OF d(5)] d(7) [of b] by (auto simp: buf_ok_def Let_def of_bool_def split: if_splits)
  then show ?thesis
    using d(1) h f by (simp add: bget_def kstep locked_bufs_def acquiresleep_free [of p])
qed

lemma locked_bufs_simps [simp]:
  "b < NBUF \<Longrightarrow> locked_bufs (grab (SL_buf b) p s) = insert b (locked_bufs s)"
  "locked_bufs (upd_buf b f s) = locked_bufs s" "locked_bufs (transfer b w s) = locked_bufs s"
  "locked_bufs (s\<lparr>procs := P\<rparr>) = locked_bufs s" "locked_bufs (s\<lparr>vdisk := v\<rparr>) = locked_bufs s"
  "locked_bufs (s\<lparr>bufs := B\<rparr>) = locked_bufs s" "locked_bufs (s\<lparr>hw := h\<rparr>) = locked_bufs s"
  "locked_bufs (s\<lparr>media := m\<rparr>) = locked_bufs s" "locked_bufs (s\<lparr>dwrites := ws\<rparr>) = locked_bufs s"
  by (auto simp: locked_bufs_def)

lemma bread_hit:
  assumes ok: "bio_ok p Q xs s" and b: "b < NBUF" "b_valid (bufs s b)" "b_blockno (bufs s b) = bn" "b \<notin> locked_bufs s"
  shows "\<exists>s'. bread sw ROOTDEV bn s = Some (b, s') \<and> bio_ok p Q xs s' \<and> bio_frame s s' \<and>
    locked_bufs s' = insert b (locked_bufs s) \<and> b_blockno (bufs s' b) = bn \<and> b_data (bufs s' b) = view s bn \<and>
    view s' = view s \<and> media s' = media s \<and> dwrites s' = dwrites s \<and> (\<forall>i. i \<noteq> b \<longrightarrow> bufs s' i = bufs s i)"
proof -
  note d = bio_okD [OF ok]
  let ?s = "grab (SL_buf b) p (upd_buf b (\<lambda>x. x\<lparr>b_refcnt := b_refcnt x + 1\<rparr>) s)"
  have r: "bread sw ROOTDEV bn s = Some (b, ?s)" using bget_hit_ok [OF ok b] b(2) by (simp add: bread_def)
  have "buf_ok p Q ?s i" if "i < NBUF" for i
    using d(7) [OF that] b by (auto simp: buf_ok_def Let_def)
  moreover have "lru (bufs ?s) xs" using d(5) by (subst lru_links [where B = "bufs s"]) auto
  moreover have "uncopied (bufs ?s)" using d(8) by (auto simp: uncopied_def)
  ultimately have ok': "bio_ok p Q xs ?s" using d by (simp add: bio_ok_def)
  moreover have "view ?s = view s" by (rule view_cong) simp_all
  moreover have "bio_frame s ?s" by (simp add: bio_frame_def grab_def upd_sl_def upd_buf_def)
  ultimately show ?thesis using r b view_cached [OF ok b(1,2)] by (intro exI [of _ ?s]) simp
qed

lemma bread_miss:
  assumes sw: "waits_for_disk sw" and ok: "bio_ok p Q xs s" and bn: "bn < 0x80000000"
    and n: "\<And>i. i < NBUF \<Longrightarrow> b_valid (bufs s i) \<Longrightarrow> b_blockno (bufs s i) \<noteq> bn"
    and f: "find (\<lambda>i. b_refcnt (bufs s i) = 0) (rev xs) = Some b"
  shows "\<exists>s'. bread sw ROOTDEV bn s = Some (b, s') \<and> bio_ok p Q xs s' \<and> bio_frame s s' \<and> b < NBUF \<and> b \<notin> locked_bufs s \<and> b \<notin> Q \<and>
    locked_bufs s' = insert b (locked_bufs s) \<and> b_blockno (bufs s' b) = bn \<and> b_data (bufs s' b) = view s bn \<and>
    view s' = view s \<and> media s' = media s \<and> dwrites s' = dwrites s \<and> (\<forall>i. i \<noteq> b \<longrightarrow> bufs s' i = bufs s i)"
proof -
  note d = bio_okD [OF ok]
  let ?s1 = "grab (SL_buf b) p (upd_buf b (\<lambda>x. x\<lparr>b_dev := ROOTDEV, b_blockno := bn, b_valid := False, b_refcnt := 1\<rparr>) s)"
  have b: "b < NBUF" "b_refcnt (bufs s b) = 0" using find_SomeD [OF f] lruD(2) [OF d(5)] by auto
  then have bl: "b \<notin> locked_bufs s" "b \<notin> Q"
    using d(7) [of b] by (auto simp: buf_ok_def Let_def of_bool_def split: if_splits)
  have g: "bget sw ROOTDEV bn s = Some (b, ?s1)" by (rule bget_miss_ok [OF ok n f])
  have r1: "running p (hw ?s1)" "p_state (procs ?s1 p) = RUNNING" "p_chan (procs ?s1 p) = None" "vdisk_ok (vdisk ?s1)"
    "\<not> b_disk (bufs ?s1 b)" using d(1-4) d(7) [OF b(1)] by (simp_all add: buf_ok_def Let_def)
  obtain P v where v: "virtio_disk_rw sw b False ?s1 = Some ((transfer b False ?s1)\<lparr>procs := P, vdisk := v\<rparr>)"
    "woken (procs ?s1) P" "vdisk_ok v" by (rule virtio_disk_rw_ok [OF sw r1])
  have v2: "woken (procs s) P" using v(2) by simp
  let ?s2 = "upd_buf b (\<lambda>x. x\<lparr>b_valid := True\<rparr>) ((transfer b False ?s1)\<lparr>procs := P, vdisk := v\<rparr>)"
  have r: "bread sw ROOTDEV bn s = Some (b, ?s2)" using g v(1) by (simp add: bread_def)
  have B: "bufs ?s2 = (bufs s)(b := (bufs s b)\<lparr>b_dev := ROOTDEV, b_blockno := bn, b_refcnt := 1,
      b_data := media s (sector_of bn), b_valid := True\<rparr>)" by (simp add: transfer_def Let_def)
  have M: "media ?s2 = media s" "dwrites ?s2 = dwrites s" "procs ?s2 = P" "vdisk ?s2 = v" "hw ?s2 = hw s"
    by (simp_all add: transfer_def Let_def)
  have L: "locked_bufs ?s2 = insert b (locked_bufs s)" using b(1) by simp
  have S: "sleeplocks ?s2 = (sleeplocks s)(SL_buf b := (sleeplocks s (SL_buf b))\<lparr>sl_locked := True, sl_pid := p_pid (procs s p)\<rparr>)"
    by simp
  have "buf_ok p Q ?s2 i" if "i < NBUF" for i
    using d(7) [OF that] d(9) bl bn v2 unfolding buf_ok_def Let_def B M L S by auto
  moreover have "lru (bufs ?s2) xs" unfolding B using d(5) by (subst lru_links [where B = "bufs s"]) auto
  moreover have "uncopied (bufs ?s2)" unfolding B using d(8) n by (auto simp: uncopied_def)
  ultimately have ok': "bio_ok p Q xs ?s2"
    using d v woken_runs [OF v2 d(2)] unfolding bio_ok_def M by simp
  have "view ?s2 = view s"
  proof (rule view_eqI [OF ok'])
    show "view s (b_blockno (bufs ?s2 i)) = b_data (bufs ?s2 i)" if "i < NBUF" "b_valid (bufs ?s2 i)" for i
      using that view_cached [OF ok] view_uncached [OF bn n] unfolding B by auto
    show "view s bn' = media ?s2 (sector_of bn')"
      if a: "bn' < 0x80000000" "\<And>i. i < NBUF \<Longrightarrow> b_valid (bufs ?s2 i) \<Longrightarrow> b_blockno (bufs ?s2 i) \<noteq> bn'" for bn'
    proof (cases "b_valid (bufs s b) \<and> b_blockno (bufs s b) = bn'")
      case True
      then show ?thesis using view_cached [OF ok b(1)] d(7) [OF b(1)] bl unfolding M by (auto simp: buf_ok_def Let_def)
    next
      case False
      have "view s bn' = media s (sector_of bn')"
      proof (rule view_uncached [OF a(1)])
        fix i assume "i < NBUF" "b_valid (bufs s i)"
        then show "b_blockno (bufs s i) \<noteq> bn'" using a(2) [of i, unfolded B] False by (cases "i = b") auto
      qed
      then show ?thesis unfolding M .
    qed
  qed simp
  moreover have "bio_frame s ?s2"
    using v2 by (simp add: bio_frame_def grab_def upd_sl_def upd_buf_def transfer_def)
  ultimately show ?thesis using r ok' b bl view_uncached [OF bn n] L M
    by (intro exI [of _ ?s2]) (unfold B, simp)
qed

text \<open>bread, in both cases: there is room when not all buffers are locked or pinned.\<close>

definition room :: "nat set \<Rightarrow> 'z disk_state_scheme \<Rightarrow> u32 \<Rightarrow> bool" where
  "room Q s bn \<longleftrightarrow> card (locked_bufs s \<union> Q) < NBUF \<or> (\<exists>i\<in>Q. b_blockno (bufs s i) = bn)"

lemma bread_ok:
  assumes sw: "waits_for_disk sw" and ok: "bio_ok p Q xs s" and bn: "bn < 0x80000000" "room Q s bn"
    and l: "\<And>i. i \<in> locked_bufs s \<Longrightarrow> b_blockno (bufs s i) \<noteq> bn"
  obtains b s' where "bread sw ROOTDEV bn s = Some (b, s')" "bio_ok p Q xs s'" "bio_frame s s'" "b < NBUF" "b \<notin> locked_bufs s"
    "locked_bufs s' = insert b (locked_bufs s)" "b_blockno (bufs s' b) = bn" "b_data (bufs s' b) = view s bn"
    "view s' = view s" "media s' = media s" "dwrites s' = dwrites s" "\<forall>i. i \<noteq> b \<longrightarrow> bufs s' i = bufs s i"
    "b \<in> Q \<longrightarrow> b_blockno (bufs s b) = bn"
proof (cases "\<exists>b<NBUF. b_valid (bufs s b) \<and> b_blockno (bufs s b) = bn")
  case True
  then obtain b where b: "b < NBUF" "b_valid (bufs s b)" "b_blockno (bufs s b) = bn" by blast
  then have "b \<notin> locked_bufs s" using l by auto
  then show ?thesis using bread_hit [OF ok b, of sw] that b(1,3) by metis
next
  case False
  note d = bio_okD [OF ok]
  have "\<not> (\<exists>i\<in>Q. b_blockno (bufs s i) = bn)" using False d(6,7) by (auto simp: buf_ok_def Let_def)
  then have "card (locked_bufs s \<union> Q) < NBUF" using bn(2) by (auto simp: room_def)
  moreover have "locked_bufs s \<union> Q \<subseteq> {..<NBUF}" using d(6) by (auto simp: locked_bufs_def)
  ultimately obtain i where "i < NBUF" "i \<notin> locked_bufs s \<union> Q" using card_mono [of "locked_bufs s \<union> Q" "{..<NBUF}"]
    by (metis card_lessThan finite_lessThan lessThan_iff order.asym order_antisym_conv subsetI less_irrefl subset_antisym)
  then have "b_refcnt (bufs s i) = 0" "i \<in> set xs" using d(7) [of i] lruD(2) [OF d(5)] by (auto simp: buf_ok_def Let_def)
  then have "find (\<lambda>i. b_refcnt (bufs s i) = 0) (rev xs) \<noteq> None" by (auto simp: find_None_iff)
  then obtain b where "find (\<lambda>i. b_refcnt (bufs s i) = 0) (rev xs) = Some b" by auto
  from bread_miss [OF sw ok bn(1) _ this] False that show ?thesis by metis
qed

lemma bwrite_ok:
  assumes sw: "waits_for_disk sw" and ok: "bio_ok p Q xs s" and b: "b \<in> locked_bufs s"
  obtains s' where "bwrite sw b s = Some s'" "bio_ok p Q xs s'" "bio_frame s s'" "locked_bufs s' = locked_bufs s"
    "bufs s' = bufs s" "view s' = view s" "media s' = (media s)(sector_of (b_blockno (bufs s b)) := b_data (bufs s b))"
    "dwrites s' = dwrites s @ [(sector_of (b_blockno (bufs s b)), b_data (bufs s b))]"
proof -
  note d = bio_okD [OF ok]
  have bN: "b < NBUF" using b by (simp add: locked_bufs_def)
  note bo = d(7) [OF bN]
  have v: "b_valid (bufs s b)" "\<not> b_disk (bufs s b)" using bo b by (auto simp: buf_ok_def Let_def)
  have h: "holdingsleep (SL_buf b) s = Some (True, s)"
    using d(1) b bo by (simp add: holdingsleep_ok [of p] locked_bufs_def buf_ok_def Let_def)
  obtain P vd where w: "virtio_disk_rw sw b True s = Some ((transfer b True s)\<lparr>procs := P, vdisk := vd\<rparr>)"
    "woken (procs s) P" "vdisk_ok vd" by (rule virtio_disk_rw_ok [OF sw d(1-4) v(2)])
  let ?x = "sector_of (b_blockno (bufs s b))"
  let ?s = "(transfer b True s)\<lparr>procs := P, vdisk := vd\<rparr>"
  have F: "bufs ?s = bufs s" "media ?s = (media s)(?x := b_data (bufs s b))" "dwrites ?s = dwrites s @ [(?x, b_data (bufs s b))]"
    "procs ?s = P" "vdisk ?s = vd" "hw ?s = hw s" "sleeplocks ?s = sleeplocks s" "locked_bufs ?s = locked_bufs s"
    by (simp_all add: transfer_def Let_def)
  have o: "media ?s (sector_of (b_blockno (bufs s i))) = media s (sector_of (b_blockno (bufs s i)))"
    if "i < NBUF" "i \<noteq> b" "b_valid (bufs s i)" for i
  proof -
    have "b_blockno (bufs s i) < 0x80000000" "b_blockno (bufs s b) < 0x80000000"
      using d(7) [OF that(1)] bo that(3) v(1) by (simp_all add: buf_ok_def Let_def)
    moreover have "b_blockno (bufs s i) \<noteq> b_blockno (bufs s b)" using d(8) that v(1) bN by (auto simp: uncopied_def)
    ultimately show ?thesis unfolding F by (simp add: sector_of_inj)
  qed
  have "buf_ok p Q ?s i" if "i < NBUF" for i
    using d(7) [OF that] o [OF that] w(2) b unfolding buf_ok_def Let_def F(1,4-8) by (cases "i = b") auto
  then have ok': "bio_ok p Q xs ?s"
    using d w woken_runs [OF w(2) d(2)] bo unfolding bio_ok_def F by (auto simp: buf_ok_def Let_def)
  have "view ?s = view s"
  proof (rule view_eqI [OF ok'])
    show "view s bn = media ?s (sector_of bn)"
      if a: "bn < 0x80000000" "\<And>i. i < NBUF \<Longrightarrow> b_valid (bufs ?s i) \<Longrightarrow> b_blockno (bufs ?s i) \<noteq> bn" for bn
    proof -
      have "bn \<noteq> b_blockno (bufs s b)" "b_blockno (bufs s b) < 0x80000000"
        using a(2) [OF bN] v(1) bo unfolding F by (auto simp: buf_ok_def Let_def)
      then show ?thesis using view_uncached [OF a(1), of s] a unfolding F by (simp add: sector_of_inj)
    qed
  qed (use view_cached [OF ok] in \<open>simp_all add: F\<close>)
  moreover have "bio_frame s ?s" using w(2) by (simp add: bio_frame_def transfer_def Let_def)
  ultimately show ?thesis using that [of ?s] h w(1) ok' unfolding F by (simp add: bwrite_def)
qed

text \<open>Writing to the data of a locked buffer.\<close>

definition set_data :: "nat \<Rightarrow> u8 list \<Rightarrow> 'z disk_state_scheme \<Rightarrow> 'z disk_state_scheme" where
  "set_data b d s = upd_buf b (\<lambda>x. x\<lparr>b_data := d\<rparr>) s"

lemma set_data_ok:
  assumes ok: "bio_ok p Q xs s" and b: "b \<in> locked_bufs s" and l: "length dat = BSIZE"
  shows "bio_ok p Q xs (set_data b dat s)" "view (set_data b dat s) = (view s)(b_blockno (bufs s b) := dat)"
    "locked_bufs (set_data b dat s) = locked_bufs s" "bio_frame s (set_data b dat s)"
    "media (set_data b dat s) = media s" "dwrites (set_data b dat s) = dwrites s"
    "bufs (set_data b dat s) = (bufs s)(b := (bufs s b)\<lparr>b_data := dat\<rparr>)"
proof -
  note d = bio_okD [OF ok]
  have bN: "b < NBUF" using b by (simp add: locked_bufs_def)
  have bv: "b_valid (bufs s b)" "b_blockno (bufs s b) < 0x80000000" using d(7) [OF bN] b by (simp_all add: buf_ok_def Let_def)
  have "buf_ok p Q (set_data b dat s) i" if "i < NBUF" for i
    using d(7) [OF that] b l by (cases "i = b") (auto simp: buf_ok_def Let_def set_data_def)
  moreover have "lru (bufs (set_data b dat s)) xs"
    using d(5) by (subst lru_links [where B = "bufs s"]) (auto simp: set_data_def)
  moreover have "uncopied (bufs (set_data b dat s))" using d(8) by (auto simp: uncopied_def set_data_def)
  ultimately show ok': "bio_ok p Q xs (set_data b dat s)" using d by (simp add: bio_ok_def set_data_def)
  show "view (set_data b dat s) = (view s)(b_blockno (bufs s b) := dat)"
  proof (rule view_eqI [OF ok'])
    show "((view s)(b_blockno (bufs s b) := dat)) (b_blockno (bufs (set_data b dat s) i)) = b_data (bufs (set_data b dat s) i)"
      if "i < NBUF" "b_valid (bufs (set_data b dat s) i)" for i
    proof (cases "i = b")
      case False
      then have "b_blockno (bufs s i) \<noteq> b_blockno (bufs s b)" "b_valid (bufs s i)"
        using d(8) that bv(1) bN by (auto simp: uncopied_def set_data_def)
      then show ?thesis using view_cached [OF ok that(1)] False by (simp add: set_data_def)
    qed (simp add: set_data_def)
    show "((view s)(b_blockno (bufs s b) := dat)) bn = media (set_data b dat s) (sector_of bn)"
      if a: "bn < 0x80000000" "\<And>i. i < NBUF \<Longrightarrow> b_valid (bufs (set_data b dat s) i) \<Longrightarrow> b_blockno (bufs (set_data b dat s) i) \<noteq> bn" for bn
    proof -
      have "b_blockno (bufs s i) \<noteq> bn" if "i < NBUF" "b_valid (bufs s i)" for i
        using a(2) [OF that(1)] that(2) by (cases "i = b") (simp_all add: set_data_def)
      then show ?thesis using view_uncached [OF a(1), of s] bv(1) bN by (auto simp: set_data_def)
    qed
  qed (use bv in auto)
qed (simp_all add: set_data_def bio_frame_def upd_buf_def locked_bufs_def)

lemma brelse_ok:
  assumes ok: "bio_ok p Q xs s" and b: "b \<in> locked_bufs s"
    and c: "b \<in> Q \<or> b_data (bufs s b) = media s (sector_of (b_blockno (bufs s b)))"
  obtains s' where "brelse b s = Some s'" "bio_ok p Q (if b \<in> Q then xs else b # remove1 b xs) s'" "bio_frame s s'"
    "locked_bufs s' = locked_bufs s - {b}" "view s' = view s" "media s' = media s" "dwrites s' = dwrites s"
    "\<forall>i. b_data (bufs s' i) = b_data (bufs s i) \<and> b_blockno (bufs s' i) = b_blockno (bufs s i) \<and> b_valid (bufs s' i) = b_valid (bufs s i)"
proof -
  note d = bio_okD [OF ok]
  have bN: "b < NBUF" using b by (simp add: locked_bufs_def)
  note bo = d(7) [OF bN]
  have h: "holdingsleep (SL_buf b) s = Some (True, s)"
    using d(1) b bo by (simp add: holdingsleep_ok [of p] locked_bufs_def buf_ok_def Let_def)
  let ?s1 = "drop_sl (SL_buf b) p s"
  have F1: "hw ?s1 = hw s" "bufs ?s1 = bufs s" "media ?s1 = media s" "dwrites ?s1 = dwrites s" "vdisk ?s1 = vdisk s"
    "sleeplocks ?s1 = (sleeplocks s)(SL_buf b := (sleeplocks s (SL_buf b))\<lparr>sl_locked := False, sl_pid := 0\<rparr>)"
    "woken (procs s) (procs ?s1)"
    using woken_map [of "upd_sl (SL_buf b) (\<lambda>x. x\<lparr>sl_locked := False, sl_pid := 0\<rparr>) s"]
    by (simp_all add: drop_sl_def upd_sl_def)
  let ?r = "b_refcnt (bufs s b) - 1"
  let ?B1 = "(bufs s)(b := (bufs s b)\<lparr>b_refcnt := ?r\<rparr>)"
  let ?B = "if ?r = 0 then move_to_front b ?B1 else ?B1"
  let ?s = "?s1\<lparr>bufs := ?B\<rparr>"
  have r: "?r = 0 \<longleftrightarrow> b \<notin> Q" using bo b by (simp add: buf_ok_def Let_def)
  have e: "brelse b s = Some ?s"
    using d(1) h F1(1,2) by (simp add: brelse_def kstep releasesleep_ok [of p] upd_buf_def cong: if_cong)
  have BF: "b_valid (?B i) = b_valid (bufs s i)" "b_disk (?B i) = b_disk (bufs s i)" "b_dev (?B i) = b_dev (bufs s i)"
    "b_blockno (?B i) = b_blockno (bufs s i)" "b_data (?B i) = b_data (bufs s i)"
    "b_refcnt (?B i) = (if i = b then ?r else b_refcnt (bufs s i))" for i
    by simp_all
  have L: "locked_bufs ?s = locked_bufs s - {b}" using F1(6) by (auto simp: locked_bufs_def)
  have F: "hw ?s = hw s" "bufs ?s = ?B" "media ?s = media s" "dwrites ?s = dwrites s" "vdisk ?s = vdisk s"
    "sleeplocks ?s = sleeplocks ?s1" "procs ?s = procs ?s1" using F1 by simp_all
  have "buf_ok p Q ?s i" if "i < NBUF" for i
    using d(7) [OF that] c b F1(7) bo unfolding buf_ok_def Let_def F L BF F1(6) by auto
  moreover have "lru (bufs ?s) (if b \<in> Q then xs else b # remove1 b xs)"
  proof -
    have "lru ?B1 xs" using d(5) by (subst lru_links [where B = "bufs s"]) auto
    then show ?thesis using move_to_front_lru [of ?B1 xs b] bN r unfolding F by simp
  qed
  moreover have "uncopied (bufs ?s)" using d(8) unfolding uncopied_def F BF .
  ultimately have ok': "bio_ok p Q (if b \<in> Q then xs else b # remove1 b xs) ?s"
    using d woken_runs [OF F1(7) d(2)] unfolding bio_ok_def F by simp
  have v: "view ?s = view s" by (rule view_cong) (simp_all only: F BF)
  have fr: "bio_frame s ?s"
    using F1(7) by (simp add: bio_frame_def drop_sl_def upd_sl_def map_procs_def cong: if_cong)
  show ?thesis by (rule that [OF e ok' fr L v F(3,4)]) (simp only: F(2) BF simp_thms allI)
qed

lemma bpin_ok:
  assumes ok: "bio_ok p Q xs s" and b: "b \<in> locked_bufs s" "b \<notin> Q"
  shows "bpin b s = Some (upd_buf b (\<lambda>x. x\<lparr>b_refcnt := b_refcnt x + 1\<rparr>) s)"
    "bio_ok p (insert b Q) xs (upd_buf b (\<lambda>x. x\<lparr>b_refcnt := b_refcnt x + 1\<rparr>) s)"
    "view (upd_buf b (\<lambda>x. x\<lparr>b_refcnt := b_refcnt x + 1\<rparr>) s) = view s"
proof -
  note d = bio_okD [OF ok]
  let ?s = "upd_buf b (\<lambda>x. x\<lparr>b_refcnt := b_refcnt x + 1\<rparr>) s"
  show "bpin b s = Some ?s" using d(1) by (simp add: bpin_def kstep)
  have "b < NBUF" using b by (simp add: locked_bufs_def)
  have "buf_ok p (insert b Q) ?s i" if "i < NBUF" for i
    using d(7) [OF that] b by (cases "i = b") (auto simp: buf_ok_def Let_def)
  moreover have "lru (bufs ?s) xs" using d(5) by (subst lru_links [where B = "bufs s"]) auto
  moreover have "uncopied (bufs ?s)" using d(8) by (auto simp: uncopied_def)
  ultimately show "bio_ok p (insert b Q) xs ?s" using d \<open>b < NBUF\<close> by (simp add: bio_ok_def)
  show "view ?s = view s" by (rule view_cong) simp_all
qed

lemma bunpin_ok:
  assumes ok: "bio_ok p Q xs s" and b: "b \<in> locked_bufs s" "b \<in> Q"
  shows "bunpin b s = Some (upd_buf b (\<lambda>x. x\<lparr>b_refcnt := b_refcnt x - 1\<rparr>) s)"
    "bio_ok p (Q - {b}) xs (upd_buf b (\<lambda>x. x\<lparr>b_refcnt := b_refcnt x - 1\<rparr>) s)"
    "view (upd_buf b (\<lambda>x. x\<lparr>b_refcnt := b_refcnt x - 1\<rparr>) s) = view s"
proof -
  note d = bio_okD [OF ok]
  let ?s = "upd_buf b (\<lambda>x. x\<lparr>b_refcnt := b_refcnt x - 1\<rparr>) s"
  show "bunpin b s = Some ?s" using d(1) by (simp add: bunpin_def kstep)
  have "buf_ok p (Q - {b}) ?s i" if "i < NBUF" for i
    using d(7) [OF that] b by (cases "i = b") (auto simp: buf_ok_def Let_def)
  moreover have "lru (bufs ?s) xs" using d(5) by (subst lru_links [where B = "bufs s"]) auto
  moreover have "uncopied (bufs ?s)" using d(8) by (auto simp: uncopied_def)
  ultimately show "bio_ok p (Q - {b}) xs ?s" using d by (auto simp: bio_ok_def)
  show "view ?s = view s" by (rule view_cong) simp_all
qed

section \<open>The cache, whatever its order\<close>

definition cache_ok :: "nat \<Rightarrow> nat set \<Rightarrow> 'z disk_state_scheme \<Rightarrow> bool" where
  "cache_ok p Q s \<longleftrightarrow> (\<exists>xs. bio_ok p Q xs s)"

lemma cache_okD:
  assumes "cache_ok p Q s"
  shows "running p (hw s)" "p_state (procs s p) = RUNNING" "p_chan (procs s p) = None" "Q \<subseteq> {..<NBUF}"
    "\<And>x. length (media s x) = BSIZE" "bn < 0x80000000 \<Longrightarrow> length (view s bn) = BSIZE"
    "i < NBUF \<Longrightarrow> b_valid (bufs s i) \<Longrightarrow> view s (b_blockno (bufs s i)) = b_data (bufs s i)"
    "i \<in> locked_bufs s \<Longrightarrow> i < NBUF \<and> b_valid (bufs s i) \<and> b_blockno (bufs s i) < 0x80000000"
    "i \<in> Q \<Longrightarrow> i < NBUF \<and> b_valid (bufs s i) \<and> b_blockno (bufs s i) < 0x80000000"
    "i < NBUF \<Longrightarrow> j < NBUF \<Longrightarrow> b_valid (bufs s i) \<Longrightarrow> b_valid (bufs s j) \<Longrightarrow>
      b_blockno (bufs s i) = b_blockno (bufs s j) \<Longrightarrow> i = j"
proof -
  obtain xs where b: "bio_ok p Q xs s" using assms by (auto simp: cache_ok_def)
  note d = bio_okD [OF b]
  show "running p (hw s)" "p_state (procs s p) = RUNNING" "p_chan (procs s p) = None" "Q \<subseteq> {..<NBUF}"
    "\<And>x. length (media s x) = BSIZE" using d by auto
  show "i < NBUF \<Longrightarrow> b_valid (bufs s i) \<Longrightarrow> view s (b_blockno (bufs s i)) = b_data (bufs s i)"
    using view_cached [OF b] by blast
  show "i \<in> locked_bufs s \<Longrightarrow> i < NBUF \<and> b_valid (bufs s i) \<and> b_blockno (bufs s i) < 0x80000000"
    using d(7) [of i] by (auto simp: buf_ok_def Let_def locked_bufs_def)
  show "i \<in> Q \<Longrightarrow> i < NBUF \<and> b_valid (bufs s i) \<and> b_blockno (bufs s i) < 0x80000000"
    using d(6) d(7) [of i] by (auto simp: buf_ok_def Let_def)
  show "i < NBUF \<Longrightarrow> j < NBUF \<Longrightarrow> b_valid (bufs s i) \<Longrightarrow> b_valid (bufs s j) \<Longrightarrow>
      b_blockno (bufs s i) = b_blockno (bufs s j) \<Longrightarrow> i = j" using d(8) by (auto simp: uncopied_def)
  show "length (view s bn) = BSIZE" if "bn < 0x80000000"
    using that d(7,9) by (auto simp: view_def buf_ok_def Let_def split: option.split dest!: find_SomeD)
qed

text \<open>A block that no locked and no pinned buffer holds is what the disk has.\<close>

lemma view_clean:
  assumes "cache_ok p Q s" "bn < 0x80000000" "\<And>i. i \<in> locked_bufs s \<union> Q \<Longrightarrow> b_blockno (bufs s i) \<noteq> bn"
  shows "view s bn = media s (sector_of bn)"
proof (cases "\<exists>i<NBUF. b_valid (bufs s i) \<and> b_blockno (bufs s i) = bn")
  case True
  then obtain i where i: "i < NBUF" "b_valid (bufs s i)" "b_blockno (bufs s i) = bn" by blast
  obtain xs where b: "bio_ok p Q xs s" using assms(1) by (auto simp: cache_ok_def)
  show ?thesis using i assms(3) [of i] bio_okD(7) [OF b i(1)] view_cached [OF b i(1,2)] by (auto simp: buf_ok_def Let_def)
next
  case False
  then show ?thesis using view_uncached [OF assms(2), of s] by auto
qed

lemma bread_c:
  assumes "waits_for_disk sw" "cache_ok p Q s" "bn < 0x80000000" "room Q s bn"
    and "\<And>i. i \<in> locked_bufs s \<Longrightarrow> b_blockno (bufs s i) \<noteq> bn"
  obtains b s' where "bread sw ROOTDEV bn s = Some (b, s')" "cache_ok p Q s'" "bio_frame s s'" "b < NBUF" "b \<notin> locked_bufs s"
    "locked_bufs s' = insert b (locked_bufs s)" "b_blockno (bufs s' b) = bn" "b_data (bufs s' b) = view s bn"
    "view s' = view s" "media s' = media s" "dwrites s' = dwrites s" "\<forall>i. i \<noteq> b \<longrightarrow> bufs s' i = bufs s i"
    "b \<in> Q \<longrightarrow> b_blockno (bufs s b) = bn"
proof -
  obtain xs where b: "bio_ok p Q xs s" using assms(2) by (auto simp: cache_ok_def)
  obtain b s' where r: "bread sw ROOTDEV bn s = Some (b, s')" "bio_ok p Q xs s'" "bio_frame s s'" "b < NBUF" "b \<notin> locked_bufs s"
    "locked_bufs s' = insert b (locked_bufs s)" "b_blockno (bufs s' b) = bn" "b_data (bufs s' b) = view s bn"
    "view s' = view s" "media s' = media s" "dwrites s' = dwrites s" "\<forall>i. i \<noteq> b \<longrightarrow> bufs s' i = bufs s i"
    "b \<in> Q \<longrightarrow> b_blockno (bufs s b) = bn"
    by (rule bread_ok [OF assms(1) b assms(3-5)])
  show ?thesis by (rule that [OF r(1) _ r(3-)]) (use r in \<open>auto simp: cache_ok_def\<close>)
qed

lemma bwrite_c:
  assumes "waits_for_disk sw" "cache_ok p Q s" "b \<in> locked_bufs s"
  obtains s' where "bwrite sw b s = Some s'" "cache_ok p Q s'" "bio_frame s s'" "locked_bufs s' = locked_bufs s"
    "bufs s' = bufs s" "view s' = view s" "media s' = (media s)(sector_of (b_blockno (bufs s b)) := b_data (bufs s b))"
    "dwrites s' = dwrites s @ [(sector_of (b_blockno (bufs s b)), b_data (bufs s b))]"
proof -
  obtain xs where b: "bio_ok p Q xs s" using assms(2) by (auto simp: cache_ok_def)
  obtain s' where r: "bwrite sw b s = Some s'" "bio_ok p Q xs s'" "bio_frame s s'" "locked_bufs s' = locked_bufs s"
    "bufs s' = bufs s" "view s' = view s" "media s' = (media s)(sector_of (b_blockno (bufs s b)) := b_data (bufs s b))"
    "dwrites s' = dwrites s @ [(sector_of (b_blockno (bufs s b)), b_data (bufs s b))]"
    by (rule bwrite_ok [OF assms(1) b assms(3)])
  show ?thesis by (rule that [OF r(1) _ r(3-)]) (use r in \<open>auto simp: cache_ok_def\<close>)
qed

lemma brelse_c:
  assumes "cache_ok p Q s" "b \<in> locked_bufs s" "b \<in> Q \<or> b_data (bufs s b) = media s (sector_of (b_blockno (bufs s b)))"
  obtains s' where "brelse b s = Some s'" "cache_ok p Q s'" "bio_frame s s'"
    "locked_bufs s' = locked_bufs s - {b}" "view s' = view s" "media s' = media s" "dwrites s' = dwrites s"
    "\<forall>i. b_data (bufs s' i) = b_data (bufs s i)" "\<forall>i. b_blockno (bufs s' i) = b_blockno (bufs s i)"
proof -
  obtain xs where b: "bio_ok p Q xs s" using assms(1) by (auto simp: cache_ok_def)
  obtain s' where r: "brelse b s = Some s'" "bio_ok p Q (if b \<in> Q then xs else b # remove1 b xs) s'" "bio_frame s s'"
    "locked_bufs s' = locked_bufs s - {b}" "view s' = view s" "media s' = media s" "dwrites s' = dwrites s"
    "\<forall>i. b_data (bufs s' i) = b_data (bufs s i) \<and> b_blockno (bufs s' i) = b_blockno (bufs s i) \<and> b_valid (bufs s' i) = b_valid (bufs s i)"
    by (rule brelse_ok [OF b assms(2,3)])
  show ?thesis by (rule that [OF r(1) _ r(3-7)]) (use r in \<open>auto simp: cache_ok_def\<close>)
qed

lemma set_data_c:
  assumes "cache_ok p Q s" "b \<in> locked_bufs s" "length dat = BSIZE"
  shows "cache_ok p Q (set_data b dat s)" "view (set_data b dat s) = (view s)(b_blockno (bufs s b) := dat)"
proof -
  obtain xs where b: "bio_ok p Q xs s" using assms(1) by (auto simp: cache_ok_def)
  show "cache_ok p Q (set_data b dat s)" "view (set_data b dat s) = (view s)(b_blockno (bufs s b) := dat)"
    using set_data_ok(1,2) [OF b assms(2,3)] by (auto simp: cache_ok_def)
qed

lemma set_data_simps [simp]:
  "locked_bufs (set_data b dat s) = locked_bufs s" "bio_frame s (set_data b dat s)"
  "media (set_data b dat s) = media s" "dwrites (set_data b dat s) = dwrites s"
  "bufs (set_data b dat s) = (bufs s)(b := (bufs s b)\<lparr>b_data := dat\<rparr>)"
  by (simp_all add: set_data_def bio_frame_def upd_buf_def locked_bufs_def)

lemma bunpin_c:
  assumes "cache_ok p Q s" "b \<in> locked_bufs s" "b \<in> Q"
  obtains s' where "bunpin b s = Some s'" "cache_ok p (Q - {b}) s'" "bio_frame s s'" "locked_bufs s' = locked_bufs s"
    "view s' = view s" "media s' = media s" "dwrites s' = dwrites s"
    "\<forall>i. b_data (bufs s' i) = b_data (bufs s i)" "\<forall>i. b_blockno (bufs s' i) = b_blockno (bufs s i)"
proof -
  obtain xs where b: "bio_ok p Q xs s" using assms(1) by (auto simp: cache_ok_def)
  note u = bunpin_ok [OF b assms(2,3)]
  show ?thesis by (rule that [OF u(1)]) (use u in \<open>auto simp: cache_ok_def bio_frame_def upd_buf_def\<close>)
qed

lemma bpin_c:
  assumes "cache_ok p Q s" "b \<in> locked_bufs s" "b \<notin> Q"
  obtains s' where "bpin b s = Some s'" "cache_ok p (insert b Q) s'" "bio_frame s s'" "locked_bufs s' = locked_bufs s"
    "view s' = view s" "media s' = media s" "dwrites s' = dwrites s"
    "\<forall>i. b_data (bufs s' i) = b_data (bufs s i)" "\<forall>i. b_blockno (bufs s' i) = b_blockno (bufs s i)"
proof -
  obtain xs where b: "bio_ok p Q xs s" using assms(1) by (auto simp: cache_ok_def)
  note u = bpin_ok [OF b assms(2,3)]
  show ?thesis by (rule that [OF u(1)]) (use u in \<open>auto simp: cache_ok_def bio_frame_def upd_buf_def\<close>)
qed

section \<open>binit\<close>

lemma binit_link_fields:
  assumes "b < NBUF"
  shows "(\<lambda>i. b_next (bufs (binit_link b s) i)) = (\<lambda>i. b_next (bufs s i))(b := b_next (bufs s NBUF), NBUF := b)"
    "b_next (bufs s NBUF) \<noteq> b \<Longrightarrow>
      (\<lambda>i. b_prev (bufs (binit_link b s) i)) = (\<lambda>i. b_prev (bufs s i))(b_next (bufs s NBUF) := b, b := NBUF)"
  using assms by (auto simp: binit_link_def Let_def initsleeplock_def upd_sl_def upd_buf_def fun_eq_iff)

lemma binit_link_simps [simp]:
  "procs (binit_link b s) = procs s" "vdisk (binit_link b s) = vdisk s" "media (binit_link b s) = media s"
  "dwrites (binit_link b s) = dwrites s" "hw (binit_link b s) = initlock (Lk_sl_buf b) ''sleep lock'' (hw s)"
  "sl_locked (sleeplocks (binit_link b s) lk) \<longleftrightarrow> lk \<noteq> SL_buf b \<and> sl_locked (sleeplocks s lk)"
  "b_valid (bufs (binit_link b s) i) = b_valid (bufs s i)" "b_disk (bufs (binit_link b s) i) = b_disk (bufs s i)"
  "b_dev (bufs (binit_link b s) i) = b_dev (bufs s i)" "b_refcnt (bufs (binit_link b s) i) = b_refcnt (bufs s i)"
  "b_data (bufs (binit_link b s) i) = b_data (bufs s i)"
  by (simp_all add: binit_link_def Let_def initsleeplock_def upd_sl_def upd_buf_def)

lemma running_initlock [simp]: "running p h \<Longrightarrow> running p (initlock l n h)"
proof -
  assume r: "running p h"
  have "lock_free l' (initlock l n h)" for l' using r by (cases "l' = l") simp_all
  moreover have "mycpu (initlock l n h) = mycpu h" by (simp add: initlock_def hart_defs)
  ultimately show ?thesis using r unfolding running_def initlock_simps(1) by simp
qed

text \<open>The first buffers, linked.\<close>

definition linked :: "nat \<Rightarrow> nat \<Rightarrow> 'z disk_state_scheme \<Rightarrow> 'z disk_state_scheme \<Rightarrow> bool" where
  "linked p k s t \<longleftrightarrow> running p (hw t) \<and> procs t = procs s \<and> vdisk t = vdisk s \<and> media t = media s \<and> dwrites t = dwrites s \<and>
     (\<forall>i<k. \<not> sl_locked (sleeplocks t (SL_buf i))) \<and>
     (\<forall>i. b_valid (bufs t i) = b_valid (bufs s i) \<and> b_disk (bufs t i) = b_disk (bufs s i) \<and>
       b_dev (bufs t i) = b_dev (bufs s i) \<and> b_refcnt (bufs t i) = b_refcnt (bufs s i) \<and> b_data (bufs t i) = b_data (bufs s i)) \<and>
     lpath (\<lambda>i. b_next (bufs t i)) NBUF (rev [0..<k]) NBUF \<and> lpath (\<lambda>i. b_prev (bufs t i)) NBUF [0..<k] NBUF"

lemma linked_step:
  assumes "k < NBUF" "linked p k s t"
  shows "linked p (Suc k) s (binit_link k t)"
proof -
  let ?n = "\<lambda>i. b_next (bufs t i)" and ?q = "\<lambda>i. b_prev (bufs t i)"
  have n: "lpath ?n NBUF (rev [0..<k]) NBUF" and q: "lpath ?q NBUF [0..<k] NBUF" using assms(2) by (simp_all add: linked_def)
  have f: "?n NBUF = last (NBUF # [0..<k])" using path_first [OF n] by (auto simp: hd_append hd_rev)
  then have fk: "?n NBUF \<noteq> k" using assms(1) by (cases k) auto
  have "lpath (?n(k := ?n NBUF, NBUF := k)) NBUF (k # rev [0..<k]) NBUF"
    by (rule path_front [OF n]) (use assms(1) in auto)
  moreover have "lpath (?q(?n NBUF := k, k := NBUF)) NBUF ([0..<k] @ [k]) NBUF"
    unfolding f by (rule path_snoc [OF q]) (use assms(1) in auto)
  ultimately show ?thesis
    using assms(2) binit_link_fields [OF assms(1), of t] fk by (auto simp: linked_def less_Suc_eq)
qed

lemma binit_ok:
  assumes s: "running p (hw s)" "p_state (procs s p) = RUNNING" "p_chan (procs s p) = None" "vdisk_ok (vdisk s)"
    "\<And>x. length (media s x) = BSIZE"
    and b: "\<And>i. i < NBUF \<Longrightarrow> \<not> b_disk (bufs s i) \<and> length (b_data (bufs s i)) = BSIZE \<and> b_refcnt (bufs s i) = 0 \<and>
      \<not> b_valid (bufs s i) \<and> b_dev (bufs s i) \<noteq> ROOTDEV"
  shows "\<exists>s'. binit s = Some s' \<and> bio_ok p {} (rev [0..<NBUF]) s' \<and> locked_bufs s' = {} \<and> media s' = media s \<and> dwrites s' = dwrites s"
proof -
  let ?s = "upd_buf NBUF (\<lambda>x. x\<lparr>b_next := NBUF\<rparr>) (upd_buf NBUF (\<lambda>x. x\<lparr>b_prev := NBUF\<rparr>) (s\<lparr>hw := initlock Lk_bcache ''bcache'' (hw s)\<rparr>))"
  have "\<exists>s'. for_n 0 NBUF (\<lambda>b s. Some (binit_link b s)) ?s = Some s' \<and> linked p (0 + NBUF) ?s s'"
    by (rule for_n_total [where I = "\<lambda>k. linked p k ?s"])
      (use linked_step s(1) in \<open>auto simp: linked_def\<close>)
  then obtain t where t: "binit s = Some t" "linked p NBUF ?s t" by (auto simp: binit_def Let_def)
  have B: "\<not> b_disk (bufs t i) \<and> length (b_data (bufs t i)) = BSIZE \<and> b_refcnt (bufs t i) = 0 \<and>
      \<not> b_valid (bufs t i) \<and> b_dev (bufs t i) \<noteq> ROOTDEV" if "i < NBUF" for i
    using t(2) b [OF that] that by (auto simp: linked_def)
  have L: "locked_bufs t = {}" using t(2) by (auto simp: locked_bufs_def linked_def)
  have "bio_ok p {} (rev [0..<NBUF]) t"
    using t(2) s B L by (auto simp: bio_ok_def buf_ok_def uncopied_def lru_def linked_def)
  then show ?thesis using t L by (auto simp: linked_def)
qed

section \<open>Property\<close>

lemma find_last: "(\<And>x. x \<in> set xs \<Longrightarrow> P x) \<Longrightarrow> xs \<noteq> [] \<Longrightarrow> find P (rev xs) = Some (last xs)"
  by (cases xs rule: rev_cases) auto

text \<open>C12: the buffer cache returns the newest contents of a block and is least-recently-used. With no
  buffer in use, bread returns a buffer with the block's contents, cached or from disk, leaves every
  block's contents and the disk alone, and takes the buffer at the end of the list when the block
  was not cached; brelse puts it at the front.\<close>

theorem bread_brelse_lru:
  assumes "waits_for_disk sw" "bio_ok p {} xs s" "locked_bufs s = {}" "bn < 0x80000000"
  shows "\<exists>b s1 s2. bread sw ROOTDEV bn s = Some (b, s1) \<and> b_data (bufs s1 b) = view s bn \<and> view s1 = view s \<and>
    ((\<forall>i<NBUF. b_valid (bufs s i) \<longrightarrow> b_blockno (bufs s i) \<noteq> bn) \<longrightarrow> b = last xs) \<and>
    brelse b s1 = Some s2 \<and> bio_ok p {} (b # remove1 b xs) s2 \<and> locked_bufs s2 = {} \<and>
    view s2 = view s \<and> media s2 = media s \<and> dwrites s2 = dwrites s"
proof -
  note d = bio_okD [OF assms(2)]
  have "room {} s bn" using assms(3) by (simp add: room_def NBUF_def)
  then obtain b s1 where r: "bread sw ROOTDEV bn s = Some (b, s1)" "bio_ok p {} xs s1" "b < NBUF"
    "locked_bufs s1 = {b}" "b_blockno (bufs s1 b) = bn" "b_data (bufs s1 b) = view s bn" "view s1 = view s"
    "media s1 = media s" "dwrites s1 = dwrites s" "\<forall>i. i \<noteq> b \<longrightarrow> bufs s1 i = bufs s i"
    by (rule bread_ok [OF assms(1,2,4)]) (auto simp: assms(3))
  have l: "b = last xs" if n: "\<forall>i<NBUF. b_valid (bufs s i) \<longrightarrow> b_blockno (bufs s i) \<noteq> bn"
  proof -
    have "0 \<in> set xs" using lruD(2) [OF d(5)] by (simp add: NBUF_def)
    then have "find (\<lambda>i. b_refcnt (bufs s i) = 0) (rev xs) = Some (last xs)"
      by (intro find_last) (use d(7) lruD(2) [OF d(5)] assms(3) in \<open>auto simp: buf_ok_def Let_def\<close>)
    from bread_miss [OF assms(1,2,4) _ this] n r(1) show ?thesis by auto
  qed
  have "view s bn = media s (sector_of bn)"
  proof (cases "\<exists>i<NBUF. b_valid (bufs s i) \<and> b_blockno (bufs s i) = bn")
    case True
    then show ?thesis using view_cached [OF assms(2)] d(7) assms(3) by (auto simp: buf_ok_def Let_def)
  next
    case False
    then show ?thesis using view_uncached [OF assms(4), of s] by auto
  qed
  then have c: "b \<in> {} \<or> b_data (bufs s1 b) = media s1 (sector_of (b_blockno (bufs s1 b)))" using r by simp
  have bl: "b \<in> locked_bufs s1" using r(4) by simp
  obtain s2 where "brelse b s1 = Some s2" "bio_ok p {} (if b \<in> {} then xs else b # remove1 b xs) s2" "locked_bufs s2 = locked_bufs s1 - {b}"
    "view s2 = view s1" "media s2 = media s1" "dwrites s2 = dwrites s1"
    by (rule brelse_ok [OF r(2) bl c])
  then show ?thesis using r l by (intro exI [of _ b] exI [of _ s1] exI [of _ s2]) auto
qed

definition bio0 :: disk_state where
  "bio0 = the (binit disk0)"

lemma bio0_ok: "bio_ok 1 {} (rev [0..<NBUF]) bio0" "locked_bufs bio0 = {}" "media bio0 = media disk0" "dwrites bio0 = []"
proof -
  have "\<exists>s'. binit disk0 = Some s' \<and> bio_ok 1 {} (rev [0..<NBUF]) s' \<and> locked_bufs s' = {} \<and> media s' = media disk0 \<and> dwrites s' = dwrites disk0"
    by (rule binit_ok) (auto simp: disk0_def sl_state.defs disk_state.defs sl0_def proc0_def proc_state.defs
      vdisk_ok_def drained_def ROOTDEV_def)
  then show "bio_ok 1 {} (rev [0..<NBUF]) bio0" "locked_bufs bio0 = {}" "media bio0 = media disk0" "dwrites bio0 = []"
    by (auto simp: bio0_def disk0_def sl_state.defs disk_state.defs)
qed

theorem bread_brelse_lru_witness:
  "\<exists>b s1. bread sw_disk ROOTDEV 7 bio0 = Some (b, s1) \<and> b_data (bufs s1 b) = view bio0 7"
  using bread_brelse_lru [OF waits_sw_disk bio0_ok(1,2), of 7] by auto

end
