(* ===== verification/Log.thy ===== *)
theory Log
  imports Bio
begin

text \<open>
  The write-ahead log (kernel/log.c).

  \<open>log_st\<close> is struct log with its in-memory header, \<open>lg\<close> of a state. The header block is read and
  written through byte offsets of the buffer's data, as the cast to struct logheader does. An access
  to \<open>lh.block\<close> past LOGSIZE is a call that does not return.

  The locale \<open>redo_log\<close> is the argument for crash safety without any code: the order of disk writes
  of a commit, and what recovery makes of any prefix of them. Its interpretation is on the header
  format of log.c, and the lemmas about commit and recover_from_log show that the code makes those
  writes and that recovery.
\<close>

section \<open>Fields of a block\<close>

lemma sint_int32: "- 0x80000000 \<le> x \<Longrightarrow> x < 0x80000000 \<Longrightarrow> sint (word_of_int x :: u32) = x"
  by (simp add: int_word_sint)

lemma sint_small32: "w < 0x80000000 \<Longrightarrow> sint (w :: u32) = uint w"
  using sint_int32 [of "uint w"] uint_ge_0 [of w] by (simp add: word_less_def)

lemma word_of_sint [simp]: "word_of_int (sint w) = w"
  by simp

definition patch :: "nat \<Rightarrow> u8 list \<Rightarrow> u8 list \<Rightarrow> u8 list" where
  "patch i bs xs = take i xs @ bs @ drop (i + length bs) xs"

definition get_w :: "nat \<Rightarrow> u8 list \<Rightarrow> 'a::len word" where
  "get_w i xs = le_word (\<lambda>k. xs ! (i + k))"

definition put_w :: "nat \<Rightarrow> 'a::len word \<Rightarrow> u8 list \<Rightarrow> u8 list" where
  "put_w i w xs = patch i (map (byte_of w) [0..<LENGTH('a) div 8]) xs"

lemma length_patch [simp]: "i + length bs \<le> length xs \<Longrightarrow> length (patch i bs xs) = length xs"
  by (simp add: patch_def)

lemma nth_patch:
  "i + length bs \<le> length xs \<Longrightarrow> j < length xs \<Longrightarrow>
    patch i bs xs ! j = (if i \<le> j \<and> j < i + length bs then bs ! (j - i) else xs ! j)"
  by (auto simp: patch_def nth_append)

lemma length_put_w [simp]: "i + LENGTH('a) div 8 \<le> length xs \<Longrightarrow> length (put_w i (w :: 'a::len word) xs) = length xs"
  by (simp add: put_w_def)

lemma get_put_same:
  assumes "8 dvd LENGTH('a)" "i + LENGTH('a) div 8 \<le> length xs"
  shows "get_w i (put_w i (w :: 'a::len word) xs) = w"
proof -
  have "get_w i (put_w i w xs) = (le_word (byte_of w) :: 'a word)"
    unfolding get_w_def put_w_def by (rule le_word_cong) (use assms(2) in \<open>simp add: nth_patch\<close>)
  then show ?thesis using le_word_byte_of [OF assms(1)] by simp
qed

lemma get_put_other:
  assumes "i + LENGTH('a) div 8 \<le> length xs" "j + LENGTH('b) div 8 \<le> length xs"
    "j + LENGTH('b) div 8 \<le> i \<or> i + LENGTH('a) div 8 \<le> j"
  shows "(get_w j (put_w i (w :: 'a::len word) xs) :: 'b::len word) = get_w j xs"
  unfolding get_w_def put_w_def by (rule le_word_cong) (use assms in \<open>auto simp: nth_patch\<close>)

section \<open>Operations\<close>

definition LOGSIZE :: nat where "LOGSIZE = 30"
definition MAXOPBLOCKS :: nat where "MAXOPBLOCKS = 10"

record superblock =
  sb_magic :: u32
  sb_size :: u32
  sb_nblocks :: u32
  sb_ninodes :: u32
  sb_nlog :: u32
  sb_logstart :: u32
  sb_inodestart :: u32
  sb_bmapstart :: u32

record log_st =
  lg_start :: int
  lg_size :: int
  lg_outstanding :: int
  lg_committing :: bool
  lg_dev :: int
  lh_n :: int
  lh_block :: "nat \<Rightarrow> int"

record log_state = disk_state +
  lg :: log_st

definition upd_lg :: "(log_st \<Rightarrow> log_st) \<Rightarrow> 'z log_state_scheme \<Rightarrow> 'z log_state_scheme" where
  "upd_lg f s = s\<lparr>lg := f (lg s)\<rparr>"

definition lh_get :: "nat \<Rightarrow> 'z log_state_scheme \<Rightarrow> int option" where
  "lh_get i s = (if i < LOGSIZE then Some (lh_block (lg s) i) else None)"

definition lh_set :: "nat \<Rightarrow> int \<Rightarrow> 'z log_state_scheme \<Rightarrow> 'z log_state_scheme option" where
  "lh_set i v s = (if i < LOGSIZE then Some (upd_lg (\<lambda>l. l\<lparr>lh_block := (lh_block l)(i := v)\<rparr>) s) else None)"

text \<open>Copy committed blocks from the log to their home locations.\<close>

partial_function (option) install_loop :: "('z log_state_scheme \<Rightarrow> 'z log_state_scheme option) \<Rightarrow> bool \<Rightarrow> nat
    \<Rightarrow> 'z log_state_scheme \<Rightarrow> 'z log_state_scheme option" where
  "install_loop sw recovering tail s =
    (if int tail < lh_n (lg s) then do {
       (lbuf, s) \<leftarrow> bread sw (word_of_int (lg_dev (lg s))) (word_of_int (lg_start (lg s) + int tail + 1)) s;
       home \<leftarrow> lh_get tail s;
       (dbuf, s) \<leftarrow> bread sw (word_of_int (lg_dev (lg s))) (word_of_int home) s;
       let s = set_data dbuf (b_data (bufs s lbuf)) s;
       s \<leftarrow> bwrite sw dbuf s;
       s \<leftarrow> (if \<not> recovering then bunpin dbuf s else Some s);
       s \<leftarrow> brelse lbuf s;
       s \<leftarrow> brelse dbuf s;
       install_loop sw recovering (Suc tail) s }
     else Some s)"

definition install_trans :: "('z log_state_scheme \<Rightarrow> 'z log_state_scheme option) \<Rightarrow> bool
    \<Rightarrow> 'z log_state_scheme \<Rightarrow> 'z log_state_scheme option" where
  "install_trans sw recovering s = install_loop sw recovering 0 s"

definition read_head :: "('z log_state_scheme \<Rightarrow> 'z log_state_scheme option) \<Rightarrow> 'z log_state_scheme
    \<Rightarrow> 'z log_state_scheme option" where
  "read_head sw s = do {
     (b, s) \<leftarrow> bread sw (word_of_int (lg_dev (lg s))) (word_of_int (lg_start (lg s))) s;
     let s = upd_lg (\<lambda>l. l\<lparr>lh_n := sint (get_w 0 (b_data (bufs s b)) :: u32)\<rparr>) s;
     s \<leftarrow> for_n 0 (nat (lh_n (lg s))) (\<lambda>i s.
       lh_set i (sint (get_w (4 + 4 * i) (b_data (bufs s b)) :: u32)) s) s;
     brelse b s }"

definition write_head :: "('z log_state_scheme \<Rightarrow> 'z log_state_scheme option) \<Rightarrow> 'z log_state_scheme
    \<Rightarrow> 'z log_state_scheme option" where
  "write_head sw s = do {
     (b, s) \<leftarrow> bread sw (word_of_int (lg_dev (lg s))) (word_of_int (lg_start (lg s))) s;
     let s = set_data b (put_w 0 (word_of_int (lh_n (lg s)) :: u32) (b_data (bufs s b))) s;
     s \<leftarrow> for_n 0 (nat (lh_n (lg s))) (\<lambda>i s. do {
       v \<leftarrow> lh_get i s;
       Some (set_data b (put_w (4 + 4 * i) (word_of_int v :: u32) (b_data (bufs s b))) s) }) s;
     s \<leftarrow> bwrite sw b s;
     brelse b s }"

definition recover_from_log :: "('z log_state_scheme \<Rightarrow> 'z log_state_scheme option) \<Rightarrow> 'z log_state_scheme
    \<Rightarrow> 'z log_state_scheme option" where
  "recover_from_log sw s = do {
     s \<leftarrow> read_head sw s;
     s \<leftarrow> install_trans sw True s;
     let s = upd_lg (\<lambda>l. l\<lparr>lh_n := 0\<rparr>) s;
     write_head sw s }"

text \<open>sizeof(struct logheader) is 124, below BSIZE.\<close>

definition initlog :: "('z log_state_scheme \<Rightarrow> 'z log_state_scheme option) \<Rightarrow> int \<Rightarrow> superblock \<Rightarrow> 'z log_state_scheme
    \<Rightarrow> 'z log_state_scheme option" where
  "initlog sw dev sb s =
    (if 4 + 4 * LOGSIZE \<ge> BSIZE then None
     else let s = s\<lparr>hw := initlock Lk_log ''log'' (hw s)\<rparr>;
              s = upd_lg (\<lambda>l. l\<lparr>lg_start := sint (sb_logstart sb), lg_size := sint (sb_nlog sb), lg_dev := dev\<rparr>) s
          in recover_from_log sw s)"

partial_function (option) begin_loop :: "('z log_state_scheme \<Rightarrow> 'z log_state_scheme option)
    \<Rightarrow> 'z log_state_scheme \<Rightarrow> 'z log_state_scheme option" where
  "begin_loop sw s =
    (if lg_committing (lg s) then do {
       s \<leftarrow> sleep sw Ch_log Lk_log s;
       begin_loop sw s }
     else if lh_n (lg s) + (lg_outstanding (lg s) + 1) * int MAXOPBLOCKS > int LOGSIZE then do {
       s \<leftarrow> sleep sw Ch_log Lk_log s;
       begin_loop sw s }
     else unlock Lk_log (upd_lg (\<lambda>l. l\<lparr>lg_outstanding := lg_outstanding l + 1\<rparr>) s))"

definition begin_op :: "('z log_state_scheme \<Rightarrow> 'z log_state_scheme option)
    \<Rightarrow> 'z log_state_scheme \<Rightarrow> 'z log_state_scheme option" where
  "begin_op sw s = do {
     s \<leftarrow> lock Lk_log s;
     begin_loop sw s }"

text \<open>Copy modified blocks from the cache to the log.\<close>

partial_function (option) write_log_loop :: "('z log_state_scheme \<Rightarrow> 'z log_state_scheme option) \<Rightarrow> nat
    \<Rightarrow> 'z log_state_scheme \<Rightarrow> 'z log_state_scheme option" where
  "write_log_loop sw tail s =
    (if int tail < lh_n (lg s) then do {
       (to, s) \<leftarrow> bread sw (word_of_int (lg_dev (lg s))) (word_of_int (lg_start (lg s) + int tail + 1)) s;
       home \<leftarrow> lh_get tail s;
       (from, s) \<leftarrow> bread sw (word_of_int (lg_dev (lg s))) (word_of_int home) s;
       let s = set_data to (b_data (bufs s from)) s;
       s \<leftarrow> bwrite sw to s;
       s \<leftarrow> brelse from s;
       s \<leftarrow> brelse to s;
       write_log_loop sw (Suc tail) s }
     else Some s)"

definition write_log :: "('z log_state_scheme \<Rightarrow> 'z log_state_scheme option) \<Rightarrow> 'z log_state_scheme
    \<Rightarrow> 'z log_state_scheme option" where
  "write_log sw s = write_log_loop sw 0 s"

definition commit :: "('z log_state_scheme \<Rightarrow> 'z log_state_scheme option) \<Rightarrow> 'z log_state_scheme
    \<Rightarrow> 'z log_state_scheme option" where
  "commit sw s =
    (if lh_n (lg s) > 0 then do {
       s \<leftarrow> write_log sw s;
       s \<leftarrow> write_head sw s;
       s \<leftarrow> install_trans sw False s;
       let s = upd_lg (\<lambda>l. l\<lparr>lh_n := 0\<rparr>) s;
       write_head sw s }
     else Some s)"

definition end_op :: "('z log_state_scheme \<Rightarrow> 'z log_state_scheme option) \<Rightarrow> 'z log_state_scheme
    \<Rightarrow> 'z log_state_scheme option" where
  "end_op sw s = do {
     s \<leftarrow> lock Lk_log s;
     let s = upd_lg (\<lambda>l. l\<lparr>lg_outstanding := lg_outstanding l - 1\<rparr>) s;
     if lg_committing (lg s) then None
     else do {
       let do_commit = (lg_outstanding (lg s) = 0);
       s \<leftarrow> (if do_commit then Some (upd_lg (\<lambda>l. l\<lparr>lg_committing := True\<rparr>) s)
             else wakeup (Some Ch_log) s);
       s \<leftarrow> unlock Lk_log s;
       if do_commit then do {
         s \<leftarrow> commit sw s;
         s \<leftarrow> lock Lk_log s;
         let s = upd_lg (\<lambda>l. l\<lparr>lg_committing := False\<rparr>) s;
         s \<leftarrow> wakeup (Some Ch_log) s;
         unlock Lk_log s }
       else Some s } }"

definition log_write :: "nat \<Rightarrow> 'z log_state_scheme \<Rightarrow> 'z log_state_scheme option" where
  "log_write b s = do {
     s \<leftarrow> lock Lk_log s;
     if lh_n (lg s) \<ge> int LOGSIZE \<or> lh_n (lg s) \<ge> lg_size (lg s) - 1 then None
     else if lg_outstanding (lg s) < 1 then None
     else do {
       (r, s) \<leftarrow> search_n 0 (nat (lh_n (lg s))) (\<lambda>i s.
         if word_of_int (lh_block (lg s) i) = b_blockno (bufs s b) then Some (Some i, s) else Some (None, s)) s;
       let i = (case r of Some i \<Rightarrow> i | None \<Rightarrow> nat (lh_n (lg s)));
       s \<leftarrow> lh_set i (sint (b_blockno (bufs s b))) s;
       s \<leftarrow> (if int i = lh_n (lg s) then do {
           s \<leftarrow> bpin b s;
           Some (upd_lg (\<lambda>l. l\<lparr>lh_n := lh_n l + 1\<rparr>) s) }
         else Some s);
       unlock Lk_log s } }"

section \<open>Redo logging, abstractly\<close>

definition apply_w :: "('a \<times> 'd) list \<Rightarrow> ('a \<Rightarrow> 'd) \<Rightarrow> 'a \<Rightarrow> 'd" where
  "apply_w ws d = fold (\<lambda>(a, v) d. d(a := v)) ws d"

lemma apply_w_simps [simp]:
  "apply_w [] d = d" "apply_w ((a, v) # ws) d = apply_w ws (d(a := v))"
  "apply_w (ws @ vs) d = apply_w vs (apply_w ws d)"
  by (simp_all add: apply_w_def)

lemma apply_w_other: "a \<notin> fst ` set ws \<Longrightarrow> apply_w ws d a = d a"
  by (induction ws arbitrary: d) auto

lemma apply_w_map:
  "inj_on f {i..<i + n} \<Longrightarrow> k \<in> {i..<i + n} \<Longrightarrow> apply_w (map (\<lambda>j. (f j, v j)) [i..<i + n]) d (f k) = v k"
proof (induction n arbitrary: i d)
  case (Suc n)
  have u: "[i..<i + Suc n] = i # [Suc i..<Suc i + n]" using upt_conv_Cons [of i "i + Suc n"] by simp
  show ?case
  proof (cases "k = i")
    case True
    have "f i \<notin> f ` {Suc i..<Suc i + n}" using Suc.prems(1) by (auto dest: inj_onD)
    then have "apply_w (map (\<lambda>j. (f j, v j)) [Suc i..<Suc i + n]) (d(f i := v i)) (f i) = v i"
      by (subst apply_w_other) (auto simp: image_image)
    then show ?thesis unfolding u list.map apply_w_simps using True by simp
  next
    case False
    have "apply_w (map (\<lambda>j. (f j, v j)) [Suc i..<Suc i + n]) (d(f i := v i)) (f k) = v k"
      by (rule Suc.IH) (use Suc.prems False in \<open>auto simp: inj_on_def\<close>)
    then show ?thesis unfolding u list.map apply_w_simps .
  qed
qed simp

lemma apply_w_map_other:
  assumes "\<And>j. i \<le> j \<Longrightarrow> j < n \<Longrightarrow> f j \<noteq> a"
  shows "apply_w (map (\<lambda>j. (f j, v j)) [i..<n]) d a = d a"
proof (rule apply_w_other)
  show "a \<notin> fst ` set (map (\<lambda>j. (f j, v j)) [i..<n])"
  proof
    assume "a \<in> fst ` set (map (\<lambda>j. (f j, v j)) [i..<n])"
    then obtain j where "i \<le> j" "j < n" "a = f j" by auto
    then show False using assms by blast
  qed
qed

lemma apply_w_at: "d a = d' a \<Longrightarrow> apply_w ws d a = apply_w ws d' a"
proof (induction ws arbitrary: d d')
  case (Cons w ws)
  obtain b v where w: "w = (b, v)" by (cases w)
  have "(d(b := v)) a = (d'(b := v)) a" using Cons.prems by simp
  from Cons.IH [of "d(b := v)" "d'(b := v)", OF this] show ?case unfolding w apply_w_simps .
qed simp

text \<open>
  Blocks have names and addresses. The log has a header at \<open>hdr\<close> and slots; \<open>enc\<close> writes a list of
  names into a header block, \<open>dec\<close> reads it. \<open>legal\<close> lists name blocks at different addresses, outside
  the part of the log they need.
\<close>

locale redo_log =
  fixes addr :: "'n \<Rightarrow> 'a" and hdr :: 'a and slot :: "nat \<Rightarrow> 'a"
    and enc :: "'n list \<Rightarrow> 'd \<Rightarrow> 'd" and dec :: "'d \<Rightarrow> 'n list" and legal :: "'n list \<Rightarrow> 'd \<Rightarrow> bool"
  assumes dec_enc: "legal H x \<Longrightarrow> dec (enc H x) = H"
    and dec_nil: "legal H x \<Longrightarrow> dec (enc [] (enc H x)) = []"
    and legal_addr: "legal H x \<Longrightarrow> inj_on (\<lambda>i. addr (H ! i)) {..<length H} \<and> inj_on slot {..<length H} \<and>
      (\<forall>i<length H. slot i \<noteq> hdr \<and> addr (H ! i) \<noteq> hdr \<and> (\<forall>j<length H. addr (H ! i) \<noteq> slot j))"
begin

definition installs :: "'n list \<Rightarrow> (nat \<Rightarrow> 'd) \<Rightarrow> ('a \<times> 'd) list" where
  "installs H V = map (\<lambda>i. (addr (H ! i), V i)) [0..<length H]"

definition recover :: "('a \<Rightarrow> 'd) \<Rightarrow> 'a \<Rightarrow> 'd" where
  "recover d = (apply_w (installs (dec (d hdr)) (\<lambda>i. d (slot i))) d)(hdr := enc [] (d hdr))"

text \<open>The writes of a commit: the log slots, the header, the home blocks, the header again.\<close>

definition commit_writes :: "'n list \<Rightarrow> (nat \<Rightarrow> 'd) \<Rightarrow> 'd \<Rightarrow> ('a \<times> 'd) list" where
  "commit_writes H V x = map (\<lambda>i. (slot i, V i)) [0..<length H] @ [(hdr, enc H x)] @ installs H V @
     [(hdr, enc [] (enc H x))]"

lemma installs_miss: "(\<And>i. i < length H \<Longrightarrow> a \<noteq> addr (H ! i)) \<Longrightarrow> apply_w (take m (installs H V)) d a = d a"
proof (rule apply_w_other)
  assume a: "\<And>i. i < length H \<Longrightarrow> a \<noteq> addr (H ! i)"
  have "fst ` set (take m (installs H V)) \<subseteq> (\<lambda>i. addr (H ! i)) ` {..<length H}"
    by (auto simp: installs_def dest!: in_set_takeD)
  with a show "a \<notin> fst ` set (take m (installs H V))" by auto
qed

lemma installs_hit: "legal H x \<Longrightarrow> i < length H \<Longrightarrow> apply_w (installs H V) d (addr (H ! i)) = V i"
  unfolding installs_def using apply_w_map [of "\<lambda>i. addr (H ! i)" 0 "length H" i V d] legal_addr [of H x]
  by (simp add: lessThan_atLeast0)

lemma slots_miss: "(\<And>i. i < k \<Longrightarrow> a \<noteq> slot i) \<Longrightarrow> apply_w (map (\<lambda>i. (slot i, V i)) [0..<k]) d a = d a"
  by (rule apply_w_map_other) metis

lemma crash_before:
  assumes "legal H x" "dec (d hdr) = []" "k \<le> length H"
    and a: "a \<noteq> hdr" "\<And>i. i < length H \<Longrightarrow> a \<noteq> slot i"
  shows "recover (apply_w (take k (commit_writes H V x)) d) a = d a"
proof -
  let ?ws = "map (\<lambda>i. (slot i, V i)) [0..<k]"
  have t: "take k (commit_writes H V x) = ?ws" using assms(3) by (simp add: commit_writes_def take_map)
  have "apply_w ?ws d hdr = d hdr"
    by (rule slots_miss) (metis legal_addr [OF assms(1)] assms(3) order_less_le_trans)
  moreover have "apply_w ?ws d a = d a"
    by (rule slots_miss) (metis a(2) assms(3) order_less_le_trans)
  ultimately show ?thesis using assms(2) a(1) by (simp add: t recover_def installs_def)
qed

text \<open>Installing again over a partial installation.\<close>

lemma reinstall:
  assumes l: "legal H x" and a: "d' a = apply_w (take m (installs H V)) d a"
  shows "apply_w (installs H V) d' a = apply_w (installs H V) d a"
proof (cases "\<exists>i<length H. a = addr (H ! i)")
  case True
  then show ?thesis using installs_hit [OF l] by auto
next
  case False
  then show ?thesis using installs_miss [of H a _ V] a by (metis take_all order_refl)
qed

lemma recover_header:
  assumes "legal H x" "d hdr = enc H x" "a \<noteq> hdr" "\<And>i. i < length H \<Longrightarrow> d (slot i) = V i"
  shows "recover d a = apply_w (installs H V) d a"
proof -
  have "installs H (\<lambda>i. d (slot i)) = installs H V" using assms(4) by (simp add: installs_def)
  then show ?thesis using assms dec_enc [OF assms(1)] by (simp add: recover_def)
qed

lemma recover_cleared:
  assumes "legal H x" "d hdr = enc [] (enc H x)" "a \<noteq> hdr"
  shows "recover d a = d a"
  using assms dec_nil by (simp add: recover_def installs_def)

lemma crash_after:
  assumes l: "legal H x" and k: "length H < k"
    and a: "a \<noteq> hdr" "\<And>i. i < length H \<Longrightarrow> a \<noteq> slot i"
  shows "recover (apply_w (take k (commit_writes H V x)) d) a = apply_w (installs H V) d a"
proof -
  let ?n = "length H"
  obtain m where m: "k = Suc (?n + m)" using k less_iff_Suc_add by auto
  let ?ss = "map (\<lambda>i. (slot i, V i)) [0..<?n]"
  let ?d2 = "(apply_w ?ss d)(hdr := enc H x)"
  let ?d3 = "apply_w (take m (installs H V)) ?d2"
  note la = legal_addr [OF l]
  have len: "length (installs H V) = ?n" by (simp add: installs_def)
  have d2: "apply_w (take m (installs H V)) ?d2 a = apply_w (take m (installs H V)) d a" for m
  proof -
    have "?d2 a = d a" using a slots_miss [of ?n a] by simp
    then show ?thesis by (rule apply_w_at)
  qed
  show ?thesis
  proof (cases "m \<le> ?n")
    case True
    have slot: "?d3 (slot i) = V i" if "i < ?n" for i
    proof -
      have "?d3 (slot i) = ?d2 (slot i)" by (rule installs_miss) (use la that in fastforce)
      also have "\<dots> = V i" using apply_w_map [of slot 0 ?n i V d] la that by (simp add: lessThan_atLeast0)
      finally show ?thesis .
    qed
    have h: "?d3 hdr = enc H x" by (subst installs_miss) (use la in auto)
    have "recover ?d3 a = apply_w (installs H V) ?d3 a" by (rule recover_header) (use l h a(1) slot in auto)
    also have "\<dots> = apply_w (installs H V) d a" by (rule reinstall [OF l, where m = m]) (rule d2)
    finally have "recover ?d3 a = apply_w (installs H V) d a" .
    moreover have "take k (commit_writes H V x) = ?ss @ [(hdr, enc H x)] @ take m (installs H V)"
      using m True by (simp add: commit_writes_def len)
    ultimately show ?thesis by simp
  next
    case False
    then have "take k (commit_writes H V x) = ?ss @ [(hdr, enc H x)] @ installs H V @ [(hdr, enc [] (enc H x))]"
      using m by (simp add: commit_writes_def len)
    then show ?thesis using recover_cleared [OF l _ a(1)] a(1) d2 [of ?n] len by simp
  qed
qed

text \<open>A crash during recovery does no harm either.\<close>

lemma crash_in_recovery:
  assumes l: "legal H x" "d hdr = enc H x" and a: "a \<noteq> hdr"
  shows "recover (apply_w (take k (installs H (\<lambda>i. d (slot i)) @ [(hdr, enc [] (d hdr))])) d) a = recover d a"
proof -
  let ?V = "\<lambda>i. d (slot i)"
  let ?d = "apply_w (take k (installs H ?V)) d"
  have len: "length (installs H ?V) = length H" by (simp add: installs_def)
  have r: "recover d a = apply_w (installs H ?V) d a" by (rule recover_header) (use l a in auto)
  show ?thesis
  proof (cases "k \<le> length H")
    case True
    have "?d hdr = enc H x" using l(2) by (subst installs_miss) (use legal_addr [OF l(1)] in auto)
    moreover have "?d (slot i) = ?V i" if "i < length H" for i
      by (rule installs_miss) (use legal_addr [OF l(1)] that in fastforce)
    ultimately have "recover ?d a = apply_w (installs H ?V) ?d a" by (intro recover_header) (use l(1) a in auto)
    also have "\<dots> = apply_w (installs H ?V) d a" by (rule reinstall [OF l(1), where m = k]) simp
    finally show ?thesis using r True len by simp
  next
    case False
    then show ?thesis using r recover_cleared [OF l(1) _ a] a l(2) len by simp
  qed
qed

end

section \<open>The header format\<close>

definition head_put :: "u32 list \<Rightarrow> u8 list \<Rightarrow> u8 list" where
  "head_put H x = fold (\<lambda>i x. put_w (4 + 4 * i) (H ! i) x) [0..<length H] (put_w 0 (of_nat (length H) :: u32) x)"

definition head_get :: "u8 list \<Rightarrow> u32 list" where
  "head_get x = map (\<lambda>i. get_w (4 + 4 * i) x) [0..<nat (sint (get_w 0 x :: u32))]"

definition log_slot :: "u32 \<Rightarrow> nat \<Rightarrow> u32" where
  "log_slot S i = S + of_nat i + 1"

text \<open>A transaction for a log that starts at block S, and the header block it goes to.\<close>

definition log_legal :: "u32 \<Rightarrow> u32 list \<Rightarrow> u8 list \<Rightarrow> bool" where
  "log_legal S H x \<longleftrightarrow> length H < LOGSIZE \<and> distinct H \<and> length x = BSIZE \<and> unat S + LOGSIZE < 0x80000000 \<and>
     (\<forall>h\<in>set H. h < 0x80000000 \<and> (h < S \<or> S + of_nat LOGSIZE \<le> h))"

lemma head_put_steps:
  assumes "k \<le> LOGSIZE" "length x = BSIZE" "k \<le> length H"
  shows "length (fold (\<lambda>i x. put_w (4 + 4 * i) (H ! i) x) [0..<k] x) = BSIZE \<and>
    (get_w 0 (fold (\<lambda>i x. put_w (4 + 4 * i) (H ! i) x) [0..<k] x) :: u32) = get_w 0 x \<and>
    (\<forall>j<k. get_w (4 + 4 * j) (fold (\<lambda>i x. put_w (4 + 4 * i) (H ! i) x) [0..<k] x) = (H ! j :: u32))"
  using assms
proof (induction k)
  case (Suc k)
  let ?y = "fold (\<lambda>i x. put_w (4 + 4 * i) (H ! i) x) [0..<k] x"
  have y: "length ?y = BSIZE" "(get_w 0 ?y :: u32) = get_w 0 x" "\<And>j. j < k \<Longrightarrow> get_w (4 + 4 * j) ?y = (H ! j :: u32)"
    using Suc by auto
  have b: "4 + 4 * k + 4 \<le> length ?y" using Suc.prems y(1) by (simp add: BSIZE_def LOGSIZE_def)
  have "(get_w (4 + 4 * j) (put_w (4 + 4 * k) (H ! k) ?y) :: u32) = H ! j" if "j < Suc k" for j
  proof (cases "j = k")
    case True
    then show ?thesis using b by (simp add: get_put_same)
  next
    case False
    then show ?thesis using that b y(3) [of j] by (subst get_put_other) auto
  qed
  moreover have "(get_w 0 (put_w (4 + 4 * k) (H ! k) ?y) :: u32) = get_w 0 x"
    using b y(2) by (subst get_put_other) auto
  ultimately show ?case using b y(1) by simp
qed simp

lemma length_head_put: "length H \<le> LOGSIZE \<Longrightarrow> length x = BSIZE \<Longrightarrow> length (head_put H x) = BSIZE"
  unfolding head_put_def by (subst head_put_steps [THEN conjunct1]) (simp_all add: BSIZE_def)

lemma head_get_put: "length H \<le> LOGSIZE \<Longrightarrow> length x = BSIZE \<Longrightarrow> head_get (head_put H x) = H"
proof -
  assume a: "length H \<le> LOGSIZE" "length x = BSIZE"
  let ?x = "put_w 0 (of_nat (length H) :: u32) x"
  have "length ?x = BSIZE" "(get_w 0 ?x :: u32) = of_nat (length H)" using a(2) by (simp_all add: BSIZE_def get_put_same)
  moreover have "sint (of_nat (length H) :: u32) = int (length H)"
    using a(1) sint_int32 [of "int (length H)"] by (simp add: LOGSIZE_def)
  ultimately show ?thesis
    using head_put_steps [OF a(1), of ?x H] by (auto simp: head_get_def head_put_def intro!: nth_equalityI)
qed

lemma log_slot_less: "unat S + LOGSIZE < 0x80000000 \<Longrightarrow> i < LOGSIZE \<Longrightarrow> unat (log_slot S i) = unat S + i + 1"
  by (simp add: log_slot_def unat_word_ariths LOGSIZE_def unat_of_nat)

lemma log_legalD:
  assumes "log_legal S H x"
  shows "length H \<le> LOGSIZE" "distinct H" "length x = BSIZE" "unat S + LOGSIZE < 0x80000000" "S < 0x80000000"
    "i < length H \<Longrightarrow> H ! i < 0x80000000" "i < length H \<Longrightarrow> H ! i \<noteq> S"
    "i < length H \<Longrightarrow> j < length H \<Longrightarrow> H ! i \<noteq> log_slot S j"
    "j < LOGSIZE \<Longrightarrow> log_slot S j < 0x80000000" "j < LOGSIZE \<Longrightarrow> log_slot S j \<noteq> S"
    "j < LOGSIZE \<Longrightarrow> k < LOGSIZE \<Longrightarrow> log_slot S j = log_slot S k \<longleftrightarrow> j = k"
    "length H < LOGSIZE"
proof -
  note l = assms [unfolded log_legal_def]
  show "length H < LOGSIZE" "length H \<le> LOGSIZE" "distinct H" "length x = BSIZE" and S: "unat S + LOGSIZE < 0x80000000" using l by auto
  then show "S < 0x80000000" by (simp add: word_less_nat_alt)
  have s: "unat (log_slot S j) = unat S + j + 1" if "j < LOGSIZE" for j using log_slot_less [OF S that] .
  show "log_slot S j < 0x80000000" if "j < LOGSIZE" using s [OF that] S that by (simp add: word_less_nat_alt)
  show "log_slot S j \<noteq> S" if "j < LOGSIZE"
  proof
    assume "log_slot S j = S"
    then show False using s [OF that] by simp
  qed
  show "log_slot S j = log_slot S k \<longleftrightarrow> j = k" if "j < LOGSIZE" "k < LOGSIZE"
    using s [OF that(1)] s [OF that(2)] by (metis add_left_cancel add_right_cancel)
  have e: "unat (S + of_nat LOGSIZE) = unat S + LOGSIZE"
    using S by (simp add: unat_word_ariths LOGSIZE_def)
  show "H ! i < 0x80000000" if "i < length H" using l that by auto
  show "H ! i \<noteq> S" if "i < length H"
  proof
    assume "H ! i = S"
    then have "S < S \<or> S + of_nat LOGSIZE \<le> S" using l that by (metis nth_mem)
    then show False using e by (simp add: word_less_nat_alt word_le_nat_alt LOGSIZE_def)
  qed
  show "H ! i \<noteq> log_slot S j" if "i < length H" "j < length H"
  proof
    assume "H ! i = log_slot S j"
    then have "log_slot S j < S \<or> S + of_nat LOGSIZE \<le> log_slot S j" using l that(1) by (metis nth_mem)
    then show False using s [of j] e that(2) l by (simp add: word_less_nat_alt word_le_nat_alt)
  qed
qed

interpretation wal: redo_log sector_of "sector_of S" "\<lambda>i. sector_of (log_slot S i)" head_put head_get "log_legal S" for S
proof
  fix H x assume l: "log_legal S H x"
  note d = log_legalD [OF l]
  show "head_get (head_put H x) = H" using head_get_put d by simp
  show "head_get (head_put [] (head_put H x)) = []" using head_get_put [of "[]"] length_head_put d by (simp add: LOGSIZE_def)
  show "inj_on (\<lambda>i. sector_of (H ! i)) {..<length H} \<and> inj_on (\<lambda>i. sector_of (log_slot S i)) {..<length H} \<and>
    (\<forall>i<length H. sector_of (log_slot S i) \<noteq> sector_of S \<and> sector_of (H ! i) \<noteq> sector_of S \<and>
      (\<forall>j<length H. sector_of (H ! i) \<noteq> sector_of (log_slot S j)))"
    using d by (auto simp: inj_on_def sector_of_inj nth_eq_iff_index_eq)
qed

section \<open>The code's writes\<close>

text \<open>The in-memory header lists H for a log at block S; the pinned buffers are those of H.\<close>

definition log_at :: "u32 \<Rightarrow> u32 list \<Rightarrow> 'z log_state_scheme \<Rightarrow> bool" where
  "log_at S H s \<longleftrightarrow> lg_dev (lg s) = 1 \<and> lg_start (lg s) = uint S \<and> lh_n (lg s) = int (length H) \<and>
     (\<forall>i<length H. word_of_int (lh_block (lg s) i) = H ! i)"

definition pinned :: "nat set \<Rightarrow> u32 set \<Rightarrow> 'z disk_state_scheme \<Rightarrow> bool" where
  "pinned Q A s \<longleftrightarrow> (\<forall>i\<in>Q. b_blockno (bufs s i) \<in> A) \<and> (\<forall>h\<in>A. \<exists>i\<in>Q. b_blockno (bufs s i) = h)"

lemma bio_frame_lg:
  assumes "bio_frame s s'"
  shows "lg s' = lg s"
proof -
  have "lg (s'\<lparr>procs := procs s, vdisk := vdisk s, bufs := bufs s, sleeplocks := sleeplocks s, media := media s,
       dwrites := dwrites s\<rparr>) = lg s" using assms by (simp add: bio_frame_def)
  then show ?thesis by simp
qed

lemma pinned_cong: "(\<And>i. i \<in> Q \<Longrightarrow> b_blockno (bufs s' i) = b_blockno (bufs s i)) \<Longrightarrow> pinned Q A s' = pinned Q A s"
  by (simp add: pinned_def)

text \<open>Reading a pinned block finds its buffer.\<close>

lemma bread_pinned:
  assumes sw: "waits_for_disk sw" and c: "cache_ok p Q s" and h: "pinned Q A s" "h \<in> A"
    and l: "\<And>i. i \<in> locked_bufs s \<Longrightarrow> b_blockno (bufs s i) \<noteq> h"
  obtains b s' where "bread sw ROOTDEV h s = Some (b, s')" "cache_ok p Q s'" "bio_frame s s'" "b \<notin> locked_bufs s" "b \<in> Q"
    "locked_bufs s' = insert b (locked_bufs s)" "b_blockno (bufs s' b) = h" "b_data (bufs s' b) = view s h"
    "view s' = view s" "media s' = media s" "dwrites s' = dwrites s" "\<forall>i. i \<noteq> b \<longrightarrow> bufs s' i = bufs s i"
    "b_blockno (bufs s b) = h"
proof -
  obtain i where i: "i \<in> Q" "b_blockno (bufs s i) = h" using h by (auto simp: pinned_def)
  then have "h < 0x80000000" "room Q s h" using cache_okD(9) [OF c i(1)] by (auto simp: room_def)
  then obtain b s' where r: "bread sw ROOTDEV h s = Some (b, s')" "cache_ok p Q s'" "bio_frame s s'" "b < NBUF" "b \<notin> locked_bufs s"
    "locked_bufs s' = insert b (locked_bufs s)" "b_blockno (bufs s' b) = h" "b_data (bufs s' b) = view s h"
    "view s' = view s" "media s' = media s" "dwrites s' = dwrites s" "\<forall>i. i \<noteq> b \<longrightarrow> bufs s' i = bufs s i"
    "b \<in> Q \<longrightarrow> b_blockno (bufs s b) = h"
    using bread_c [OF sw c _ _ l] by blast
  have "b = i"
  proof (rule ccontr)
    assume "b \<noteq> i"
    then have "b_blockno (bufs s' i) = h" using r(12) i(2) by simp
    then show False using cache_okD(10) [OF r(2), of i b] cache_okD(9) [OF r(2) i(1)] cache_okD(8) [OF r(2), of b] r(6,7) \<open>b \<noteq> i\<close> by auto
  qed
  then show ?thesis using that [OF r(1-3,5) _ r(6-12)] r(13) i by simp
qed

lemma write_log_step:
  assumes sw: "waits_for_disk sw" and c: "cache_ok p Q s" "locked_bufs s = {}" "card Q < NBUF" "pinned Q (set H) s"
    and l: "log_at S H s" "log_legal S H x" and k: "k < length H"
  shows "\<exists>s'. write_log_loop sw k s = write_log_loop sw (Suc k) s' \<and> cache_ok p Q s' \<and> locked_bufs s' = {} \<and>
    pinned Q (set H) s' \<and> log_at S H s' \<and> bio_frame s s' \<and> view s' = (view s)(log_slot S k := view s (H ! k)) \<and>
    media s' = (media s)(sector_of (log_slot S k) := view s (H ! k)) \<and>
    dwrites s' = dwrites s @ [(sector_of (log_slot S k), view s (H ! k))]"
proof -
  note ll = log_legalD [OF l(2)]
  have kL: "k < LOGSIZE" using k ll(1) by simp
  let ?a = "log_slot S k" and ?h = "H ! k"
  have ah: "?a \<noteq> ?h" "?a \<notin> set H" using ll(8) [OF _ k] k by (auto simp: in_set_conv_nth) metis
  have rm: "room Q s ?a" using c(2,3) by (simp add: room_def)
  obtain to s1 where r1: "bread sw ROOTDEV ?a s = Some (to, s1)" "cache_ok p Q s1" "bio_frame s s1" "to < NBUF" "to \<notin> locked_bufs s"
    "locked_bufs s1 = insert to (locked_bufs s)" "b_blockno (bufs s1 to) = ?a" "b_data (bufs s1 to) = view s ?a"
    "view s1 = view s" "media s1 = media s" "dwrites s1 = dwrites s" "\<forall>i. i \<noteq> to \<longrightarrow> bufs s1 i = bufs s i"
    "to \<in> Q \<longrightarrow> b_blockno (bufs s to) = ?a"
    by (rule bread_c [OF sw c(1) ll(9) [OF kL] rm]) (use c(2) in auto)
  have toQ: "to \<notin> Q" using r1(13) c(4) ah(2) by (auto simp: pinned_def)
  have p1: "pinned Q (set H) s1" using c(4) by (subst pinned_cong [where s = s]) (use r1(12) toQ in auto)
  obtain fb s2 where r2: "bread sw ROOTDEV ?h s1 = Some (fb, s2)" "cache_ok p Q s2" "bio_frame s1 s2" "fb \<notin> locked_bufs s1" "fb \<in> Q"
    "locked_bufs s2 = insert fb (locked_bufs s1)" "b_blockno (bufs s2 fb) = ?h" "b_data (bufs s2 fb) = view s1 ?h"
    "view s2 = view s1" "media s2 = media s1" "dwrites s2 = dwrites s1" "\<forall>i. i \<noteq> fb \<longrightarrow> bufs s2 i = bufs s1 i"
    "b_blockno (bufs s1 fb) = ?h"
    by (rule bread_pinned [OF sw r1(2) p1, of ?h]) (use k r1(6,7) c(2) ah(1) in auto)
  have tf: "to \<noteq> fb" using r2(4) r1(6) by auto
  let ?V = "view s ?h"
  let ?s3 = "set_data to ?V s2"
  have to2: "to \<in> locked_bufs s2" "b_blockno (bufs s2 to) = ?a" using r1(6,7) r2(6,12) tf by auto
  have V: "length ?V = BSIZE" using cache_okD(6) [OF c(1) ll(6) [OF k]] .
  note s3 = set_data_c [OF r2(2) to2(1) V]
  have to3: "to \<in> locked_bufs ?s3" using to2 by simp
  obtain s4 where r4: "bwrite sw to ?s3 = Some s4" "cache_ok p Q s4" "bio_frame ?s3 s4" "locked_bufs s4 = locked_bufs ?s3"
    "bufs s4 = bufs ?s3" "view s4 = view ?s3" "media s4 = (media ?s3)(sector_of (b_blockno (bufs ?s3 to)) := b_data (bufs ?s3 to))"
    "dwrites s4 = dwrites ?s3 @ [(sector_of (b_blockno (bufs ?s3 to)), b_data (bufs ?s3 to))]"
    by (rule bwrite_c [OF sw s3(1) to3])
  have f4: "fb \<in> locked_bufs s4" using r4(4) r2(6) by simp
  obtain s5 where r5: "brelse fb s4 = Some s5" "cache_ok p Q s5" "bio_frame s4 s5"
    "locked_bufs s5 = locked_bufs s4 - {fb}" "view s5 = view s4" "media s5 = media s4" "dwrites s5 = dwrites s4"
    "\<forall>i. b_data (bufs s5 i) = b_data (bufs s4 i)" "\<forall>i. b_blockno (bufs s5 i) = b_blockno (bufs s4 i)"
    by (rule brelse_c [OF r4(2) f4]) (use r2(5) in auto)
  have t5: "to \<in> locked_bufs s5" using r5(4) r4(4) to2 tf by simp
  have d5: "to \<in> Q \<or> b_data (bufs s5 to) = media s5 (sector_of (b_blockno (bufs s5 to)))"
    using r5(6,8,9) r4(5,7) by simp
  obtain s6 where r6: "brelse to s5 = Some s6" "cache_ok p Q s6" "bio_frame s5 s6"
    "locked_bufs s6 = locked_bufs s5 - {to}" "view s6 = view s5" "media s6 = media s5" "dwrites s6 = dwrites s5"
    "\<forall>i. b_data (bufs s6 i) = b_data (bufs s5 i)" "\<forall>i. b_blockno (bufs s6 i) = b_blockno (bufs s5 i)"
    by (rule brelse_c [OF r5(2) t5 d5])
  have fr2: "bio_frame s s2" using r1(3) r2(3) bio_frame_trans by blast
  have "bio_frame s ?s3" by (rule bio_frame_trans [OF fr2]) simp
  then have fr: "bio_frame s s6" using r4(3) r5(3) r6(3) bio_frame_trans by blast
  have lg: "lg s1 = lg s" "lg s6 = lg s" using bio_frame_lg r1(3) fr by blast+
  have "write_log_loop sw k s = write_log_loop sw (Suc k) s6"
    using l(1) k kL r1(1) [unfolded ROOTDEV_def log_slot_def] r2(1) [unfolded ROOTDEV_def] r2(8) r1(9) r4(1) r5(1) r6(1) lg
    by (subst write_log_loop.simps) (simp add: log_at_def lh_get_def)
  moreover have "b_blockno (bufs s6 i) = b_blockno (bufs s i)" if "i \<in> Q" for i
    using that toQ r6(9) r5(9) r4(5) r2(7,12,13) r1(12) by (cases "i = fb") auto
  then have "pinned Q (set H) s6" using pinned_cong [of Q s6 s] c(4) by auto
  moreover have "log_at S H s6" using l(1) lg by (simp add: log_at_def)
  moreover have "locked_bufs s6 = {}" using r6(4) r5(4) r4(4) r2(6) r1(6) c(2) tf by auto
  ultimately show ?thesis
    using r6(2,5,6,7) r5(5-7) r4(5-8) s3(2) r2(9-11) r1(9-11) to2(2) fr by (intro exI [of _ s6]) simp
qed

lemma write_log_ok:
  assumes sw: "waits_for_disk sw" and c: "cache_ok p Q s" "locked_bufs s = {}" "card Q < NBUF" "pinned Q (set H) s"
    and l: "log_at S H s" "log_legal S H x" and k: "k \<le> length H"
  shows "\<exists>s'. write_log_loop sw k s = Some s' \<and> cache_ok p Q s' \<and> locked_bufs s' = {} \<and>
    pinned Q (set H) s' \<and> log_at S H s' \<and> bio_frame s s' \<and>
    view s' = apply_w (map (\<lambda>j. (log_slot S j, view s (H ! j))) [k..<length H]) (view s) \<and>
    media s' = apply_w (map (\<lambda>j. (sector_of (log_slot S j), view s (H ! j))) [k..<length H]) (media s) \<and>
    dwrites s' = dwrites s @ map (\<lambda>j. (sector_of (log_slot S j), view s (H ! j))) [k..<length H]"
  using c l(1) k
proof (induction "length H - k" arbitrary: k s)
  case 0
  then have "k = length H" by simp
  then show ?case using 0 by (subst write_log_loop.simps) (simp add: log_at_def)
next
  case (Suc n)
  have k: "k < length H" using Suc.hyps(2) by simp
  from write_log_step [OF sw Suc.prems(1-5) l(2) k] obtain s1 where
    1: "write_log_loop sw k s = write_log_loop sw (Suc k) s1" "cache_ok p Q s1" "locked_bufs s1 = {}"
    "pinned Q (set H) s1" "log_at S H s1" "bio_frame s s1" "view s1 = (view s)(log_slot S k := view s (H ! k))"
    "media s1 = (media s)(sector_of (log_slot S k) := view s (H ! k))"
    "dwrites s1 = dwrites s @ [(sector_of (log_slot S k), view s (H ! k))]" by blast
  have v: "view s1 (H ! j) = view s (H ! j)" if "j < length H" for j
    using log_legalD(8) [OF l(2) that, of k] k log_legalD(1) [OF l(2)] 1(7) by auto
  have u: "[k..<length H] = k # [Suc k..<length H]" using k by (simp add: upt_conv_Cons)
  have m: "map (\<lambda>j. (f j, view s1 (H ! j))) [Suc k..<length H] = map (\<lambda>j. (f j, view s (H ! j))) [Suc k..<length H]" for f :: "nat \<Rightarrow> 'b"
    using v by auto
  have "n = length H - Suc k" "Suc k \<le> length H" using Suc.hyps(2) k by auto
  from Suc.hyps(1) [OF this(1) 1(2,3) Suc.prems(3) 1(4,5) this(2)] obtain s' where
    2: "write_log_loop sw (Suc k) s1 = Some s'" "cache_ok p Q s'" "locked_bufs s' = {}"
    "pinned Q (set H) s'" "log_at S H s'" "bio_frame s1 s'"
    "view s' = apply_w (map (\<lambda>j. (log_slot S j, view s1 (H ! j))) [Suc k..<length H]) (view s1)"
    "media s' = apply_w (map (\<lambda>j. (sector_of (log_slot S j), view s1 (H ! j))) [Suc k..<length H]) (media s1)"
    "dwrites s' = dwrites s1 @ map (\<lambda>j. (sector_of (log_slot S j), view s1 (H ! j))) [Suc k..<length H]" by blast
  have "bio_frame s s'" using 1(6) 2(6) bio_frame_trans by blast
  then show ?case using 1(1,7-9) 2(1-5) 2(7-9) [unfolded m] by (intro exI [of _ s']) (simp add: u)
qed

lemma set_data_twice [simp]: "set_data b d (set_data b d' s) = set_data b d s" "lg (set_data b d s) = lg s"
  by (simp_all add: set_data_def upd_buf_def)

lemma write_head_ok:
  assumes sw: "waits_for_disk sw" and c: "cache_ok p Q s" "locked_bufs s = {}" "card Q < NBUF"
    and n: "\<And>i. i \<in> Q \<Longrightarrow> b_blockno (bufs s i) \<noteq> S"
    and l: "log_at S H s" "S < 0x80000000" "length H \<le> LOGSIZE"
  obtains s' where "write_head sw s = Some s'" "cache_ok p Q s'" "locked_bufs s' = {}" "bio_frame s s'"
    "view s' = (view s)(S := head_put H (view s S))" "media s' = (media s)(sector_of S := head_put H (view s S))"
    "dwrites s' = dwrites s @ [(sector_of S, head_put H (view s S))]" "\<forall>i\<in>Q. b_blockno (bufs s' i) = b_blockno (bufs s i)"
proof -
  have rm: "room Q s S" using c(2,3) by (simp add: room_def)
  obtain b s1 where r1: "bread sw ROOTDEV S s = Some (b, s1)" "cache_ok p Q s1" "bio_frame s s1" "b < NBUF" "b \<notin> locked_bufs s"
    "locked_bufs s1 = insert b (locked_bufs s)" "b_blockno (bufs s1 b) = S" "b_data (bufs s1 b) = view s S"
    "view s1 = view s" "media s1 = media s" "dwrites s1 = dwrites s" "\<forall>i. i \<noteq> b \<longrightarrow> bufs s1 i = bufs s i"
    "b \<in> Q \<longrightarrow> b_blockno (bufs s b) = S"
    by (rule bread_c [OF sw c(1) l(2) rm]) (use c(2) in auto)
  have bQ: "b \<notin> Q" using r1(13) n by auto
  let ?x0 = "put_w 0 (of_nat (length H) :: u32) (view s S)"
  let ?X = "\<lambda>k. fold (\<lambda>i x. put_w (4 + 4 * i) (H ! i) x) [0..<k] ?x0"
  have lg1: "lg s1 = lg s" using bio_frame_lg [OF r1(3)] .
  have loop: "for_n 0 (length H) (\<lambda>i s. lh_get i s \<bind> (\<lambda>v. Some (set_data b (put_w (4 + 4 * i) (word_of_int v :: u32) (b_data (bufs s b))) s)))
      (set_data b (?X 0) s1) = Some (set_data b (?X (0 + length H)) s1)"
    by (rule for_n_states [where S = "\<lambda>k. set_data b (?X k) s1"]) (use l lg1 in \<open>auto simp: lh_get_def log_at_def\<close>)
  let ?s2 = "set_data b (head_put H (view s S)) s1"
  have b1: "b \<in> locked_bufs s1" using r1(6) by simp
  have len: "length (head_put H (view s S)) = BSIZE" using length_head_put [OF l(3)] cache_okD(6) [OF c(1) l(2)] by simp
  note s2 = set_data_c [OF r1(2) b1 len]
  have b2: "b \<in> locked_bufs ?s2" using b1 by simp
  obtain s3 where r3: "bwrite sw b ?s2 = Some s3" "cache_ok p Q s3" "bio_frame ?s2 s3" "locked_bufs s3 = locked_bufs ?s2"
    "bufs s3 = bufs ?s2" "view s3 = view ?s2" "media s3 = (media ?s2)(sector_of (b_blockno (bufs ?s2 b)) := b_data (bufs ?s2 b))"
    "dwrites s3 = dwrites ?s2 @ [(sector_of (b_blockno (bufs ?s2 b)), b_data (bufs ?s2 b))]"
    by (rule bwrite_c [OF sw s2(1) b2])
  have b3: "b \<in> locked_bufs s3" "b \<in> Q \<or> b_data (bufs s3 b) = media s3 (sector_of (b_blockno (bufs s3 b)))"
    using r3(4,5,7) b2 by auto
  obtain s4 where r4: "brelse b s3 = Some s4" "cache_ok p Q s4" "bio_frame s3 s4"
    "locked_bufs s4 = locked_bufs s3 - {b}" "view s4 = view s3" "media s4 = media s3" "dwrites s4 = dwrites s3"
    "\<forall>i. b_data (bufs s4 i) = b_data (bufs s3 i)" "\<forall>i. b_blockno (bufs s4 i) = b_blockno (bufs s3 i)"
    by (rule brelse_c [OF r3(2) b3])
  have fr: "bio_frame s s4"
    using r1(3) set_data_simps(2) r3(3) r4(3) bio_frame_trans by blast
  have e: "write_head sw s = Some s4"
    using r1(1) [unfolded ROOTDEV_def] loop r3(1) r4(1) l(1) lg1 r1(8)
    by (simp add: write_head_def log_at_def head_put_def)
  show ?thesis
    by (rule that [OF e r4(2) _ fr]) (use r4(4-7,9) r3(4-8) s2(2) r1(6-12) c(2) bQ in auto)
qed

lemma install_step:
  assumes sw: "waits_for_disk sw" and c: "cache_ok p Q s" "locked_bufs s = {}" "card Q < NBUF"
    and q: "if recovering then Q = {} else pinned Q (set (drop k H)) s"
    and l: "log_at S H s" "log_legal S H x" and k: "k < length H"
  shows "\<exists>s' Q'. install_loop sw recovering k s = install_loop sw recovering (Suc k) s' \<and> cache_ok p Q' s' \<and> locked_bufs s' = {} \<and>
    card Q' < NBUF \<and> (if recovering then Q' = {} else pinned Q' (set (drop (Suc k) H)) s') \<and> log_at S H s' \<and> bio_frame s s' \<and>
    view s' = (view s)(H ! k := view s (log_slot S k)) \<and>
    media s' = (media s)(sector_of (H ! k) := view s (log_slot S k)) \<and>
    dwrites s' = dwrites s @ [(sector_of (H ! k), view s (log_slot S k))]"
proof -
  note ll = log_legalD [OF l(2)]
  have kL: "k < LOGSIZE" using k ll(1) by simp
  let ?a = "log_slot S k" and ?h = "H ! k" and ?V = "view s (log_slot S k)"
  have ah: "?a \<noteq> ?h" "?a \<notin> set H" using ll(8) [OF _ k] k by (auto simp: in_set_conv_nth) metis
  have hb: "?h < 0x80000000" "?a < 0x80000000" using ll(6) [OF k] ll(9) [OF kL] .
  have hd: "?h \<in> set (drop k H)" "set (drop k H) \<subseteq> set H" using k by (auto simp: set_drop_subset in_set_conv_nth intro!: exI [of _ 0])
  have nq: "b_blockno (bufs s i) \<noteq> ?a" if "i \<in> Q" for i
    using that q ah(2) hd(2) by (auto simp: pinned_def split: if_splits)
  have cl: "?V = media s (sector_of ?a)" by (rule view_clean [OF c(1) hb(2)]) (use c(2) nq in auto)
  have rm: "room Q s ?a" using c(2,3) by (simp add: room_def)
  obtain lb s1 where r1: "bread sw ROOTDEV ?a s = Some (lb, s1)" "cache_ok p Q s1" "bio_frame s s1" "lb < NBUF" "lb \<notin> locked_bufs s"
    "locked_bufs s1 = insert lb (locked_bufs s)" "b_blockno (bufs s1 lb) = ?a" "b_data (bufs s1 lb) = view s ?a"
    "view s1 = view s" "media s1 = media s" "dwrites s1 = dwrites s" "\<forall>i. i \<noteq> lb \<longrightarrow> bufs s1 i = bufs s i"
    "lb \<in> Q \<longrightarrow> b_blockno (bufs s lb) = ?a"
    by (rule bread_c [OF sw c(1) hb(2) rm]) (use c(2) in auto)
  have lQ: "lb \<notin> Q" using r1(13) nq by auto
  have p1: "recovering \<or> pinned Q (set (drop k H)) s1"
    using q by (auto split: if_splits) (subst pinned_cong [where s = s], use r1(12) lQ in auto)
  have rm1: "room Q s1 ?h"
    using p1 hd(1) q r1(6) c(2) by (auto simp: room_def pinned_def NBUF_def split: if_splits)
  obtain db s2 where r2: "bread sw ROOTDEV ?h s1 = Some (db, s2)" "cache_ok p Q s2" "bio_frame s1 s2" "db < NBUF" "db \<notin> locked_bufs s1"
    "locked_bufs s2 = insert db (locked_bufs s1)" "b_blockno (bufs s2 db) = ?h" "b_data (bufs s2 db) = view s1 ?h"
    "view s2 = view s1" "media s2 = media s1" "dwrites s2 = dwrites s1" "\<forall>i. i \<noteq> db \<longrightarrow> bufs s2 i = bufs s1 i"
    "db \<in> Q \<longrightarrow> b_blockno (bufs s1 db) = ?h"
    by (rule bread_c [OF sw r1(2) hb(1) rm1]) (use r1(6,7) c(2) ah(1) in auto)
  have ld: "lb \<noteq> db" using r2(5) r1(6) by auto
  let ?s3 = "set_data db ?V s2"
  have d2: "db \<in> locked_bufs s2" "lb \<in> locked_bufs s2" "b_data (bufs s2 lb) = ?V" using r1(6,8) r2(6,12) ld by auto
  have V: "length ?V = BSIZE" using cache_okD(6) [OF c(1) hb(2)] .
  note s3 = set_data_c [OF r2(2) d2(1) V]
  have d3: "db \<in> locked_bufs ?s3" using d2 by simp
  obtain s4 where r4: "bwrite sw db ?s3 = Some s4" "cache_ok p Q s4" "bio_frame ?s3 s4" "locked_bufs s4 = locked_bufs ?s3"
    "bufs s4 = bufs ?s3" "view s4 = view ?s3" "media s4 = (media ?s3)(sector_of (b_blockno (bufs ?s3 db)) := b_data (bufs ?s3 db))"
    "dwrites s4 = dwrites ?s3 @ [(sector_of (b_blockno (bufs ?s3 db)), b_data (bufs ?s3 db))]"
    by (rule bwrite_c [OF sw s3(1) d3])
  have dQ: "db \<in> Q" if nr: "\<not> recovering"
  proof -
    obtain i where i: "i \<in> Q" "b_blockno (bufs s1 i) = ?h" using p1 nr hd(1) by (auto simp: pinned_def)
    have "i = db"
    proof (rule ccontr)
      assume n: "i \<noteq> db"
      then have "b_blockno (bufs s2 i) = ?h" using r2(12) i(2) by simp
      then show False using cache_okD(10) [OF r2(2), of i db] cache_okD(9) [OF r2(2) i(1)] cache_okD(8) [OF r2(2) d2(1)] r2(7) n by auto
    qed
    then show ?thesis using i(1) by simp
  qed
  let ?Q = "if recovering then Q else Q - {db}"
  have d4: "db \<in> locked_bufs s4" using r4(4) d3 by simp
  obtain s5 where r5: "(if \<not> recovering then bunpin db s4 else Some s4) = Some s5" "cache_ok p ?Q s5" "bio_frame s4 s5"
    "locked_bufs s5 = locked_bufs s4" "view s5 = view s4" "media s5 = media s4" "dwrites s5 = dwrites s4"
    "\<forall>i. b_data (bufs s5 i) = b_data (bufs s4 i)" "\<forall>i. b_blockno (bufs s5 i) = b_blockno (bufs s4 i)"
  proof (cases recovering)
    case True
    then show ?thesis using that [of s4] r4(2) by simp
  next
    case False
    show ?thesis by (rule bunpin_c [OF r4(2) d4 dQ [OF False]]) (use that False in simp)
  qed
  have sa: "sector_of ?a \<noteq> sector_of ?h" using sector_of_inj [OF hb(2,1)] ah(1) by simp
  have M5: "media s5 = (media s)(sector_of ?h := ?V)" using r5(6) r4(7) r2(7,10) r1(10) by simp
  have B5: "b_data (bufs s5 lb) = ?V" "b_blockno (bufs s5 lb) = ?a" "b_data (bufs s5 db) = ?V" "b_blockno (bufs s5 db) = ?h"
    using r5(8,9) r4(5) d2(3) r2(7,12) r1(7) ld by auto
  have l5: "lb \<in> locked_bufs s5" "db \<in> locked_bufs s5" using r5(4) r4(4) d2 by auto
  obtain s6 where r6: "brelse lb s5 = Some s6" "cache_ok p ?Q s6" "bio_frame s5 s6"
    "locked_bufs s6 = locked_bufs s5 - {lb}" "view s6 = view s5" "media s6 = media s5" "dwrites s6 = dwrites s5"
    "\<forall>i. b_data (bufs s6 i) = b_data (bufs s5 i)" "\<forall>i. b_blockno (bufs s6 i) = b_blockno (bufs s5 i)"
    by (rule brelse_c [OF r5(2) l5(1)]) (use B5 M5 sa cl in auto)
  have l6: "db \<in> locked_bufs s6" using r6(4) l5 ld by simp
  obtain s7 where r7: "brelse db s6 = Some s7" "cache_ok p ?Q s7" "bio_frame s6 s7"
    "locked_bufs s7 = locked_bufs s6 - {db}" "view s7 = view s6" "media s7 = media s6" "dwrites s7 = dwrites s6"
    "\<forall>i. b_data (bufs s7 i) = b_data (bufs s6 i)" "\<forall>i. b_blockno (bufs s7 i) = b_blockno (bufs s6 i)"
    by (rule brelse_c [OF r6(2) l6]) (use r6(6,8,9) B5 M5 in auto)
  have fr: "bio_frame s s7"
    using r1(3) r2(3) set_data_simps(2) r4(3) r5(3) r6(3) r7(3) bio_frame_trans by meson
  have lg: "lg s1 = lg s" "lg s7 = lg s" using bio_frame_lg r1(3) fr by blast+
  have e: "install_loop sw recovering k s = install_loop sw recovering (Suc k) s7"
    using l(1) k kL r1(1) [unfolded ROOTDEV_def log_slot_def] r2(1) [unfolded ROOTDEV_def] d2(3) r4(1) r5(1) r6(1) r7(1) lg(1)
    by (subst install_loop.simps) (simp add: log_at_def lh_get_def)
  have bn: "b_blockno (bufs s7 i) = b_blockno (bufs s i)" if "i \<in> Q" for i
    using that lQ r7(9) r6(9) r5(9) r4(5) r2(7,12,13) r1(12) by (cases "i = db") auto
  have "drop k H = ?h # drop (Suc k) H" using k by (simp add: Cons_nth_drop_Suc)
  then have dr: "set (drop k H) = insert ?h (set (drop (Suc k) H))" "?h \<notin> set (drop (Suc k) H)"
    using distinct_drop [OF ll(2), of k] by (metis list.simps(15), metis distinct.simps(2))
  have bd: "b_blockno (bufs s db) = ?h" if "\<not> recovering" using bn [OF dQ [OF that]] r7(9) r6(9) B5(4) by simp
  have uq: "b_blockno (bufs s i) \<noteq> ?h" if "i \<in> Q - {db}" "\<not> recovering" for i
    using that cache_okD(10) [OF c(1), of i db] cache_okD(9) [OF c(1)] dQ bd by (metis Diff_iff singletonI)
  have pn: "pinned (Q - {db}) (set (drop (Suc k) H)) s7" if nr: "\<not> recovering"
  proof -
    have P: "pinned Q (set (drop k H)) s" using q nr by simp
    show ?thesis unfolding pinned_def
    proof (intro conjI ballI)
      fix i assume i: "i \<in> Q - {db}"
      then have "b_blockno (bufs s i) \<in> set (drop k H)" using P by (simp add: pinned_def)
      then show "b_blockno (bufs s7 i) \<in> set (drop (Suc k) H)" using uq [OF i nr] dr(1) bn i by auto
    next
      fix h assume h: "h \<in> set (drop (Suc k) H)"
      then obtain i where "i \<in> Q" "b_blockno (bufs s i) = h" using P dr(1) unfolding pinned_def by blast
      then show "\<exists>i\<in>Q - {db}. b_blockno (bufs s7 i) = h"
        using bd [OF nr] dr(2) h bn [of i] by (intro bexI [of _ i]) auto
    qed
  qed
  have "card ?Q < NBUF" using c(3) card_Diff1_le [of Q db] by (auto simp: less_le_trans)
  then show ?thesis
    using e r7(2,4-7) r6(4-7) r5(4-7) r4(4,6,8) s3(2) r2(6,7,9,11) r1(6,9,11) M5 c(2) fr pn q l(1) lg(2)
    by (intro exI [of _ s7] exI [of _ ?Q]) (auto simp: log_at_def)
qed

lemma install_ok:
  assumes sw: "waits_for_disk sw" and c: "cache_ok p Q s" "locked_bufs s = {}" "card Q < NBUF"
    and q: "if recovering then Q = {} else pinned Q (set (drop k H)) s"
    and l: "log_at S H s" "log_legal S H x" and k: "k \<le> length H"
  shows "\<exists>s'. install_loop sw recovering k s = Some s' \<and> cache_ok p {} s' \<and> locked_bufs s' = {} \<and> log_at S H s' \<and> bio_frame s s' \<and>
    view s' = apply_w (map (\<lambda>j. (H ! j, view s (log_slot S j))) [k..<length H]) (view s) \<and>
    media s' = apply_w (map (\<lambda>j. (sector_of (H ! j), view s (log_slot S j))) [k..<length H]) (media s) \<and>
    dwrites s' = dwrites s @ map (\<lambda>j. (sector_of (H ! j), view s (log_slot S j))) [k..<length H]"
  using c q l(1) k
proof (induction "length H - k" arbitrary: k s Q)
  case 0
  then have "k = length H" by simp
  then show ?case using 0 by (subst install_loop.simps) (auto simp: log_at_def pinned_def split: if_splits)
next
  case (Suc n)
  have k: "k < length H" using Suc.hyps(2) by simp
  from install_step [OF sw Suc.prems(1-5) l(2) k] obtain s1 Q1 where
    1: "install_loop sw recovering k s = install_loop sw recovering (Suc k) s1" "cache_ok p Q1 s1" "locked_bufs s1 = {}" "card Q1 < NBUF"
    "if recovering then Q1 = {} else pinned Q1 (set (drop (Suc k) H)) s1" "log_at S H s1" "bio_frame s s1"
    "view s1 = (view s)(H ! k := view s (log_slot S k))"
    "media s1 = (media s)(sector_of (H ! k) := view s (log_slot S k))"
    "dwrites s1 = dwrites s @ [(sector_of (H ! k), view s (log_slot S k))]" by blast
  have v: "view s1 (log_slot S j) = view s (log_slot S j)" if "j < length H" for j
    using log_legalD(8) [OF l(2) k, of j] that log_legalD(1) [OF l(2)] 1(8) by auto
  have u: "[k..<length H] = k # [Suc k..<length H]" using k by (simp add: upt_conv_Cons)
  have m: "map (\<lambda>j. (f j, view s1 (log_slot S j))) [Suc k..<length H] = map (\<lambda>j. (f j, view s (log_slot S j))) [Suc k..<length H]" for f :: "nat \<Rightarrow> 'b"
    using v by auto
  have "n = length H - Suc k" "Suc k \<le> length H" using Suc.hyps(2) k by auto
  from Suc.hyps(1) [OF this(1) 1(2-6) this(2)] obtain s' where
    2: "install_loop sw recovering (Suc k) s1 = Some s'" "cache_ok p {} s'" "locked_bufs s' = {}" "log_at S H s'" "bio_frame s1 s'"
    "view s' = apply_w (map (\<lambda>j. (H ! j, view s1 (log_slot S j))) [Suc k..<length H]) (view s1)"
    "media s' = apply_w (map (\<lambda>j. (sector_of (H ! j), view s1 (log_slot S j))) [Suc k..<length H]) (media s1)"
    "dwrites s' = dwrites s1 @ map (\<lambda>j. (sector_of (H ! j), view s1 (log_slot S j))) [Suc k..<length H]" by blast
  have "bio_frame s s'" using 1(7) 2(5) bio_frame_trans by blast
  then show ?case using 1(1,8-10) 2(1-4) 2(6-8) [unfolded m] by (intro exI [of _ s']) (simp add: u)
qed

lemma upd_lg_simps [simp]:
  "hw (upd_lg f s) = hw s" "procs (upd_lg f s) = procs s" "bufs (upd_lg f s) = bufs s" "media (upd_lg f s) = media s"
  "dwrites (upd_lg f s) = dwrites s" "vdisk (upd_lg f s) = vdisk s" "sleeplocks (upd_lg f s) = sleeplocks s"
  "lg (upd_lg f s) = f (lg s)" "locked_bufs (upd_lg f s) = locked_bufs s" "view (upd_lg f s) = view s"
  "cache_ok p Q (upd_lg f s) = cache_ok p Q s" "upd_lg f (upd_lg g s) = upd_lg (\<lambda>l. f (g l)) s"
  "(upd_lg f s)\<lparr>hw := h\<rparr> = upd_lg f (s\<lparr>hw := h\<rparr>)"
proof -
  show a: "hw (upd_lg f s) = hw s" "procs (upd_lg f s) = procs s" "bufs (upd_lg f s) = bufs s" "media (upd_lg f s) = media s"
    "dwrites (upd_lg f s) = dwrites s" "vdisk (upd_lg f s) = vdisk s" "sleeplocks (upd_lg f s) = sleeplocks s"
    "lg (upd_lg f s) = f (lg s)" "upd_lg f (upd_lg g s) = upd_lg (\<lambda>l. f (g l)) s" "(upd_lg f s)\<lparr>hw := h\<rparr> = upd_lg f (s\<lparr>hw := h\<rparr>)"
    by (simp_all add: upd_lg_def)
  show b: "locked_bufs (upd_lg f s) = locked_bufs s" by (simp add: locked_bufs_def a)
  show "view (upd_lg f s) = view s" by (rule view_cong) (simp_all add: a)
  show "cache_ok p Q (upd_lg f s) = cache_ok p Q s" by (simp add: cache_ok_def bio_ok_def buf_ok_def a b)
qed

lemma bio_frame_upd_lg:
  assumes "bio_frame s s'"
  shows "bio_frame (upd_lg f s) (upd_lg f s')"
proof -
  let ?r = "s'\<lparr>procs := procs s, vdisk := vdisk s, bufs := bufs s, sleeplocks := sleeplocks s, media := media s, dwrites := dwrites s\<rparr>"
  have "(upd_lg f s')\<lparr>procs := procs s, vdisk := vdisk s, bufs := bufs s, sleeplocks := sleeplocks s, media := media s,
      dwrites := dwrites s\<rparr> = ?r\<lparr>lg := f (lg s')\<rparr>"
    by (rule log_state.equality) (simp_all add: upd_lg_def)
  moreover have "?r = s" "lg s' = lg s" using assms bio_frame_lg by (auto simp: bio_frame_def)
  ultimately show ?thesis using assms by (simp add: bio_frame_def upd_lg_def)
qed

lemma card_pinned:
  assumes "cache_ok p Q s" "pinned Q (set H) s"
  shows "card Q \<le> length H"
proof -
  have "inj_on (\<lambda>i. b_blockno (bufs s i)) Q"
    by (rule inj_onI) (metis cache_okD(9,10) [OF assms(1)])
  then have "card Q = card ((\<lambda>i. b_blockno (bufs s i)) ` Q)" by (simp add: card_image)
  also have "\<dots> \<le> card (set H)" using assms(2) by (intro card_mono) (auto simp: pinned_def)
  also have "\<dots> \<le> length H" by (rule card_length)
  finally show ?thesis .
qed

lemma log_at_frame: "bio_frame s s' \<Longrightarrow> log_at S H s' = log_at S H s"
  by (simp add: log_at_def bio_frame_lg)

lemma commit_ok:
  assumes sw: "waits_for_disk sw" and c: "cache_ok p Q s" "locked_bufs s = {}" "pinned Q (set H) s" "length H < NBUF"
    and l: "log_at S H s" "log_legal S H (view s S)" and H: "H \<noteq> []"
  shows "\<exists>s'. commit sw s = Some s' \<and> cache_ok p {} s' \<and> locked_bufs s' = {} \<and> log_at S [] s' \<and>
    bio_frame (upd_lg (\<lambda>l. l\<lparr>lh_n := 0\<rparr>) s) s' \<and>
    dwrites s' = dwrites s @ wal.commit_writes S H (\<lambda>i. view s (H ! i)) (view s S) \<and>
    media s' = apply_w (wal.commit_writes S H (\<lambda>i. view s (H ! i)) (view s S)) (media s)"
proof -
  note ll = log_legalD [OF l(2)]
  let ?n = "length H" and ?V = "\<lambda>i. view s (H ! i)" and ?x = "view s S"
  have cQ: "card Q < NBUF" using card_pinned [OF c(1,3)] c(4) by simp
  from write_log_ok [OF sw c(1,2) cQ c(3) l, of 0] obtain s1 where
    1: "write_log_loop sw 0 s = Some s1" "cache_ok p Q s1" "locked_bufs s1 = {}" "pinned Q (set H) s1" "log_at S H s1" "bio_frame s s1"
    "view s1 = apply_w (map (\<lambda>j. (log_slot S j, ?V j)) [0..<?n]) (view s)"
    "media s1 = apply_w (map (\<lambda>j. (sector_of (log_slot S j), ?V j)) [0..<?n]) (media s)"
    "dwrites s1 = dwrites s @ map (\<lambda>j. (sector_of (log_slot S j), ?V j)) [0..<?n]" by auto
  have vs: "view s1 (log_slot S j) = ?V j" if "j < ?n" for j
    using apply_w_map [of "log_slot S" 0 ?n j ?V "view s"] that ll(1,11) 1(7) by (auto simp: inj_on_def)
  have vS: "view s1 S = ?x" unfolding 1(7) by (rule apply_w_map_other) (use ll(1,10) in auto)
  have nS: "b_blockno (bufs s1 i) \<noteq> S" if "i \<in> Q" for i
  proof -
    have "b_blockno (bufs s1 i) \<in> set H" using 1(4) that by (simp add: pinned_def)
    then show ?thesis using ll(7) by (auto simp: in_set_conv_nth)
  qed
  obtain s2 where 2: "write_head sw s1 = Some s2" "cache_ok p Q s2" "locked_bufs s2 = {}" "bio_frame s1 s2"
    "view s2 = (view s1)(S := head_put H (view s1 S))" "media s2 = (media s1)(sector_of S := head_put H (view s1 S))"
    "dwrites s2 = dwrites s1 @ [(sector_of S, head_put H (view s1 S))]" "\<forall>i\<in>Q. b_blockno (bufs s2 i) = b_blockno (bufs s1 i)"
    by (rule write_head_ok [OF sw 1(2,3) cQ nS 1(5) ll(5,1)])
  have p2: "pinned Q (set (drop 0 H)) s2" using 1(4) pinned_cong [of Q s2 s1] 2(8) by simp
  have l2: "log_at S H s2" using 1(5) log_at_frame [OF 2(4)] by simp
  have v2: "view s2 (log_slot S j) = ?V j" if "j < ?n" for j using 2(5) vs [OF that] ll(10) [of j] ll(1) that by auto
  from install_ok [OF sw 2(2,3) cQ, of False 0 H S ?x] p2 l2 l(2) obtain s3 where
    3: "install_loop sw False 0 s2 = Some s3" "cache_ok p {} s3" "locked_bufs s3 = {}" "log_at S H s3" "bio_frame s2 s3"
    "view s3 = apply_w (map (\<lambda>j. (H ! j, view s2 (log_slot S j))) [0..<?n]) (view s2)"
    "media s3 = apply_w (map (\<lambda>j. (sector_of (H ! j), view s2 (log_slot S j))) [0..<?n]) (media s2)"
    "dwrites s3 = dwrites s2 @ map (\<lambda>j. (sector_of (H ! j), view s2 (log_slot S j))) [0..<?n]" by auto
  have m: "map (\<lambda>j. (f j, view s2 (log_slot S j))) [0..<?n] = map (\<lambda>j. (f j, ?V j)) [0..<?n]" for f :: "nat \<Rightarrow> 'b"
    using v2 by auto
  have v3: "view s3 S = head_put H ?x"
    unfolding 3(6) using 2(5) vS by (subst apply_w_map_other) (use ll(7) in auto)
  let ?s3 = "upd_lg (\<lambda>l. l\<lparr>lh_n := 0\<rparr>) s3"
  have l3: "log_at S [] ?s3" using 3(4) by (simp add: log_at_def)
  obtain s4 where 4: "write_head sw ?s3 = Some s4" "cache_ok p {} s4" "locked_bufs s4 = {}" "bio_frame ?s3 s4"
    "view s4 = (view ?s3)(S := head_put [] (view ?s3 S))" "media s4 = (media ?s3)(sector_of S := head_put [] (view ?s3 S))"
    "dwrites s4 = dwrites ?s3 @ [(sector_of S, head_put [] (view ?s3 S))]"
    by (rule write_head_ok [OF sw, of p "{}" ?s3 S "[]"]) (use 3(2,3) l3 ll(5) in \<open>auto simp: NBUF_def\<close>)
  have fr: "bio_frame (upd_lg (\<lambda>l. l\<lparr>lh_n := 0\<rparr>) s) s4"
    using bio_frame_upd_lg 1(6) 2(4) 3(5) 4(4) bio_frame_trans by meson
  have "commit sw s = Some s4"
    using l(1) H 1(1) 2(1) 3(1) 4(1) by (simp add: commit_def write_log_def install_trans_def log_at_def)
  moreover have "log_at S [] s4" using l3 log_at_frame [OF 4(4)] by simp
  ultimately show ?thesis
    using 4(2,3,6,7) 3(7,8) [unfolded m] 2(6,7) 1(8,9) vS v3 fr
    by (intro exI [of _ s4]) (simp add: wal.commit_writes_def wal.installs_def)
qed

lemma outside_log:
  assumes "unat S + LOGSIZE < 0x80000000" "bn < S \<or> S + of_nat LOGSIZE \<le> bn"
  shows "bn \<noteq> S" "Suc i < LOGSIZE \<Longrightarrow> bn \<noteq> log_slot S i"
proof -
  have e: "unat (S + of_nat LOGSIZE) = unat S + LOGSIZE" using assms(1) by (simp add: unat_word_ariths LOGSIZE_def)
  show "bn \<noteq> S" using assms(2) e by (auto simp: word_less_nat_alt word_le_nat_alt LOGSIZE_def)
  show "bn \<noteq> log_slot S i" if "Suc i < LOGSIZE"
    using assms(2) e log_slot_less [OF assms(1), of i] that by (auto simp: word_less_nat_alt word_le_nat_alt LOGSIZE_def)
qed

text \<open>A log header on disk that recovery can use.\<close>

definition head_ok :: "u32 \<Rightarrow> u8 list \<Rightarrow> bool" where
  "head_ok S x \<longleftrightarrow> 0 \<le> sint (get_w 0 x :: u32) \<and> log_legal S (head_get x) x"

text \<open>A kernel that has booted and not yet looked at the disk.\<close>

definition booted :: "nat \<Rightarrow> u32 \<Rightarrow> 'z log_state_scheme \<Rightarrow> bool" where
  "booted p S s \<longleftrightarrow> cache_ok p {} s \<and> locked_bufs s = {} \<and> lg_dev (lg s) = 1 \<and> lg_start (lg s) = uint S"

lemma booted_view: "booted p S s \<Longrightarrow> bn < 0x80000000 \<Longrightarrow> view s bn = media s (sector_of bn)"
  by (rule view_clean [of p "{}"]) (auto simp: booted_def)

lemma read_head_ok:
  assumes sw: "waits_for_disk sw" and b: "booted p S s" and h: "head_ok S (media s (sector_of S))"
  obtains s' where "read_head sw s = Some s'" "booted p S s'" "log_at S (head_get (media s (sector_of S))) s'"
    "bio_frame (upd_lg (\<lambda>_. lg s') s) s'" "media s' = media s" "dwrites s' = dwrites s" "view s' = view s"
proof -
  let ?x = "media s (sector_of S)"
  let ?H = "head_get ?x" and ?n = "nat (sint (get_w 0 ?x :: u32))"
  have ll: "log_legal S ?H ?x" "0 \<le> sint (get_w 0 ?x :: u32)" using h by (auto simp: head_ok_def)
  note l = log_legalD [OF ll(1)]
  have nH: "length ?H = ?n" by (simp add: head_get_def)
  have c: "cache_ok p {} s" "locked_bufs s = {}" using b by (auto simp: booted_def)
  have rm: "room {} s S" using c(2) by (simp add: room_def NBUF_def)
  obtain b s1 where r1: "bread sw ROOTDEV S s = Some (b, s1)" "cache_ok p {} s1" "bio_frame s s1" "b < NBUF" "b \<notin> locked_bufs s"
    "locked_bufs s1 = insert b (locked_bufs s)" "b_blockno (bufs s1 b) = S" "b_data (bufs s1 b) = view s S"
    "view s1 = view s" "media s1 = media s" "dwrites s1 = dwrites s" "\<forall>i. i \<noteq> b \<longrightarrow> bufs s1 i = bufs s i"
    "b \<in> {} \<longrightarrow> b_blockno (bufs s b) = S"
    by (rule bread_c [OF sw c(1) l(5) rm]) (use c(2) in auto)
  have d1: "b_data (bufs s1 b) = ?x" using r1(8) booted_view [OF b l(5)] by simp
  let ?g = "\<lambda>i. sint (get_w (4 + 4 * i) ?x :: u32)"
  let ?S = "\<lambda>k. upd_lg (\<lambda>l. l\<lparr>lh_n := sint (get_w 0 ?x :: u32), lh_block := (\<lambda>i. if i < k then ?g i else lh_block l i)\<rparr>) s1"
  have loop: "for_n 0 ?n (\<lambda>i s. lh_set i (sint (get_w (4 + 4 * i) (b_data (bufs s b)) :: u32)) s) (?S 0) = Some (?S (0 + ?n))"
  proof (rule for_n_states [where S = ?S])
    fix j assume "0 \<le> j" "j < 0 + ?n"
    then have j: "j < LOGSIZE" using l(1) nH by simp
    have "(\<lambda>i. if i < j then ?g i else f i)(j := ?g j) = (\<lambda>i. if i < Suc j then ?g i else f i)" for f by (auto simp: less_Suc_eq)
    then show "lh_set j (sint (get_w (4 + 4 * j) (b_data (bufs (?S j) b)) :: u32)) (?S j) = Some (?S (Suc j))"
      using j d1 by (simp add: lh_set_def)
  qed
  define s2 where "s2 = ?S (0 + ?n)"
  have S0: "upd_lg (\<lambda>l. l\<lparr>lh_n := sint (get_w 0 ?x :: u32)\<rparr>) s1 = ?S 0" by (simp add: upd_lg_def)
  have l2: "for_n 0 ?n (\<lambda>i s. lh_set i (sint (get_w (4 + 4 * i) (b_data (bufs s b)) :: u32)) s)
      (upd_lg (\<lambda>l. l\<lparr>lh_n := sint (get_w 0 ?x :: u32)\<rparr>) s1) = Some s2" unfolding S0 s2_def by (rule loop)
  have f2: "bufs s2 = bufs s1" "media s2 = media s1" "view s2 = view s1" "locked_bufs s2 = locked_bufs s1" "dwrites s2 = dwrites s1"
    "cache_ok p {} s2 = cache_ok p {} s1" "lg s2 = (lg s1)\<lparr>lh_n := sint (get_w 0 ?x :: u32), lh_block := (\<lambda>i. if i < ?n then ?g i else lh_block (lg s1) i)\<rparr>"
    by (simp_all add: s2_def)
  have b2: "b \<in> locked_bufs s2" "b \<in> {} \<or> b_data (bufs s2 b) = media s2 (sector_of (b_blockno (bufs s2 b)))"
    using r1(6,7,10) d1 f2 by auto
  have c2: "cache_ok p {} s2" using r1(2) f2 by simp
  obtain s3 where r3: "brelse b s2 = Some s3" "cache_ok p {} s3" "bio_frame s2 s3"
    "locked_bufs s3 = locked_bufs s2 - {b}" "view s3 = view s2" "media s3 = media s2" "dwrites s3 = dwrites s2"
    "\<forall>i. b_data (bufs s3 i) = b_data (bufs s2 i)" "\<forall>i. b_blockno (bufs s3 i) = b_blockno (bufs s2 i)"
    by (rule brelse_c [OF c2 b2])
  have lg: "lg s1 = lg s" "lg s3 = lg s2" using bio_frame_lg r1(3) r3(3) by blast+
  have "read_head sw s = Some s3"
    using r1(1) [unfolded ROOTDEV_def] b l2 r3(1) d1 by (simp add: read_head_def booted_def)
  moreover have "booted p S s3" using b r3(2,4) r1(6) c(2) lg f2 by (auto simp: booted_def)
  moreover have "log_at S ?H s3" using b lg f2(7) ll(2) nH by (auto simp: booted_def log_at_def head_get_def)
  moreover have "bio_frame (upd_lg (\<lambda>_. lg s3) s) s3"
  proof -
    have "bio_frame (upd_lg (\<lambda>_. lg s3) s) (upd_lg (\<lambda>_. lg s3) s1)" by (rule bio_frame_upd_lg [OF r1(3)])
    moreover have "upd_lg (\<lambda>_. lg s3) s1 = s2" unfolding lg(2) s2_def by (simp add: upd_lg_def)
    ultimately show ?thesis using r3(3) bio_frame_trans by metis
  qed
  ultimately show ?thesis by (rule that) (use r3(5-7) r1(9-11) f2 in simp_all)
qed

lemma recover_ok:
  assumes sw: "waits_for_disk sw" and b: "booted p S s" and h: "head_ok S (media s (sector_of S))"
  shows "\<exists>s'. recover_from_log sw s = Some s' \<and> booted p S s' \<and> log_at S [] s' \<and> media s' = wal.recover S (media s) \<and>
    dwrites s' = dwrites s @ wal.installs (head_get (media s (sector_of S))) (\<lambda>i. media s (sector_of (log_slot S i))) @
      [(sector_of S, head_put [] (media s (sector_of S)))]"
proof -
  let ?x = "media s (sector_of S)"
  let ?H = "head_get ?x"
  have ll: "log_legal S ?H ?x" using h by (simp add: head_ok_def)
  note l = log_legalD [OF ll]
  obtain s1 where r1: "read_head sw s = Some s1" "booted p S s1" "log_at S ?H s1"
    "bio_frame (upd_lg (\<lambda>_. lg s1) s) s1" "media s1 = media s" "dwrites s1 = dwrites s" "view s1 = view s"
    by (rule read_head_ok [OF sw b h])
  have c1: "cache_ok p {} s1" "locked_bufs s1 = {}" using r1(2) by (auto simp: booted_def)
  from install_ok [OF sw c1, of True 0 ?H S ?x] r1(3) ll obtain s2 where
    2: "install_loop sw True 0 s1 = Some s2" "cache_ok p {} s2" "locked_bufs s2 = {}" "log_at S ?H s2" "bio_frame s1 s2"
    "view s2 = apply_w (map (\<lambda>j. (?H ! j, view s1 (log_slot S j))) [0..<length ?H]) (view s1)"
    "media s2 = apply_w (map (\<lambda>j. (sector_of (?H ! j), view s1 (log_slot S j))) [0..<length ?H]) (media s1)"
    "dwrites s2 = dwrites s1 @ map (\<lambda>j. (sector_of (?H ! j), view s1 (log_slot S j))) [0..<length ?H]"
    by (auto simp: NBUF_def)
  have m: "map (\<lambda>j. (f j, view s1 (log_slot S j))) [0..<length ?H] = map (\<lambda>j. (f j, media s (sector_of (log_slot S j)))) [0..<length ?H]"
    for f :: "nat \<Rightarrow> 'b"
    using booted_view [OF b] l(1,9) r1(7) by auto
  have vS: "view s2 S = ?x"
    unfolding 2(6) using r1(7) booted_view [OF b l(5)] by (subst apply_w_map_other) (use l(7) in auto)
  let ?s2 = "upd_lg (\<lambda>l. l\<lparr>lh_n := 0\<rparr>) s2"
  have l2: "log_at S [] ?s2" using 2(4) by (simp add: log_at_def)
  obtain s3 where 3: "write_head sw ?s2 = Some s3" "cache_ok p {} s3" "locked_bufs s3 = {}" "bio_frame ?s2 s3"
    "view s3 = (view ?s2)(S := head_put [] (view ?s2 S))" "media s3 = (media ?s2)(sector_of S := head_put [] (view ?s2 S))"
    "dwrites s3 = dwrites ?s2 @ [(sector_of S, head_put [] (view ?s2 S))]"
    by (rule write_head_ok [OF sw, of p "{}" ?s2 S "[]"]) (use 2(2,3) l2 l(5) in \<open>auto simp: NBUF_def\<close>)
  have "recover_from_log sw s = Some s3" using r1(1) 2(1) 3(1) by (simp add: recover_from_log_def install_trans_def)
  moreover have l3: "log_at S [] s3" using l2 log_at_frame [OF 3(4)] by simp
  moreover have "booted p S s3" using 3(2,3) l3 by (simp add: booted_def log_at_def)
  ultimately show ?thesis
    using 3(6,7) 2(7,8) [unfolded m] r1(5,6) vS
    by (intro exI [of _ s3]) (simp add: wal.recover_def wal.installs_def)
qed

lemma apply_w_mem: "apply_w ws d a = d a \<or> (a, apply_w ws d a) \<in> set ws"
proof (induction ws arbitrary: d)
  case (Cons w ws)
  obtain b v where w: "w = (b, v)" by (cases w)
  show ?case using Cons.IH [of "d(b := v)"] by (cases "a = b") (auto simp: w fun_upd_def)
qed simp

lemma head_ok_put:
  assumes "log_legal S H x"
  shows "head_ok S (head_put H x)"
proof -
  note l = log_legalD [OF assms]
  let ?x = "put_w 0 (of_nat (length H) :: u32) x"
  have "length ?x = BSIZE" "(get_w 0 ?x :: u32) = of_nat (length H)" using l(3) by (simp_all add: BSIZE_def get_put_same)
  then have "(get_w 0 (head_put H x) :: u32) = of_nat (length H)"
    using head_put_steps [OF l(1), of ?x H] by (simp add: head_put_def)
  moreover have "sint (of_nat (length H) :: u32) = int (length H)" using sint_int32 [of "int (length H)"] l(1) by (simp add: LOGSIZE_def)
  ultimately show ?thesis
    using assms head_get_put [OF l(1,3)] length_head_put [OF l(1,3)] by (simp add: head_ok_def log_legal_def)
qed

lemma log_legal_Nil: "log_legal S H x \<Longrightarrow> length y = BSIZE \<Longrightarrow> log_legal S [] y"
  by (simp add: log_legal_def)

lemma commit_head_writes:
  assumes "log_legal S H x" "(sector_of S, y) \<in> set (wal.commit_writes S H V x)"
  shows "y = head_put H x \<or> y = head_put [] (head_put H x)"
proof -
  have "\<forall>i<length H. sector_of S \<noteq> sector_of (log_slot S i) \<and> sector_of S \<noteq> sector_of (H ! i)"
    using wal.legal_addr [OF assms(1)] by metis
  then show ?thesis using assms(2) unfolding wal.commit_writes_def wal.installs_def by (auto simp: image_iff)
qed

text \<open>Whenever the crash comes, the header on disk is one recovery can use.\<close>

lemma crash_head_ok:
  assumes l: "log_legal S H x" and h: "d (sector_of S) = x" "get_w 0 x = (0 :: u32)"
  shows "head_ok S (apply_w (take k (wal.commit_writes S H V x)) d (sector_of S))"
proof -
  let ?y = "apply_w (take k (wal.commit_writes S H V x)) d (sector_of S)"
  note ll = log_legalD [OF l]
  have "?y = x \<or> (sector_of S, ?y) \<in> set (wal.commit_writes S H V x)"
    using apply_w_mem [of "take k (wal.commit_writes S H V x)" d "sector_of S"] h(1) in_set_takeD by metis
  then have y: "?y = x \<or> ?y = head_put H x \<or> ?y = head_put [] (head_put H x)" using commit_head_writes [OF l] by blast
  have "head_get x = []" using h(2) by (simp add: head_get_def)
  then have "head_ok S x" using h(2) log_legal_Nil [OF l ll(3)] by (simp add: head_ok_def)
  moreover have "head_ok S (head_put H x)" by (rule head_ok_put [OF l])
  moreover have "head_ok S (head_put [] (head_put H x))"
    by (rule head_ok_put, rule log_legal_Nil [OF l]) (rule length_head_put [OF ll(1,3)])
  ultimately show ?thesis using y by auto
qed

end
