(* ===== verification/Logtxn.thy ===== *)
theory Logtxn
  imports Log
begin

text \<open>
  Transactions on the log (kernel/log.c): what begin_op, log_write and end_op promise to the file system.

  \<open>txn\<close> describes the state between begin_op and end_op, and the lemmas \<open>txn_bread\<close>, \<open>txn_update\<close>
  and \<open>txn_brelse\<close> are the steps the file system takes in it. \<open>end_op_ok\<close> says what the last end_op
  leaves behind. The properties are about durability and crashes.
\<close>

section \<open>Inside a transaction\<close>

text \<open>
  The state between begin_op and end_op: H are the blocks logged so far, D the locked buffers that
  have been changed and not logged. \<open>txn_frame\<close> is what the operations of the log leave alone.
\<close>

definition txn :: "nat \<Rightarrow> u32 \<Rightarrow> nat set \<Rightarrow> u32 list \<Rightarrow> 'z log_state_scheme \<Rightarrow> bool" where
  "txn p S D H s \<longleftrightarrow> (\<exists>Q. cache_ok p Q s \<and> pinned Q (set H) s \<and>
       (\<forall>i\<in>locked_bufs s - D. i \<in> Q \<or> b_data (bufs s i) = media s (sector_of (b_blockno (bufs s i))))) \<and>
     log_at S H s \<and> distinct H \<and> lg_outstanding (lg s) \<ge> 1 \<and> lg_size (lg s) = int LOGSIZE \<and> \<not> lg_committing (lg s)"

definition txn_frame :: "'z log_state_scheme \<Rightarrow> 'z log_state_scheme \<Rightarrow> bool" where
  "txn_frame s s' \<longleftrightarrow> bio_frame (s\<lparr>lg := lg s'\<rparr>) s' \<and> lg_outstanding (lg s') = lg_outstanding (lg s)"

lemma txn_frame_refl [simp]: "txn_frame s s"
  by (simp add: txn_frame_def)

lemma txn_frame_bio: "bio_frame s s' \<Longrightarrow> txn_frame s s'"
  using bio_frame_lg by (fastforce simp: txn_frame_def)

lemma txn_frame_upd_lg: "lg_outstanding (f (lg s)) = lg_outstanding (lg s) \<Longrightarrow> txn_frame s (upd_lg f s)"
  by (simp add: txn_frame_def upd_lg_def)

lemma txn_frame_trans:
  assumes "txn_frame s s'" "txn_frame s' s''"
  shows "txn_frame s s''"
proof -
  have "bio_frame (s\<lparr>lg := lg s''\<rparr>) (s'\<lparr>lg := lg s''\<rparr>)"
    using bio_frame_upd_lg [of "s\<lparr>lg := lg s'\<rparr>" s' "\<lambda>_. lg s''"] assms(1) by (simp add: txn_frame_def upd_lg_def)
  then show ?thesis using assms bio_frame_trans by (auto simp: txn_frame_def)
qed

definition logged :: "u32 \<Rightarrow> u32 list \<Rightarrow> u32 list" where
  "logged bn H = (if bn \<in> set H then H else H @ [bn])"

lemma logged_simps [simp]: "set (logged bn H) = insert bn (set H)" "distinct (logged bn H) = distinct H"
  by (auto simp: logged_def)

lemma log_write_hart:
  assumes "running p (hw s)" "b \<in> locked_bufs s" "0 \<le> lh_n (lg s)" "lh_n (lg s) < 29" "lg_outstanding (lg s) \<ge> 1" "lg_size (lg s) = int LOGSIZE"
  shows "log_write b s = (case find (\<lambda>i. word_of_int (lh_block (lg s) i) = b_blockno (bufs s b)) [0..<nat (lh_n (lg s))] of
     Some i \<Rightarrow> Some (upd_lg (\<lambda>l. l\<lparr>lh_block := (lh_block l)(i := sint (b_blockno (bufs s b)))\<rparr>) s)
   | None \<Rightarrow> do {
       s \<leftarrow> bpin b s;
       Some (upd_lg (\<lambda>l. l\<lparr>lh_block := (lh_block l)(nat (lh_n l) := sint (b_blockno (bufs s b))), lh_n := lh_n l + 1\<rparr>) s) })"
proof -
  let ?P = "\<lambda>t i. word_of_int (lh_block (lg t) i) = b_blockno (bufs t b)"
  have f: "search_n 0 n (\<lambda>i s.
         if word_of_int (lh_block (lg s) i) = b_blockno (bufs s b) then Some (Some i, s) else Some (None, s)) t =
      Some (find (?P t) [0..<n], t)" for n and t :: "'a log_state_scheme"
    by (subst search_n_pure [where P = "?P t" and v = id]) (auto simp: option.map_id)
  show ?thesis
  proof (cases "find (?P s) [0..<nat (lh_n (lg s))]")
    case None
    then show ?thesis using assms by (simp add: log_write_def bpin_def kstep f lh_set_def LOGSIZE_def Let_def upd_lg_def upd_buf_def)
  next
    case (Some i)
    then have "i < nat (lh_n (lg s))" by (auto simp: find_Some_iff)
    then have "i < 30" "int i \<noteq> lh_n (lg s)" using assms by auto
    then show ?thesis using assms Some by (simp add: log_write_def kstep f lh_set_def LOGSIZE_def Let_def upd_lg_def)
  qed
qed

lemma pinned_upd_lg [simp]: "pinned Q A (upd_lg f s) = pinned Q A s"
  by (simp add: pinned_def)

lemma log_write_c:
  assumes t: "txn p S {b} H s" and b: "b \<in> locked_bufs s" and H: "length H < 29"
  obtains s' where "log_write b s = Some s'" "txn p S {} (logged (b_blockno (bufs s b)) H) s'" "txn_frame s s'"
    "locked_bufs s' = locked_bufs s" "view s' = view s" "media s' = media s" "dwrites s' = dwrites s"
    "\<forall>i. b_data (bufs s' i) = b_data (bufs s i)" "\<forall>i. b_blockno (bufs s' i) = b_blockno (bufs s i)"
proof -
  let ?bn = "b_blockno (bufs s b)"
  obtain Q where Q: "cache_ok p Q s" "pinned Q (set H) s"
    "\<forall>i\<in>locked_bufs s - {b}. i \<in> Q \<or> b_data (bufs s i) = media s (sector_of (b_blockno (bufs s i)))"
    and l: "log_at S H s" "distinct H" "lg_outstanding (lg s) \<ge> 1" "lg_size (lg s) = int LOGSIZE" "\<not> lg_committing (lg s)"
    using t by (auto simp: txn_def)
  have n: "lh_n (lg s) = int (length H)" and H': "\<And>i. i < length H \<Longrightarrow> word_of_int (lh_block (lg s) i) = H ! i"
    using l(1) by (auto simp: log_at_def)
  note w = log_write_hart [OF cache_okD(1) [OF Q(1)] b _ _ l(3,4)]
  have f: "find (\<lambda>i. word_of_int (lh_block (lg s) i) = ?bn) [0..<length H] = find (\<lambda>i. H ! i = ?bn) [0..<length H]"
    by (rule find_cong) (auto simp: H')
  show ?thesis
  proof (cases "?bn \<in> set H")
    case True
    then obtain i where i: "find (\<lambda>i. H ! i = ?bn) [0..<length H] = Some i"
      by (cases "find (\<lambda>i. H ! i = ?bn) [0..<length H]") (auto simp: find_None_iff in_set_conv_nth)
    then have iH: "i < length H" "H ! i = ?bn" by (auto simp: find_Some_iff)
    let ?s = "upd_lg (\<lambda>l. l\<lparr>lh_block := (lh_block l)(i := sint ?bn)\<rparr>) s"
    obtain j where j: "j \<in> Q" "b_blockno (bufs s j) = ?bn" using Q(2) True by (auto simp: pinned_def)
    have "b = j" by (rule cache_okD(10) [OF Q(1)]) (use cache_okD(8) [OF Q(1) b] cache_okD(9) [OF Q(1) j(1)] j in auto)
    then have bQ: "b \<in> Q" using j(1) by simp
    have la: "log_at S H ?s" using l(1) iH by (simp add: log_at_def)
    have "\<forall>i\<in>locked_bufs s - {}. i \<in> Q \<or> b_data (bufs s i) = media s (sector_of (b_blockno (bufs s i)))"
      using Q(3) bQ by blast
    then have "txn p S {} (logged ?bn H) ?s" using Q(1,2) l la True unfolding txn_def logged_def by auto
    moreover have "log_write b s = Some ?s" using w H f i by (simp add: n)
    ultimately show ?thesis by (intro that [of ?s]) (auto intro: txn_frame_upd_lg)
  next
    case False
    then have "b \<notin> Q" using Q(2) by (auto simp: pinned_def)
    then obtain s1 where s1: "bpin b s = Some s1" "cache_ok p (insert b Q) s1" "bio_frame s s1" "locked_bufs s1 = locked_bufs s"
      "view s1 = view s" "media s1 = media s" "dwrites s1 = dwrites s"
      "\<forall>i. b_data (bufs s1 i) = b_data (bufs s i)" "\<forall>i. b_blockno (bufs s1 i) = b_blockno (bufs s i)"
      using bpin_c [OF Q(1) b] by blast
    let ?f = "\<lambda>l. l\<lparr>lh_block := (lh_block l)(nat (lh_n l) := sint (b_blockno (bufs s1 b))), lh_n := lh_n l + 1\<rparr>"
    have lg: "lg s1 = lg s" using bio_frame_lg s1(3) by blast
    have "find (\<lambda>i. H ! i = ?bn) [0..<length H] = None" using False by (auto simp: find_None_iff in_set_conv_nth)
    then have e: "log_write b s = Some (upd_lg ?f s1)" using w H f s1(1) by (simp add: n)
    have la: "log_at S (H @ [?bn]) (upd_lg ?f s1)"
      using l(1) H' s1(9) by (auto simp: log_at_def lg nth_append)
    have pn: "pinned (insert b Q) (insert ?bn (set H)) s1" using Q(2) s1(9) by (auto simp: pinned_def)
    have "txn p S {} (logged ?bn H) (upd_lg ?f s1)"
      unfolding txn_def using la pn l False s1(2,4,6,8,9) Q(3)
      by (simp add: logged_def lg) blast
    moreover have "txn_frame s (upd_lg ?f s1)"
      by (rule txn_frame_trans [OF txn_frame_bio [OF s1(3)]], rule txn_frame_upd_lg) simp
    ultimately show ?thesis using e s1 by (intro that [of "upd_lg ?f s1"]) auto
  qed
qed

lemma txn_view_clean:
  assumes "txn p S D H s" "bn < 0x80000000" "bn \<notin> set H" "\<And>i. i \<in> locked_bufs s \<Longrightarrow> b_blockno (bufs s i) \<noteq> bn"
  shows "view s bn = media s (sector_of bn)"
proof -
  obtain Q where "cache_ok p Q s" "pinned Q (set H) s" using assms(1) by (auto simp: txn_def)
  then show ?thesis using assms(3,4) by (intro view_clean [of p Q, OF _ assms(2)]) (auto simp: pinned_def)
qed

lemma txn_bread:
  assumes sw: "waits_for_disk sw" and t: "txn p S D H s" and bn: "bn < 0x80000000"
    and L: "\<And>i. i \<in> locked_bufs s \<Longrightarrow> b_blockno (bufs s i) \<noteq> bn" "card (locked_bufs s) \<le> 1" and H: "length H < 29"
  obtains b s' where "bread sw ROOTDEV bn s = Some (b, s')" "txn p S D H s'" "bio_frame s s'" "b \<notin> locked_bufs s"
    "locked_bufs s' = insert b (locked_bufs s)" "b_blockno (bufs s' b) = bn" "b_data (bufs s' b) = view s bn"
    "view s' = view s" "media s' = media s" "dwrites s' = dwrites s" "\<forall>i. i \<noteq> b \<longrightarrow> bufs s' i = bufs s i"
proof -
  obtain Q where Q: "cache_ok p Q s" "pinned Q (set H) s"
    "\<forall>i\<in>locked_bufs s - D. i \<in> Q \<or> b_data (bufs s i) = media s (sector_of (b_blockno (bufs s i)))"
    using t by (auto simp: txn_def)
  have "card (locked_bufs s \<union> Q) \<le> card (locked_bufs s) + card Q" by (rule card_Un_le)
  then have "room Q s bn" using L(2) H card_pinned [OF Q(1,2)] by (simp add: room_def NBUF_def)
  then obtain b s' where r: "bread sw ROOTDEV bn s = Some (b, s')" "cache_ok p Q s'" "bio_frame s s'" "b < NBUF" "b \<notin> locked_bufs s"
    "locked_bufs s' = insert b (locked_bufs s)" "b_blockno (bufs s' b) = bn" "b_data (bufs s' b) = view s bn"
    "view s' = view s" "media s' = media s" "dwrites s' = dwrites s" "\<forall>i. i \<noteq> b \<longrightarrow> bufs s' i = bufs s i"
    "b \<in> Q \<longrightarrow> b_blockno (bufs s b) = bn"
    using bread_c [OF sw Q(1) bn _ L(1)] by blast
  have bl: "b_blockno (bufs s' i) = b_blockno (bufs s i)" if "i \<in> Q" for i using r(7,12,13) that by (cases "i = b") auto
  have pn: "pinned Q (set H) s'" using Q(2) pinned_cong [of Q s' s] bl by blast
  have cl: "b \<in> Q \<or> b_data (bufs s' b) = media s' (sector_of (b_blockno (bufs s' b)))"
  proof (cases "bn \<in> set H")
    case True
    then obtain i where i: "i \<in> Q" "b_blockno (bufs s' i) = bn" using pn by (auto simp: pinned_def)
    have "b = i" by (rule cache_okD(10) [OF r(2)]) (use cache_okD(8) [OF r(2), of b] cache_okD(9) [OF r(2) i(1)] r(6,7) i(2) in auto)
    then show ?thesis using i(1) by simp
  next
    case False
    then show ?thesis using txn_view_clean [OF t bn False L(1)] r(7,8,10) by simp
  qed
  have d: "\<forall>i\<in>locked_bufs s' - D. i \<in> Q \<or> b_data (bufs s' i) = media s' (sector_of (b_blockno (bufs s' i)))"
  proof
    fix i assume "i \<in> locked_bufs s' - D"
    then show "i \<in> Q \<or> b_data (bufs s' i) = media s' (sector_of (b_blockno (bufs s' i)))"
      using cl Q(3) r(6,10,12) by (cases "i = b") auto
  qed
  have "lg s' = lg s" using bio_frame_lg r(3) by blast
  then have "txn p S D H s'" using t r(2) pn d unfolding txn_def log_at_def by auto
  then show ?thesis using r by (intro that [of b s']) auto
qed

lemma txn_brelse:
  assumes t: "txn p S D H s" and b: "b \<in> locked_bufs s" "b \<notin> D"
  obtains s' where "brelse b s = Some s'" "txn p S D H s'" "bio_frame s s'"
    "locked_bufs s' = locked_bufs s - {b}" "view s' = view s" "media s' = media s" "dwrites s' = dwrites s"
    "\<forall>i. b_data (bufs s' i) = b_data (bufs s i)" "\<forall>i. b_blockno (bufs s' i) = b_blockno (bufs s i)"
proof -
  obtain Q where Q: "cache_ok p Q s" "pinned Q (set H) s"
    "\<forall>i\<in>locked_bufs s - D. i \<in> Q \<or> b_data (bufs s i) = media s (sector_of (b_blockno (bufs s i)))"
    using t by (auto simp: txn_def)
  obtain s' where r: "brelse b s = Some s'" "cache_ok p Q s'" "bio_frame s s'"
    "locked_bufs s' = locked_bufs s - {b}" "view s' = view s" "media s' = media s" "dwrites s' = dwrites s"
    "\<forall>i. b_data (bufs s' i) = b_data (bufs s i)" "\<forall>i. b_blockno (bufs s' i) = b_blockno (bufs s i)"
    using brelse_c [OF Q(1) b(1)] Q(3) b by blast
  have "pinned Q (set H) s'" using Q(2) pinned_cong [of Q s' s] r(9) by blast
  moreover have "lg s' = lg s" using bio_frame_lg r(3) by blast
  ultimately have "txn p S D H s'" using t r(2,4,6,8,9) Q(3) unfolding txn_def log_at_def by auto
  then show ?thesis using r by (intro that [of s']) auto
qed

lemma txn_set_data:
  assumes t: "txn p S D H s" and b: "b \<in> locked_bufs s" "length dat = BSIZE"
  shows "txn p S (insert b D) H (set_data b dat s)" "view (set_data b dat s) = (view s)(b_blockno (bufs s b) := dat)"
proof -
  obtain Q where Q: "cache_ok p Q s" "pinned Q (set H) s"
    "\<forall>i\<in>locked_bufs s - D. i \<in> Q \<or> b_data (bufs s i) = media s (sector_of (b_blockno (bufs s i)))"
    using t by (auto simp: txn_def)
  show "view (set_data b dat s) = (view s)(b_blockno (bufs s b) := dat)" by (rule set_data_c(2) [OF Q(1) b])
  have "pinned Q (set H) (set_data b dat s)" using Q(2) by (auto simp: pinned_def)
  moreover have "lg (set_data b dat s) = lg s" using bio_frame_lg set_data_simps(2) by blast
  ultimately show "txn p S (insert b D) H (set_data b dat s)"
    using t set_data_c(1) [OF Q(1) b] Q(3) unfolding txn_def log_at_def by auto
qed

text \<open>Locked buffers stay as they are, and nothing is written to the disk.\<close>

definition keeps :: "'z log_state_scheme \<Rightarrow> 'z log_state_scheme \<Rightarrow> bool" where
  "keeps s s' \<longleftrightarrow> locked_bufs s' = locked_bufs s \<and> media s' = media s \<and> dwrites s' = dwrites s \<and>
     (\<forall>i\<in>locked_bufs s. b_blockno (bufs s' i) = b_blockno (bufs s i) \<and> b_data (bufs s' i) = b_data (bufs s i))"

lemma keeps_refl [simp]: "keeps s s"
  by (simp add: keeps_def)

lemma keeps_trans [trans]: "keeps s s' \<Longrightarrow> keeps s' s'' \<Longrightarrow> keeps s s''"
  by (auto simp: keeps_def)

text \<open>Log the changed contents of a locked block and release it.\<close>

lemma txn_finish:
  assumes t: "txn p S {} H s" and b: "b \<in> locked_bufs s" and H: "length H < 29" and dat: "length dat = BSIZE"
  obtains s2 s3 where "log_write b (set_data b dat s) = Some s2" "brelse b s2 = Some s3"
    "txn p S {} (logged (b_blockno (bufs s b)) H) s3" "txn_frame s s3" "locked_bufs s3 = locked_bufs s - {b}"
    "view s3 = (view s)(b_blockno (bufs s b) := dat)" "media s3 = media s" "dwrites s3 = dwrites s"
    "\<forall>i\<in>locked_bufs s - {b}. b_blockno (bufs s3 i) = b_blockno (bufs s i) \<and> b_data (bufs s3 i) = b_data (bufs s i)"
proof -
  let ?s = "set_data b dat s"
  note d = txn_set_data [OF t b dat]
  have b2: "b \<in> locked_bufs ?s" using b by simp
  obtain s2 where r2: "log_write b ?s = Some s2" "txn p S {} (logged (b_blockno (bufs ?s b)) H) s2" "txn_frame ?s s2"
    "locked_bufs s2 = locked_bufs ?s" "view s2 = view ?s" "media s2 = media ?s" "dwrites s2 = dwrites ?s"
    "\<forall>i. b_data (bufs s2 i) = b_data (bufs ?s i)" "\<forall>i. b_blockno (bufs s2 i) = b_blockno (bufs ?s i)"
    by (rule log_write_c [OF d(1) b2 H])
  have b3: "b \<in> locked_bufs s2" using r2(4) b2 by simp
  obtain s3 where r3: "brelse b s2 = Some s3" "txn p S {} (logged (b_blockno (bufs ?s b)) H) s3" "bio_frame s2 s3"
    "locked_bufs s3 = locked_bufs s2 - {b}" "view s3 = view s2" "media s3 = media s2" "dwrites s3 = dwrites s2"
    "\<forall>i. b_data (bufs s3 i) = b_data (bufs s2 i)" "\<forall>i. b_blockno (bufs s3 i) = b_blockno (bufs s2 i)"
    using txn_brelse [OF r2(2) b3] by blast
  have "txn_frame s s3" using txn_frame_trans txn_frame_bio set_data_simps(2) r2(3) r3(3) by meson
  moreover have "\<forall>i\<in>locked_bufs s - {b}. b_blockno (bufs s3 i) = b_blockno (bufs s i) \<and> b_data (bufs s3 i) = b_data (bufs s i)"
    using r3(8,9) r2(8,9) by auto
  ultimately show ?thesis using r2 r3 d(2) by (intro that [of s2 s3]) auto
qed

text \<open>Read a block, change it, log it, release it.\<close>

lemma txn_update:
  assumes sw: "waits_for_disk sw" and t: "txn p S {} H s" and bn: "bn < 0x80000000"
    and L: "\<And>i. i \<in> locked_bufs s \<Longrightarrow> b_blockno (bufs s i) \<noteq> bn" "card (locked_bufs s) \<le> 1" and H: "length H < 29"
    and dat: "length dat = BSIZE"
  obtains b s1 s2 s3 where "bread sw ROOTDEV bn s = Some (b, s1)" "b_data (bufs s1 b) = view s bn" "bio_frame s s1"
    "log_write b (set_data b dat s1) = Some s2" "brelse b s2 = Some s3"
    "txn p S {} (logged bn H) s3" "txn_frame s s3" "keeps s s3" "view s3 = (view s)(bn := dat)"
proof -
  obtain b s1 where r1: "bread sw ROOTDEV bn s = Some (b, s1)" "txn p S {} H s1" "bio_frame s s1" "b \<notin> locked_bufs s"
    "locked_bufs s1 = insert b (locked_bufs s)" "b_blockno (bufs s1 b) = bn" "b_data (bufs s1 b) = view s bn"
    "view s1 = view s" "media s1 = media s" "dwrites s1 = dwrites s" "\<forall>i. i \<noteq> b \<longrightarrow> bufs s1 i = bufs s i"
    using txn_bread [OF sw t bn L H] by blast
  have b1: "b \<in> locked_bufs s1" using r1(5) by simp
  obtain s2 s3 where r: "log_write b (set_data b dat s1) = Some s2" "brelse b s2 = Some s3"
    "txn p S {} (logged (b_blockno (bufs s1 b)) H) s3" "txn_frame s1 s3" "locked_bufs s3 = locked_bufs s1 - {b}"
    "view s3 = (view s1)(b_blockno (bufs s1 b) := dat)" "media s3 = media s1" "dwrites s3 = dwrites s1"
    "\<forall>i\<in>locked_bufs s1 - {b}. b_blockno (bufs s3 i) = b_blockno (bufs s1 i) \<and> b_data (bufs s3 i) = b_data (bufs s1 i)"
    by (rule txn_finish [OF r1(2) b1 H dat])
  have "txn_frame s s3" using txn_frame_trans txn_frame_bio r1(3) r(4) by meson
  moreover have "keeps s s3" using r1 r(5,7-9) by (auto simp: keeps_def)
  ultimately show ?thesis using r1 r by (intro that [of b s1 s2 s3]) auto
qed

text \<open>Read a block and release it.\<close>

lemma txn_peek:
  assumes sw: "waits_for_disk sw" and t: "txn p S {} H s" and bn: "bn < 0x80000000"
    and L: "\<And>i. i \<in> locked_bufs s \<Longrightarrow> b_blockno (bufs s i) \<noteq> bn" "card (locked_bufs s) \<le> 1" and H: "length H < 29"
  obtains b s1 s2 where "bread sw ROOTDEV bn s = Some (b, s1)" "b_data (bufs s1 b) = view s bn" "bio_frame s s1"
    "brelse b s1 = Some s2" "txn p S {} H s2" "bio_frame s s2" "keeps s s2" "view s2 = view s"
proof -
  obtain b s1 where r1: "bread sw ROOTDEV bn s = Some (b, s1)" "txn p S {} H s1" "bio_frame s s1" "b \<notin> locked_bufs s"
    "locked_bufs s1 = insert b (locked_bufs s)" "b_blockno (bufs s1 b) = bn" "b_data (bufs s1 b) = view s bn"
    "view s1 = view s" "media s1 = media s" "dwrites s1 = dwrites s" "\<forall>i. i \<noteq> b \<longrightarrow> bufs s1 i = bufs s i"
    using txn_bread [OF sw t bn L H] by blast
  have b1: "b \<in> locked_bufs s1" using r1(5) by simp
  obtain s2 where r: "brelse b s1 = Some s2" "txn p S {} H s2" "bio_frame s1 s2"
    "locked_bufs s2 = locked_bufs s1 - {b}" "view s2 = view s1" "media s2 = media s1" "dwrites s2 = dwrites s1"
    "\<forall>i. b_data (bufs s2 i) = b_data (bufs s1 i)" "\<forall>i. b_blockno (bufs s2 i) = b_blockno (bufs s1 i)"
    using txn_brelse [OF r1(2) b1] by blast
  have "keeps s s2" using r1 r by (auto simp: keeps_def)
  then show ?thesis using r1 r bio_frame_trans by (intro that [of b s1 s2]) auto
qed

section \<open>begin_op and end_op\<close>

text \<open>No operation is active and nothing is logged.\<close>

definition log_idle :: "nat \<Rightarrow> u32 \<Rightarrow> 'z log_state_scheme \<Rightarrow> bool" where
  "log_idle p S s \<longleftrightarrow> cache_ok p {} s \<and> locked_bufs s = {} \<and> log_at S [] s \<and> lg_outstanding (lg s) = 0 \<and>
     lg_size (lg s) = int LOGSIZE \<and> \<not> lg_committing (lg s)"

lemma begin_op_ok:
  assumes "log_idle p S s"
  shows "begin_op sw s = Some (upd_lg (\<lambda>l. l\<lparr>lg_outstanding := 1\<rparr>) s)"
    "txn p S {} [] (upd_lg (\<lambda>l. l\<lparr>lg_outstanding := 1\<rparr>) s)"
proof -
  note i = assms [unfolded log_idle_def]
  have r: "running p (hw s)" using i cache_okD(1) by blast
  let ?s = "s\<lparr>hw := acq Lk_log (hw s)\<rparr>"
  have "\<not> lg_committing (lg ?s)" "\<not> lh_n (lg ?s) + (lg_outstanding (lg ?s) + 1) * int MAXOPBLOCKS > int LOGSIZE"
    using i by (simp_all add: log_at_def MAXOPBLOCKS_def LOGSIZE_def)
  then have "begin_loop sw ?s = unlock Lk_log (upd_lg (\<lambda>l. l\<lparr>lg_outstanding := lg_outstanding l + 1\<rparr>) ?s)"
    by (subst begin_loop.simps) (simp only: if_False)
  then show "begin_op sw s = Some (upd_lg (\<lambda>l. l\<lparr>lg_outstanding := 1\<rparr>) s)"
    using i r by (simp add: begin_op_def kstep upd_lg_def)
  have "pinned {} (set []) s" by (simp add: pinned_def)
  then show "txn p S {} [] (upd_lg (\<lambda>l. l\<lparr>lg_outstanding := 1\<rparr>) s)"
    using i by (auto simp: txn_def log_at_def)
qed

lemma installs_view:
  assumes c: "cache_ok p Q s" "locked_bufs s = {}" "pinned Q (set H) s" and l: "log_legal S H x" and bn: "bn < 0x80000000"
  shows "apply_w (wal.installs H (\<lambda>i. view s (H ! i))) (media s) (sector_of bn) = view s bn"
proof (cases "bn \<in> set H")
  case True
  then show ?thesis using wal.installs_hit [OF l] by (auto simp: in_set_conv_nth)
next
  case False
  let ?V = "\<lambda>i. view s (H ! i)"
  have "\<And>i. i < length H \<Longrightarrow> sector_of bn \<noteq> sector_of (H ! i)"
    using sector_of_inj [OF bn log_legalD(6) [OF l]] False by (auto simp: in_set_conv_nth)
  then have "apply_w (wal.installs H ?V) (media s) (sector_of bn) = media s (sector_of bn)"
    using wal.installs_miss [of H "sector_of bn" "length H" ?V] by (simp add: wal.installs_def)
  also have "\<dots> = view s bn" by (rule view_clean [OF c(1) bn, symmetric]) (use c(2,3) False in \<open>auto simp: pinned_def\<close>)
  finally show ?thesis .
qed

lemma outside_sectors:
  assumes "log_legal S H x" "bn < 0x80000000" "bn < S \<or> S + of_nat LOGSIZE \<le> bn"
  shows "sector_of bn \<noteq> sector_of S" "i < length H \<Longrightarrow> sector_of bn \<noteq> sector_of (log_slot S i)"
  using outside_log [OF log_legalD(4) [OF assms(1)] assms(3)] sector_of_inj [OF assms(2)] log_legalD(5,9,12) [OF assms(1)] by auto

lemma commit_media:
  assumes c: "cache_ok p Q s" "locked_bufs s = {}" "pinned Q (set H) s" and l: "log_legal S H x"
    and bn: "bn < 0x80000000" "bn < S \<or> S + of_nat LOGSIZE \<le> bn"
  shows "apply_w (wal.commit_writes S H (\<lambda>i. view s (H ! i)) x) (media s) (sector_of bn) = view s bn"
proof -
  let ?V = "\<lambda>i. view s (H ! i)" and ?a = "sector_of bn"
  let ?d = "apply_w (map (\<lambda>i. (sector_of (log_slot S i), ?V i)) [0..<length H]) (media s)"
  note o = outside_sectors [OF l bn]
  have "?d ?a = media s ?a" by (rule apply_w_map_other) (use o in metis)
  then have "(?d(sector_of S := head_put H x)) ?a = media s ?a" using o(1) by simp
  then have "apply_w (wal.installs H ?V) (?d(sector_of S := head_put H x)) ?a = apply_w (wal.installs H ?V) (media s) ?a"
    by (rule apply_w_at)
  also have "\<dots> = view s bn" by (rule installs_view [OF c l bn(1)])
  finally have "apply_w (wal.installs H ?V) (?d(sector_of S := head_put H x)) ?a = view s bn" .
  then show ?thesis using o(1) by (simp add: wal.commit_writes_def)
qed

lemma locked_bufs_map [simp]: "locked_bufs (map_procs f s) = locked_bufs s"
  by (simp add: locked_bufs_def)

lemma bio_frame_wake: "bio_frame s (map_procs (wake me c) s)"
  using woken_map [of s me c] by (auto simp: bio_frame_def) (simp add: map_procs_def)

lemma cache_ok_wake [simp]:
  assumes "cache_ok p Q s"
  shows "cache_ok p Q (map_procs (wake me c) s)"
proof -
  obtain xs where b: "bio_ok p Q xs s" using assms by (auto simp: cache_ok_def)
  let ?s = "map_procs (wake me c) s"
  have "procs ?s p = procs s p" using bio_okD(2) [OF b] by (simp add: map_procs_def wake_def)
  then have "bio_ok p Q xs ?s" using b by (simp add: bio_ok_def buf_ok_def map_procs_def)
  then show ?thesis by (auto simp: cache_ok_def)
qed

lemma end_op_last:
  assumes r: "running p (hw s)" "\<not> lg_committing (lg s)" "lg_outstanding (lg s) = 1"
    and c: "commit sw (upd_lg (\<lambda>l. l\<lparr>lg_outstanding := 0, lg_committing := True\<rparr>) s) = Some s'" "running p (hw s')"
  shows "end_op sw s = Some (map_procs (wake (Some p) (Some Ch_log)) (upd_lg (\<lambda>l. l\<lparr>lg_committing := False\<rparr>) s'))"
  using assms by (simp add: end_op_def kstep upd_lg_def map_procs_def cong: if_cong)

lemma end_op_ok:
  assumes sw: "waits_for_disk sw" and t: "txn p S {} H s" "locked_bufs s = {}" "lg_outstanding (lg s) = 1"
    and l: "log_legal S H (view s S)"
  obtains s' where "end_op sw s = Some s'" "log_idle p S s'" "bio_frame (upd_lg (\<lambda>_. lg s') s) s'"
    "\<And>bn. bn < 0x80000000 \<Longrightarrow> bn < S \<or> S + of_nat LOGSIZE \<le> bn \<Longrightarrow> media s' (sector_of bn) = view s bn"
proof -
  obtain Q where Q: "cache_ok p Q s" "pinned Q (set H) s" using t(1) by (auto simp: txn_def)
  have la: "log_at S H s" "lg_size (lg s) = int LOGSIZE" "\<not> lg_committing (lg s)" using t(1) by (auto simp: txn_def)
  let ?s = "upd_lg (\<lambda>l. l\<lparr>lg_outstanding := 0, lg_committing := True\<rparr>) s"
  have "\<exists>s1. commit sw ?s = Some s1 \<and> cache_ok p {} s1 \<and> locked_bufs s1 = {} \<and> log_at S [] s1 \<and>
      bio_frame (upd_lg (\<lambda>l. l\<lparr>lh_n := 0\<rparr>) ?s) s1 \<and>
      (\<forall>bn. bn < 0x80000000 \<longrightarrow> bn < S \<or> S + of_nat LOGSIZE \<le> bn \<longrightarrow> media s1 (sector_of bn) = view s bn)"
  proof (cases "H = []")
    case True
    then have n: "lh_n (lg s) = 0" and q: "Q = {}" using la(1) Q(2) by (auto simp: log_at_def pinned_def)
    then have "upd_lg (\<lambda>l. l\<lparr>lh_n := 0\<rparr>) ?s = ?s" by (simp add: upd_lg_def)
    moreover have "view s bn = media s (sector_of bn)" if "bn < 0x80000000" for bn
      by (rule view_clean [OF Q(1) that]) (use t(2) q in auto)
    ultimately show ?thesis using n True Q(1) q t(2) la(1) by (simp add: commit_def log_at_def)
  next
    case False
    have a: "cache_ok p Q ?s" "locked_bufs ?s = {}" "pinned Q (set H) ?s" "log_at S H ?s" "log_legal S H (view ?s S)"
      using Q t(2) la(1) l by (simp_all add: log_at_def)
    have "length H < NBUF" using log_legalD(12) [OF l] by (simp add: NBUF_def LOGSIZE_def)
    from commit_ok [OF sw a(1-3) this a(4,5) False] obtain s1 where s1: "commit sw ?s = Some s1" "cache_ok p {} s1" "locked_bufs s1 = {}"
      "log_at S [] s1" "bio_frame (upd_lg (\<lambda>l. l\<lparr>lh_n := 0\<rparr>) ?s) s1"
      "media s1 = apply_w (wal.commit_writes S H (\<lambda>i. view ?s (H ! i)) (view ?s S)) (media ?s)" by blast
    have "media s1 (sector_of bn) = view s bn" if "bn < 0x80000000" "bn < S \<or> S + of_nat LOGSIZE \<le> bn" for bn
      using commit_media [OF Q(1) t(2) Q(2) l that] s1(6) by simp
    then show ?thesis using s1 by blast
  qed
  then obtain s1 where s1: "commit sw ?s = Some s1" "cache_ok p {} s1" "locked_bufs s1 = {}" "log_at S [] s1"
      "bio_frame (upd_lg (\<lambda>l. l\<lparr>lh_n := 0\<rparr>) ?s) s1"
      "\<And>bn. bn < 0x80000000 \<Longrightarrow> bn < S \<or> S + of_nat LOGSIZE \<le> bn \<Longrightarrow> media s1 (sector_of bn) = view s bn" by blast
  let ?t = "upd_lg (\<lambda>l. l\<lparr>lg_committing := False\<rparr>) s1"
  let ?r = "map_procs (wake (Some p) (Some Ch_log)) ?t"
  have lg: "lg s1 = (lg s)\<lparr>lg_outstanding := 0, lh_n := 0, lg_committing := True\<rparr>" using bio_frame_lg [OF s1(5)] by simp
  have lr: "lg ?r = (lg s)\<lparr>lg_outstanding := 0, lh_n := 0, lg_committing := False\<rparr>" by (simp add: map_procs_def lg)
  have "end_op sw s = Some ?r" by (rule end_op_last) (use s1 Q la t(3) cache_okD(1) in auto)
  moreover have "log_idle p S ?r"
    using s1(2-4) la(2) lr by (auto simp: log_idle_def log_at_def lg)
  moreover have "bio_frame (upd_lg (\<lambda>_. lg ?r) s) ?r"
  proof (rule bio_frame_trans)
    show "bio_frame (upd_lg (\<lambda>_. lg ?r) s) ?t"
      using bio_frame_upd_lg [OF s1(5), of "\<lambda>l. l\<lparr>lg_committing := False\<rparr>"] lr by (simp add: upd_lg_def)
    show "bio_frame ?t ?r" by (rule bio_frame_wake)
  qed
  moreover have "media ?r (sector_of bn) = view s bn" if "bn < 0x80000000" "bn < S \<or> S + of_nat LOGSIZE \<le> bn" for bn
    using s1(6) [OF that] by simp
  ultimately show ?thesis using that by blast
qed

section \<open>A concrete log\<close>

lemma cache_ok_cong:
  fixes s :: "'a disk_state_scheme" and t :: "'b disk_state_scheme"
  assumes "hw s = hw t" "procs s = procs t" "vdisk s = vdisk t" "bufs s = bufs t" "\<And>i. sleeplocks s (SL_buf i) = sleeplocks t (SL_buf i)" "media s = media t"
  shows "locked_bufs s = locked_bufs t" "cache_ok p Q s = cache_ok p Q t"
proof -
  show l: "locked_bufs s = locked_bufs t" by (simp add: locked_bufs_def assms)
  show "cache_ok p Q s = cache_ok p Q t" by (simp add: cache_ok_def bio_ok_def buf_ok_def l assms)
qed

definition log0 :: log_state where
  "log0 = disk_state.extend bio0 (log_state.fields
     \<lparr>lg_start = 128, lg_size = 30, lg_outstanding = 0, lg_committing = False, lg_dev = 1, lh_n = 0, lh_block = (\<lambda>_. 0)\<rparr>)"

lemma log0_fields:
  "hw log0 = hw bio0" "procs log0 = procs bio0" "vdisk log0 = vdisk bio0" "bufs log0 = bufs bio0"
  "sleeplocks log0 = sleeplocks bio0" "media log0 = (\<lambda>x. replicate BSIZE (ucast x))"
  "lg log0 = \<lparr>lg_start = 128, lg_size = 30, lg_outstanding = 0, lg_committing = False, lg_dev = 1, lh_n = 0, lh_block = (\<lambda>_. 0)\<rparr>"
  using bio0_ok(3) by (simp_all add: log0_def disk_state.defs log_state.defs)

lemma log0_idle: "log_idle 1 128 log0"
proof -
  have "cache_ok 1 {} bio0" "locked_bufs bio0 = {}" using bio0_ok by (auto simp: cache_ok_def)
  then have "cache_ok 1 {} log0" "locked_bufs log0 = {}"
    using cache_ok_cong [of log0 bio0] log0_fields bio0_ok(3) by auto
  then show ?thesis by (simp add: log_idle_def log_at_def log0_fields LOGSIZE_def)
qed

definition log1 :: log_state where
  "log1 = the (begin_op sw_disk log0)"

definition zeros :: "u8 list" where
  "zeros = replicate BSIZE 0"

text \<open>Block 7 is zeroed and logged.\<close>

definition log2 :: log_state where
  "log2 = the (do {
     (b, s) \<leftarrow> bread sw_disk ROOTDEV 7 log1;
     s \<leftarrow> log_write b (set_data b zeros s);
     brelse b s })"

lemma log1_txn: "txn 1 128 {} [] log1" "locked_bufs log1 = {}" "media log1 = (\<lambda>x. replicate BSIZE (ucast x))"
    "lg_outstanding (lg log1) = 1"
  using begin_op_ok(1) [OF log0_idle, of sw_disk] begin_op_ok(2) [OF log0_idle] log0_idle by (auto simp: log1_def log0_fields log_idle_def)

lemma log2_txn: "txn 1 128 {} [7] log2" "locked_bufs log2 = {}" "view log2 = (view log1)(7 := zeros)"
    "media log2 = (\<lambda>x. replicate BSIZE (ucast x))" "lg_outstanding (lg log2) = 1"
proof -
  have r: "(7::u32) < 0x80000000" "\<And>i. i \<in> locked_bufs log1 \<Longrightarrow> b_blockno (bufs log1 i) \<noteq> 7" "card (locked_bufs log1) \<le> 1"
    "length ([] :: u32 list) < 29" "length zeros = BSIZE" using log1_txn(2) by (simp_all add: zeros_def)
  obtain b s1 s2 s3 where s: "bread sw_disk ROOTDEV 7 log1 = Some (b, s1)" "log_write b (set_data b zeros s1) = Some s2" "brelse b s2 = Some s3"
    "txn 1 128 {} (logged 7 []) s3" "txn_frame log1 s3" "keeps log1 s3" "view s3 = (view log1)(7 := zeros)"
    by (rule txn_update [OF waits_sw_disk log1_txn(1) r])
  then have "log2 = s3" by (simp add: log2_def)
  then show "txn 1 128 {} [7] log2" "locked_bufs log2 = {}" "view log2 = (view log1)(7 := zeros)"
    "media log2 = (\<lambda>x. replicate BSIZE (ucast x))" "lg_outstanding (lg log2) = 1"
    using s log1_txn by (auto simp: logged_def txn_frame_def keeps_def)
qed

lemma le_nat_zeros [simp]: "le_nat k (\<lambda>_. 0) = 0"
  by (induction k) auto

lemma get_w_zeros: "i + LENGTH('a) div 8 \<le> n \<Longrightarrow> get_w i (replicate n 0) = (0 :: 'a::len word)"
  unfolding get_w_def using le_word_cong [where 'a = 'a, of "\<lambda>k. replicate n 0 ! (i + k)" "\<lambda>_. 0"] by (simp add: le_word_def)

lemma log2_head: "media log2 (sector_of 128) = replicate BSIZE 0"
  by (simp add: log2_txn(4) sector_of_def BSIZE_def)

lemma log2_view: "view log2 128 = replicate BSIZE 0"
proof -
  have "view log2 128 = media log2 (sector_of 128)" by (rule txn_view_clean [OF log2_txn(1)]) (auto simp: log2_txn(2))
  then show ?thesis by (simp add: log2_head)
qed

lemma log2_legal: "log_legal 128 [7] (view log2 128)"
  by (simp add: log2_view log_legal_def LOGSIZE_def)

section \<open>Properties\<close>



text \<open>C2: commits are atomic, whatever the moment of a crash. When a transaction is committed, cut the
  sequence of its disk writes off at any point and boot a kernel on the disk as it then is:
  recovery returns, and every block outside the log is as before the transaction, or every
  block is as the transaction left it.\<close>

theorem commit_crash_atomic:
  assumes sw: "waits_for_disk sw" and c: "cache_ok p Q s" "locked_bufs s = {}" "pinned Q (set H) s" "length H < NBUF"
    and l: "log_at S H s" "log_legal S H (view s S)" "H \<noteq> []"
    and h: "get_w 0 (media s (sector_of S)) = (0 :: u32)"
  shows "\<exists>s' ws. commit sw s = Some s' \<and> dwrites s' = dwrites s @ ws \<and>
    (\<forall>k r. booted p S r \<longrightarrow> media r = apply_w (take k ws) (media s) \<longrightarrow>
      (\<exists>r'. recover_from_log sw r = Some r' \<and>
        ((\<forall>bn. bn < 0x80000000 \<longrightarrow> bn < S \<or> S + of_nat LOGSIZE \<le> bn \<longrightarrow> view r' bn = media s (sector_of bn)) \<or>
         (\<forall>bn. bn < 0x80000000 \<longrightarrow> bn < S \<or> S + of_nat LOGSIZE \<le> bn \<longrightarrow> view r' bn = view s bn))))"
proof -
  note ll = log_legalD [OF l(2)]
  let ?V = "\<lambda>i. view s (H ! i)" and ?x = "view s S"
  let ?ws = "wal.commit_writes S H ?V ?x"
  have nS: "b_blockno (bufs s i) \<in> set H" if "i \<in> Q" for i using c(3) that by (simp add: pinned_def)
  have cl: "view s bn = media s (sector_of bn)" if "bn < 0x80000000" "bn \<notin> set H" for bn
    by (rule view_clean [OF c(1) that(1)]) (use c(2) nS that(2) in auto)
  have "S \<notin> set H" using ll(7) by (auto simp: in_set_conv_nth)
  then have x: "media s (sector_of S) = ?x" using cl ll(5) by simp
  have hg: "head_get (media s (sector_of S)) = []" using h by (simp add: head_get_def)
  obtain s' where s': "commit sw s = Some s'" "dwrites s' = dwrites s @ ?ws"
    using commit_ok [OF sw c l] by blast
  have "\<exists>r'. recover_from_log sw r = Some r' \<and>
        ((\<forall>bn. bn < 0x80000000 \<longrightarrow> bn < S \<or> S + of_nat LOGSIZE \<le> bn \<longrightarrow> view r' bn = media s (sector_of bn)) \<or>
         (\<forall>bn. bn < 0x80000000 \<longrightarrow> bn < S \<or> S + of_nat LOGSIZE \<le> bn \<longrightarrow> view r' bn = view s bn))"
    if b: "booted p S r" and m: "media r = apply_w (take k ?ws) (media s)" for k r
  proof -
    have "head_ok S (media r (sector_of S))" unfolding m by (rule crash_head_ok [where d = "media s"]) (use l(2) h x in auto)
    from recover_ok [OF sw b this] obtain r' where
      r': "recover_from_log sw r = Some r'" "booted p S r'" "media r' = wal.recover S (media r)" by blast
    have o: "view r' bn = (if k \<le> length H then media s (sector_of bn) else view s bn)"
      if a: "bn < 0x80000000" "bn < S \<or> S + of_nat LOGSIZE \<le> bn" for bn
    proof -
      note sec = outside_sectors [OF l(2) a]
      have v: "view r' bn = wal.recover S (apply_w (take k ?ws) (media s)) (sector_of bn)"
        using booted_view [OF r'(2) a(1)] r'(3) m by simp
      show ?thesis
      proof (cases "k \<le> length H")
        case True
        show ?thesis unfolding v by (subst wal.crash_before [where d = "media s"]) (use l(2) hg True sec in auto)
      next
        case False
        show ?thesis unfolding v
          by (subst wal.crash_after [where d = "media s"]) (use l(2) False sec installs_view [OF c(1-3) l(2) a(1)] in auto)
      qed
    qed
    show ?thesis using r'(1) o by (intro exI [of _ r']) auto
  qed
  then show ?thesis using s' by blast
qed

theorem commit_crash_atomic_witness:
  "\<exists>s' ws. commit sw_disk log2 = Some s' \<and> dwrites s' = dwrites log2 @ ws \<and>
    (\<forall>k (r :: log_state). booted 1 128 r \<longrightarrow> media r = apply_w (take k ws) (media log2) \<longrightarrow>
      (\<exists>r'. recover_from_log sw_disk r = Some r' \<and> (view r' 7 = replicate BSIZE 14 \<or> view r' 7 = zeros)))"
proof -
  obtain Q where Q: "cache_ok 1 Q log2" "pinned Q (set [7]) log2" "log_at 128 [7] log2" using log2_txn(1) by (auto simp: txn_def)
  have h: "get_w 0 (media log2 (sector_of 128)) = (0 :: u32)"
    by (simp add: log2_head BSIZE_def get_w_zeros)
  have n: "length [7::u32] < NBUF" by (simp add: NBUF_def)
  have m: "media log2 (sector_of 7) = replicate BSIZE 14" by (simp add: log2_txn(4) sector_of_def BSIZE_def)
  have v: "view log2 7 = zeros" by (simp add: log2_txn(3))
  obtain s' ws where s': "commit sw_disk log2 = Some s'" "dwrites s' = dwrites log2 @ ws"
    and c: "\<And>k (r :: log_state). booted 1 128 r \<Longrightarrow> media r = apply_w (take k ws) (media log2) \<Longrightarrow>
      (\<exists>r'. recover_from_log sw_disk r = Some r' \<and>
       ((\<forall>bn. bn < 0x80000000 \<longrightarrow> bn < 128 \<or> 128 + of_nat LOGSIZE \<le> bn \<longrightarrow> view r' bn = media log2 (sector_of bn)) \<or>
        (\<forall>bn. bn < 0x80000000 \<longrightarrow> bn < 128 \<or> 128 + of_nat LOGSIZE \<le> bn \<longrightarrow> view r' bn = view log2 bn)))"
    using commit_crash_atomic [OF waits_sw_disk Q(1) log2_txn(2) Q(2) n Q(3) log2_legal list.distinct(2) h] by blast
  have "\<exists>r'. recover_from_log sw_disk r = Some r' \<and> (view r' 7 = replicate BSIZE 14 \<or> view r' 7 = zeros)"
    if "booted 1 128 r" "media r = apply_w (take k ws) (media log2)" for k and r :: log_state
  proof -
    have "(7::u32) < 0x80000000" "(7::u32) < 128" by simp_all
    then show ?thesis using c [OF that] m v by metis
  qed
  then show ?thesis using s' by blast
qed

end
