(* ===== verification/Fs.thy ===== *)
theory Fs
  imports Logtxn
begin

unbundle bit_operations_syntax

text \<open>
  The file system (kernel/fs.c): blocks, inodes, file contents, directories and path names.

  \<open>sb\<close> is the super block in memory and \<open>itable\<close> the table of in-memory inodes; a pointer to an
  inode is an index into it, and a null pointer is None at the places where the code tests for it.
  Structures on disk are read and written through byte offsets of the buffer's data. What readi
  copies to a kernel object is part of its result. Block numbers in balloc are C ints in the code
  and natural numbers here, which agree on disks of at most 2^31 blocks.
\<close>

section \<open>Constants and data\<close>

definition NINODE :: nat where "NINODE = 50"
definition ROOTINO :: u32 where "ROOTINO = 1"
definition FSMAGIC :: u32 where "FSMAGIC = 0x10203040"
definition NDIRECT :: nat where "NDIRECT = 12"
definition NINDIRECT :: nat where "NINDIRECT = BSIZE div 4"
definition MAXFILE :: nat where "MAXFILE = NDIRECT + NINDIRECT"
definition IPB :: u32 where "IPB = of_nat BSIZE div 64"
definition BPB :: nat where "BPB = BSIZE * 8"
definition DIRSIZ :: nat where "DIRSIZ = 14"
definition T_DIR :: u16 where "T_DIR = 1"
definition T_FILE :: u16 where "T_FILE = 2"
definition T_DEVICE :: u16 where "T_DEVICE = 3"

record inode =
  i_dev :: u32
  i_inum :: u32
  i_ref :: int
  i_valid :: bool
  i_type :: u16
  i_major :: u16
  i_minor :: u16
  i_nlink :: u16
  i_size :: u32
  i_addrs :: "nat \<Rightarrow> u32"

record dirent =
  de_inum :: u16
  de_name :: "u8 list"

record stat =
  st_dev :: int
  st_ino :: u32
  st_type :: u16
  st_nlink :: u16
  st_size :: u64

record fs_state = log_state +
  sb :: superblock
  itable :: "nat \<Rightarrow> inode"

definition upd_inode :: "nat \<Rightarrow> (inode \<Rightarrow> inode) \<Rightarrow> 'z fs_state_scheme \<Rightarrow> 'z fs_state_scheme" where
  "upd_inode ip f s = s\<lparr>itable := (itable s)(ip := f (itable s ip))\<rparr>"

definition IBLOCK :: "u32 \<Rightarrow> superblock \<Rightarrow> u32" where
  "IBLOCK i sblk = i div IPB + sb_inodestart sblk"

definition BBLOCK :: "u32 \<Rightarrow> superblock \<Rightarrow> u32" where
  "BBLOCK b sblk = b div of_nat BPB + sb_bmapstart sblk"

section \<open>Blocks\<close>

definition readsb :: "('z fs_state_scheme \<Rightarrow> 'z fs_state_scheme option) \<Rightarrow> u32 \<Rightarrow> 'z fs_state_scheme
    \<Rightarrow> (superblock \<times> 'z fs_state_scheme) option" where
  "readsb sw dev s = do {
     (bp, s) \<leftarrow> bread sw dev 1 s;
     let d = b_data (bufs s bp);
     let sb = \<lparr>sb_magic = get_w 0 d, sb_size = get_w 4 d, sb_nblocks = get_w 8 d, sb_ninodes = get_w 12 d,
       sb_nlog = get_w 16 d, sb_logstart = get_w 20 d, sb_inodestart = get_w 24 d, sb_bmapstart = get_w 28 d\<rparr>;
     s \<leftarrow> brelse bp s;
     Some (sb, s) }"

definition fsinit :: "('z fs_state_scheme \<Rightarrow> 'z fs_state_scheme option) \<Rightarrow> int \<Rightarrow> 'z fs_state_scheme
    \<Rightarrow> 'z fs_state_scheme option" where
  "fsinit sw dev s = do {
     (b, s) \<leftarrow> readsb sw (word_of_int dev) s;
     let s = s\<lparr>sb := b\<rparr>;
     if sb_magic (sb s) \<noteq> FSMAGIC then None
     else initlog sw dev (sb s) s }"

definition bzero :: "('z fs_state_scheme \<Rightarrow> 'z fs_state_scheme option) \<Rightarrow> u32 \<Rightarrow> u32 \<Rightarrow> 'z fs_state_scheme
    \<Rightarrow> 'z fs_state_scheme option" where
  "bzero sw dev bno s = do {
     (bp, s) \<leftarrow> bread sw dev bno s;
     let s = set_data bp (replicate BSIZE 0) s;
     s \<leftarrow> log_write bp s;
     brelse bp s }"

text \<open>The bit of block \<open>bi\<close> of a bitmap block.\<close>

definition bm_mask :: "nat \<Rightarrow> u8" where
  "bm_mask bi = push_bit (bi mod 8) 1"

definition bm_used :: "u8 list \<Rightarrow> nat \<Rightarrow> bool" where
  "bm_used d bi \<longleftrightarrow> d ! (bi div 8) AND bm_mask bi \<noteq> 0"

definition balloc_bit :: "('z fs_state_scheme \<Rightarrow> 'z fs_state_scheme option) \<Rightarrow> u32 \<Rightarrow> nat \<Rightarrow> nat \<Rightarrow> nat \<Rightarrow> 'z fs_state_scheme
    \<Rightarrow> (u32 option \<times> 'z fs_state_scheme) option" where
  "balloc_bit sw dev bp b bi s =
    (if \<not> bm_used (b_data (bufs s bp)) bi then do {
       let d = b_data (bufs s bp);
       let s = set_data bp (d[bi div 8 := d ! (bi div 8) OR bm_mask bi]) s;
       s \<leftarrow> log_write bp s;
       s \<leftarrow> brelse bp s;
       s \<leftarrow> bzero sw dev (of_nat (b + bi)) s;
       Some (Some (of_nat (b + bi)), s) }
     else Some (None, s))"

definition balloc_block :: "('z fs_state_scheme \<Rightarrow> 'z fs_state_scheme option) \<Rightarrow> u32 \<Rightarrow> nat \<Rightarrow> 'z fs_state_scheme
    \<Rightarrow> (u32 option \<times> 'z fs_state_scheme) option" where
  "balloc_block sw dev b s = do {
     (bp, s) \<leftarrow> bread sw dev (BBLOCK (of_nat b) (sb s)) s;
     (r, s) \<leftarrow> search_n 0 (min BPB (unat (sb_size (sb s)) - b)) (balloc_bit sw dev bp b) s;
     case r of
       Some a \<Rightarrow> Some (Some a, s)
     | None \<Rightarrow> do { s \<leftarrow> brelse bp s; Some (None, s) } }"

definition balloc :: "('z fs_state_scheme \<Rightarrow> 'z fs_state_scheme option) \<Rightarrow> u32 \<Rightarrow> 'z fs_state_scheme
    \<Rightarrow> (u32 \<times> 'z fs_state_scheme) option" where
  "balloc sw dev s = do {
     (r, s) \<leftarrow> search_n 0 ((unat (sb_size (sb s)) + BPB - 1) div BPB) (\<lambda>k. balloc_block sw dev (k * BPB)) s;
     case r of
       Some a \<Rightarrow> Some (a, s)
     | None \<Rightarrow> do {
         s \<leftarrow> printf (''balloc: out of blocks'' @ [CHR 10]) [] s;
         Some (0, s) } }"

definition bfree :: "('z fs_state_scheme \<Rightarrow> 'z fs_state_scheme option) \<Rightarrow> u32 \<Rightarrow> u32 \<Rightarrow> 'z fs_state_scheme
    \<Rightarrow> 'z fs_state_scheme option" where
  "bfree sw dev b s = do {
     (bp, s) \<leftarrow> bread sw dev (BBLOCK b (sb s)) s;
     let bi = unat b mod BPB;
     let d = b_data (bufs s bp);
     if \<not> bm_used d bi then None
     else do {
       let s = set_data bp (d[bi div 8 := d ! (bi div 8) AND NOT (bm_mask bi)]) s;
       s \<leftarrow> log_write bp s;
       brelse bp s } }"

section \<open>Inodes\<close>

definition iinit :: "'z fs_state_scheme \<Rightarrow> 'z fs_state_scheme option" where
  "iinit s = (let s = s\<lparr>hw := initlock Lk_itable ''itable'' (hw s)\<rparr>
     in for_n 0 NINODE (\<lambda>i s. Some (initsleeplock (SL_inode i) ''inode'' s)) s)"

definition iget :: "u32 \<Rightarrow> u32 \<Rightarrow> 'z fs_state_scheme \<Rightarrow> (nat \<times> 'z fs_state_scheme) option" where
  "iget dev inum s = do {
     s \<leftarrow> lock Lk_itable s;
     (r, empty, s) \<leftarrow> search_n 0 NINODE (\<lambda>ip (empty, s).
       let x = itable s ip in
       if i_ref x > 0 \<and> i_dev x = dev \<and> i_inum x = inum then do {
         let s = upd_inode ip (\<lambda>x. x\<lparr>i_ref := i_ref x + 1\<rparr>) s;
         s \<leftarrow> unlock Lk_itable s;
         Some (Some ip, empty, s) }
       else Some (None, if empty = None \<and> i_ref x = 0 then Some ip else empty, s)) (None, s);
     case r of
       Some ip \<Rightarrow> Some (ip, s)
     | None \<Rightarrow> (case empty of
         None \<Rightarrow> None
       | Some ip \<Rightarrow> do {
           let s = upd_inode ip (\<lambda>x. x\<lparr>i_dev := dev, i_inum := inum, i_ref := 1, i_valid := False\<rparr>) s;
           s \<leftarrow> unlock Lk_itable s;
           Some (ip, s) }) }"

definition din_off :: "u32 \<Rightarrow> nat" where
  "din_off inum = 64 * unat (inum mod IPB)"

definition ialloc :: "('z fs_state_scheme \<Rightarrow> 'z fs_state_scheme option) \<Rightarrow> u32 \<Rightarrow> u16 \<Rightarrow> 'z fs_state_scheme
    \<Rightarrow> (nat option \<times> 'z fs_state_scheme) option" where
  "ialloc sw dev type s = do {
     (r, s) \<leftarrow> search_n 1 (unat (sb_ninodes (sb s)) - 1) (\<lambda>inum s. do {
       (bp, s) \<leftarrow> bread sw dev (IBLOCK (of_nat inum) (sb s)) s;
       let d = b_data (bufs s bp);
       let dip = din_off (of_nat inum);
       if get_w dip d = (0 :: u16) then do {
         let s = set_data bp (put_w dip type (patch dip (replicate 64 0) d)) s;
         s \<leftarrow> log_write bp s;
         s \<leftarrow> brelse bp s;
         (ip, s) \<leftarrow> iget dev (of_nat inum) s;
         Some (Some ip, s) }
       else do { s \<leftarrow> brelse bp s; Some (None, s) } }) s;
     case r of
       Some ip \<Rightarrow> Some (Some ip, s)
     | None \<Rightarrow> do {
         s \<leftarrow> printf (''ialloc: no inodes'' @ [CHR 10]) [] s;
         Some (None, s) } }"

text \<open>The on-disk inode at a byte offset of a block.\<close>

definition put_dinode :: "nat \<Rightarrow> inode \<Rightarrow> u8 list \<Rightarrow> u8 list" where
  "put_dinode dip x d =
    (let d = put_w dip (i_type x) d;
         d = put_w (dip + 2) (i_major x) d;
         d = put_w (dip + 4) (i_minor x) d;
         d = put_w (dip + 6) (i_nlink x) d;
         d = put_w (dip + 8) (i_size x) d
     in fold (\<lambda>k. put_w (dip + 12 + 4 * k) (i_addrs x k)) [0..<Suc NDIRECT] d)"

definition get_dinode :: "nat \<Rightarrow> u8 list \<Rightarrow> inode \<Rightarrow> inode" where
  "get_dinode dip d x = x\<lparr>i_type := get_w dip d, i_major := get_w (dip + 2) d, i_minor := get_w (dip + 4) d,
     i_nlink := get_w (dip + 6) d, i_size := get_w (dip + 8) d,
     i_addrs := (\<lambda>k. if k < Suc NDIRECT then get_w (dip + 12 + 4 * k) d else i_addrs x k)\<rparr>"

definition iupdate :: "('z fs_state_scheme \<Rightarrow> 'z fs_state_scheme option) \<Rightarrow> nat \<Rightarrow> 'z fs_state_scheme
    \<Rightarrow> 'z fs_state_scheme option" where
  "iupdate sw ip s = do {
     (bp, s) \<leftarrow> bread sw (i_dev (itable s ip)) (IBLOCK (i_inum (itable s ip)) (sb s)) s;
     let dip = din_off (i_inum (itable s ip));
     let s = set_data bp (put_dinode dip (itable s ip) (b_data (bufs s bp))) s;
     s \<leftarrow> log_write bp s;
     brelse bp s }"

definition idup :: "nat \<Rightarrow> 'z fs_state_scheme \<Rightarrow> (nat \<times> 'z fs_state_scheme) option" where
  "idup ip s = do {
     s \<leftarrow> lock Lk_itable s;
     let s = upd_inode ip (\<lambda>x. x\<lparr>i_ref := i_ref x + 1\<rparr>) s;
     s \<leftarrow> unlock Lk_itable s;
     Some (ip, s) }"

definition ilock :: "('z fs_state_scheme \<Rightarrow> 'z fs_state_scheme option) \<Rightarrow> nat option \<Rightarrow> 'z fs_state_scheme
    \<Rightarrow> 'z fs_state_scheme option" where
  "ilock sw ip s = (case ip of
     None \<Rightarrow> None
   | Some ip \<Rightarrow>
       if i_ref (itable s ip) < 1 then None
       else do {
         s \<leftarrow> acquiresleep sw (SL_inode ip) s;
         if \<not> i_valid (itable s ip) then do {
           (bp, s) \<leftarrow> bread sw (i_dev (itable s ip)) (IBLOCK (i_inum (itable s ip)) (sb s)) s;
           let dip = din_off (i_inum (itable s ip));
           let s = upd_inode ip (get_dinode dip (b_data (bufs s bp))) s;
           s \<leftarrow> brelse bp s;
           let s = upd_inode ip (\<lambda>x. x\<lparr>i_valid := True\<rparr>) s;
           if i_type (itable s ip) = 0 then None else Some s }
         else Some s })"

definition iunlock :: "nat option \<Rightarrow> 'z fs_state_scheme \<Rightarrow> 'z fs_state_scheme option" where
  "iunlock ip s = (case ip of
     None \<Rightarrow> None
   | Some ip \<Rightarrow> do {
       (r, s) \<leftarrow> holdingsleep (SL_inode ip) s;
       if \<not> r \<or> i_ref (itable s ip) < 1 then None
       else releasesleep (SL_inode ip) s })"

definition itrunc_direct :: "('z fs_state_scheme \<Rightarrow> 'z fs_state_scheme option) \<Rightarrow> nat \<Rightarrow> nat \<Rightarrow> 'z fs_state_scheme
    \<Rightarrow> 'z fs_state_scheme option" where
  "itrunc_direct sw ip i s =
    (if i_addrs (itable s ip) i \<noteq> 0 then do {
       s \<leftarrow> bfree sw (i_dev (itable s ip)) (i_addrs (itable s ip) i) s;
       Some (upd_inode ip (\<lambda>x. x\<lparr>i_addrs := (i_addrs x)(i := 0)\<rparr>) s) }
     else Some s)"

definition itrunc_indirect :: "('z fs_state_scheme \<Rightarrow> 'z fs_state_scheme option) \<Rightarrow> nat \<Rightarrow> nat \<Rightarrow> nat \<Rightarrow> 'z fs_state_scheme
    \<Rightarrow> 'z fs_state_scheme option" where
  "itrunc_indirect sw ip bp j s =
    (let a = get_w (4 * j) (b_data (bufs s bp)) :: u32
     in if a \<noteq> 0 then bfree sw (i_dev (itable s ip)) a s else Some s)"

definition itrunc :: "('z fs_state_scheme \<Rightarrow> 'z fs_state_scheme option) \<Rightarrow> nat \<Rightarrow> 'z fs_state_scheme
    \<Rightarrow> 'z fs_state_scheme option" where
  "itrunc sw ip s = do {
     s \<leftarrow> for_n 0 NDIRECT (itrunc_direct sw ip) s;
     s \<leftarrow> (if i_addrs (itable s ip) NDIRECT \<noteq> 0 then do {
         (bp, s) \<leftarrow> bread sw (i_dev (itable s ip)) (i_addrs (itable s ip) NDIRECT) s;
         s \<leftarrow> for_n 0 NINDIRECT (itrunc_indirect sw ip bp) s;
         s \<leftarrow> brelse bp s;
         s \<leftarrow> bfree sw (i_dev (itable s ip)) (i_addrs (itable s ip) NDIRECT) s;
         Some (upd_inode ip (\<lambda>x. x\<lparr>i_addrs := (i_addrs x)(NDIRECT := 0)\<rparr>) s) }
       else Some s);
     let s = upd_inode ip (\<lambda>x. x\<lparr>i_size := 0\<rparr>) s;
     iupdate sw ip s }"

definition iput :: "('z fs_state_scheme \<Rightarrow> 'z fs_state_scheme option) \<Rightarrow> nat \<Rightarrow> 'z fs_state_scheme
    \<Rightarrow> 'z fs_state_scheme option" where
  "iput sw ip s = do {
     s \<leftarrow> lock Lk_itable s;
     s \<leftarrow> (if i_ref (itable s ip) = 1 \<and> i_valid (itable s ip) \<and> i_nlink (itable s ip) = 0 then do {
         s \<leftarrow> acquiresleep sw (SL_inode ip) s;
         s \<leftarrow> unlock Lk_itable s;
         s \<leftarrow> itrunc sw ip s;
         let s = upd_inode ip (\<lambda>x. x\<lparr>i_type := 0\<rparr>) s;
         s \<leftarrow> iupdate sw ip s;
         let s = upd_inode ip (\<lambda>x. x\<lparr>i_valid := False\<rparr>) s;
         s \<leftarrow> releasesleep (SL_inode ip) s;
         lock Lk_itable s }
       else Some s);
     let s = upd_inode ip (\<lambda>x. x\<lparr>i_ref := i_ref x - 1\<rparr>) s;
     unlock Lk_itable s }"

definition iunlockput :: "('z fs_state_scheme \<Rightarrow> 'z fs_state_scheme option) \<Rightarrow> nat \<Rightarrow> 'z fs_state_scheme
    \<Rightarrow> 'z fs_state_scheme option" where
  "iunlockput sw ip s = do {
     s \<leftarrow> iunlock (Some ip) s;
     iput sw ip s }"

section \<open>Inode content\<close>

definition bmap_direct :: "('z fs_state_scheme \<Rightarrow> 'z fs_state_scheme option) \<Rightarrow> nat \<Rightarrow> nat \<Rightarrow> 'z fs_state_scheme
    \<Rightarrow> (u32 \<times> 'z fs_state_scheme) option" where
  "bmap_direct sw ip k s =
    (if i_addrs (itable s ip) k = 0 then do {
       (addr, s) \<leftarrow> balloc sw (i_dev (itable s ip)) s;
       if addr = 0 then Some (0, s)
       else Some (addr, upd_inode ip (\<lambda>x. x\<lparr>i_addrs := (i_addrs x)(k := addr)\<rparr>) s) }
     else Some (i_addrs (itable s ip) k, s))"

definition bmap :: "('z fs_state_scheme \<Rightarrow> 'z fs_state_scheme option) \<Rightarrow> nat \<Rightarrow> nat \<Rightarrow> 'z fs_state_scheme
    \<Rightarrow> (u32 \<times> 'z fs_state_scheme) option" where
  "bmap sw ip bn s =
    (if bn < NDIRECT then bmap_direct sw ip bn s
     else let bn = bn - NDIRECT in
       if bn < NINDIRECT then do {
         (addr, s) \<leftarrow> bmap_direct sw ip NDIRECT s;
         if addr = 0 then Some (0, s)
         else do {
           (bp, s) \<leftarrow> bread sw (i_dev (itable s ip)) addr s;
           let addr = get_w (4 * bn) (b_data (bufs s bp));
           (addr, s) \<leftarrow> (if addr = 0 then do {
               (addr, s) \<leftarrow> balloc sw (i_dev (itable s ip)) s;
               if addr \<noteq> 0 then do {
                 let s = set_data bp (put_w (4 * bn) addr (b_data (bufs s bp))) s;
                 s \<leftarrow> log_write bp s;
                 Some (addr, s) }
               else Some (addr, s) }
             else Some (addr, s));
           s \<leftarrow> brelse bp s;
           Some (addr, s) } }
       else None)"

definition stati :: "nat \<Rightarrow> 'z fs_state_scheme \<Rightarrow> stat" where
  "stati ip s = (let x = itable s ip in
     \<lparr>st_dev = sint (i_dev x), st_ino = i_inum x, st_type = i_type x, st_nlink = i_nlink x, st_size = ucast (i_size x)\<rparr>)"

definition kplace_add :: "kplace \<Rightarrow> nat \<Rightarrow> kplace" where
  "kplace_add a m = (case a of
     User va \<Rightarrow> User (va + of_nat m) | Kmem pa \<Rightarrow> Kmem (pa + of_nat m) | Kobj bs \<Rightarrow> Kobj (drop m bs))"

text \<open>The number of bytes one turn of readi and writei moves.\<close>

definition rw_step :: "u32 \<Rightarrow> u32 \<Rightarrow> u32 \<Rightarrow> u32" where
  "rw_step offs tot n = min (n - tot) (of_nat BSIZE - offs mod of_nat BSIZE)"

partial_function (option) readi_loop :: "('z fs_state_scheme \<Rightarrow> 'z fs_state_scheme option) \<Rightarrow> nat \<Rightarrow> kplace \<Rightarrow> u32 \<Rightarrow> u32 \<Rightarrow> u32
    \<Rightarrow> u8 list \<Rightarrow> 'z fs_state_scheme \<Rightarrow> (u32 \<times> u8 list \<times> 'z fs_state_scheme) option" where
  "readi_loop sw ip dst offs tot n out s =
    (if tot < n then do {
       (addr, s) \<leftarrow> bmap sw ip (unat (offs div of_nat BSIZE)) s;
       if addr = 0 then Some (tot, out, s)
       else do {
         (bp, s) \<leftarrow> bread sw (i_dev (itable s ip)) addr s;
         let m = rw_step offs tot n;
         let bs = take (unat m) (drop (unat (offs mod of_nat BSIZE)) (b_data (bufs s bp)));
         (r, s) \<leftarrow> either_copyout dst bs s;
         s \<leftarrow> brelse bp s;
         if r = -1 then Some (-1, out, s)
         else readi_loop sw ip (kplace_add dst (unat m)) (offs + m) (tot + m) n (out @ bs) s } }
     else Some (tot, out, s))"

definition readi :: "('z fs_state_scheme \<Rightarrow> 'z fs_state_scheme option) \<Rightarrow> nat \<Rightarrow> kplace \<Rightarrow> u32 \<Rightarrow> u32 \<Rightarrow> 'z fs_state_scheme
    \<Rightarrow> (int \<times> u8 list \<times> 'z fs_state_scheme) option" where
  "readi sw ip dst offs n s =
    (if offs > i_size (itable s ip) \<or> offs + n < offs then Some (0, [], s)
     else do {
       let n = (if offs + n > i_size (itable s ip) then i_size (itable s ip) - offs else n);
       (tot, out, s) \<leftarrow> readi_loop sw ip dst offs 0 n [] s;
       Some (sint tot, out, s) })"

partial_function (option) writei_loop :: "('z fs_state_scheme \<Rightarrow> 'z fs_state_scheme option) \<Rightarrow> nat \<Rightarrow> kplace \<Rightarrow> u32 \<Rightarrow> u32 \<Rightarrow> u32
    \<Rightarrow> 'z fs_state_scheme \<Rightarrow> (u32 \<times> u32 \<times> 'z fs_state_scheme) option" where
  "writei_loop sw ip src offs tot n s =
    (if tot < n then do {
       (addr, s) \<leftarrow> bmap sw ip (unat (offs div of_nat BSIZE)) s;
       if addr = 0 then Some (tot, offs, s)
       else do {
         (bp, s) \<leftarrow> bread sw (i_dev (itable s ip)) addr s;
         let m = rw_step offs tot n;
         (r, bs, s) \<leftarrow> either_copyin src (unat m) s;
         let s = set_data bp (patch (unat (offs mod of_nat BSIZE)) bs (b_data (bufs s bp))) s;
         if r = -1 then do { s \<leftarrow> brelse bp s; Some (tot, offs, s) }
         else do {
           s \<leftarrow> log_write bp s;
           s \<leftarrow> brelse bp s;
           writei_loop sw ip (kplace_add src (unat m)) (offs + m) (tot + m) n s } } }
     else Some (tot, offs, s))"

definition writei :: "('z fs_state_scheme \<Rightarrow> 'z fs_state_scheme option) \<Rightarrow> nat \<Rightarrow> kplace \<Rightarrow> u32 \<Rightarrow> u32 \<Rightarrow> 'z fs_state_scheme
    \<Rightarrow> (int \<times> 'z fs_state_scheme) option" where
  "writei sw ip src offs n s =
    (if offs > i_size (itable s ip) \<or> offs + n < offs then Some (-1, s)
     else if offs + n > of_nat (MAXFILE * BSIZE) then Some (-1, s)
     else do {
       (tot, offs, s) \<leftarrow> writei_loop sw ip src offs 0 n s;
       let s = (if offs > i_size (itable s ip) then upd_inode ip (\<lambda>x. x\<lparr>i_size := offs\<rparr>) s else s);
       s \<leftarrow> iupdate sw ip s;
       Some (sint tot, s) })"

section \<open>Directories\<close>

text \<open>A C string in an array: the end of the list is the terminating zero.\<close>

definition cchar :: "u8 list \<Rightarrow> u8" where
  "cchar p = (case p of [] \<Rightarrow> 0 | c # _ \<Rightarrow> c)"

primrec strncmp_arr :: "nat \<Rightarrow> u8 list \<Rightarrow> u8 list \<Rightarrow> int" where
  "strncmp_arr 0 p q = 0"
| "strncmp_arr (Suc n) p q =
    (if cchar p \<noteq> 0 \<and> cchar p = cchar q then strncmp_arr n (tl p) (tl q) else uint (cchar p) - uint (cchar q))"

primrec strncpy_arr :: "nat \<Rightarrow> u8 list \<Rightarrow> u8 list" where
  "strncpy_arr 0 t = []"
| "strncpy_arr (Suc n) t = (if cchar t = 0 then replicate (Suc n) 0 else cchar t # strncpy_arr n (tl t))"

definition namecmp :: "u8 list \<Rightarrow> u8 list \<Rightarrow> int" where
  "namecmp s t = strncmp_arr DIRSIZ s t"

definition get_dirent :: "u8 list \<Rightarrow> dirent" where
  "get_dirent bs = \<lparr>de_inum = get_w 0 bs, de_name = take DIRSIZ (drop 2 bs)\<rparr>"

definition dirent_bytes :: "dirent \<Rightarrow> u8 list" where
  "dirent_bytes de = map (byte_of (de_inum de)) [0..<2] @ de_name de"

text \<open>\<open>readi(dp, 0, (uint64)&de, offs, sizeof(de))\<close>, with the panic of its callers on a short read.\<close>

definition read_dirent :: "('z fs_state_scheme \<Rightarrow> 'z fs_state_scheme option) \<Rightarrow> nat \<Rightarrow> u32 \<Rightarrow> 'z fs_state_scheme
    \<Rightarrow> (dirent \<times> 'z fs_state_scheme) option" where
  "read_dirent sw dp offs s = do {
     (r, bs, s) \<leftarrow> readi sw dp (Kobj []) offs 16 s;
     if r \<noteq> 16 then None else Some (get_dirent bs, s) }"

partial_function (option) dirlookup_loop :: "('z fs_state_scheme \<Rightarrow> 'z fs_state_scheme option) \<Rightarrow> nat \<Rightarrow> u8 list \<Rightarrow> u32 \<Rightarrow> 'z fs_state_scheme
    \<Rightarrow> ((nat \<times> u32) option \<times> 'z fs_state_scheme) option" where
  "dirlookup_loop sw dp name offs s =
    (if offs < i_size (itable s dp) then do {
       (de, s) \<leftarrow> read_dirent sw dp offs s;
       if de_inum de = 0 then dirlookup_loop sw dp name (offs + 16) s
       else if namecmp name (de_name de) = 0 then do {
         (ip, s) \<leftarrow> iget (i_dev (itable s dp)) (ucast (de_inum de)) s;
         Some (Some (ip, offs), s) }
       else dirlookup_loop sw dp name (offs + 16) s }
     else Some (None, s))"

definition dirlookup :: "('z fs_state_scheme \<Rightarrow> 'z fs_state_scheme option) \<Rightarrow> nat \<Rightarrow> u8 list \<Rightarrow> 'z fs_state_scheme
    \<Rightarrow> ((nat \<times> u32) option \<times> 'z fs_state_scheme) option" where
  "dirlookup sw dp name s =
    (if i_type (itable s dp) \<noteq> T_DIR then None else dirlookup_loop sw dp name 0 s)"

partial_function (option) dirlink_loop :: "('z fs_state_scheme \<Rightarrow> 'z fs_state_scheme option) \<Rightarrow> nat \<Rightarrow> u32 \<Rightarrow> 'z fs_state_scheme
    \<Rightarrow> (u32 \<times> 'z fs_state_scheme) option" where
  "dirlink_loop sw dp offs s =
    (if offs < i_size (itable s dp) then do {
       (de, s) \<leftarrow> read_dirent sw dp offs s;
       if de_inum de = 0 then Some (offs, s) else dirlink_loop sw dp (offs + 16) s }
     else Some (offs, s))"

definition dirlink :: "('z fs_state_scheme \<Rightarrow> 'z fs_state_scheme option) \<Rightarrow> nat \<Rightarrow> u8 list \<Rightarrow> u32 \<Rightarrow> 'z fs_state_scheme
    \<Rightarrow> (int \<times> 'z fs_state_scheme) option" where
  "dirlink sw dp name inum s = do {
     (r, s) \<leftarrow> dirlookup sw dp name s;
     case r of
       Some (ip, _) \<Rightarrow> do { s \<leftarrow> iput sw ip s; Some (-1, s) }
     | None \<Rightarrow> do {
         (offs, s) \<leftarrow> dirlink_loop sw dp 0 s;
         let de = \<lparr>de_inum = ucast inum, de_name = strncpy_arr DIRSIZ name\<rparr>;
         (r, s) \<leftarrow> writei sw dp (Kobj (dirent_bytes de)) offs 16 s;
         if r \<noteq> 16 then Some (-1, s) else Some (0, s) } }"

section \<open>Paths\<close>

text \<open>The rest of the path and the new contents of name; None is the null pointer.\<close>

definition skipelem :: "u8 list \<Rightarrow> u8 list \<Rightarrow> (u8 list \<times> u8 list) option" where
  "skipelem path name =
    (let s = dropWhile (\<lambda>c. c = 47) path in
     if cchar s = 0 then None
     else let e = takeWhile (\<lambda>c. c \<noteq> 47 \<and> c \<noteq> 0) s;
              rest = dropWhile (\<lambda>c. c \<noteq> 47 \<and> c \<noteq> 0) s;
              name = (if length e \<ge> DIRSIZ then patch 0 (take DIRSIZ e) name else patch 0 (e @ [0]) name)
          in Some (dropWhile (\<lambda>c. c = 47) rest, name))"

partial_function (option) namex_loop :: "('z fs_state_scheme \<Rightarrow> 'z fs_state_scheme option) \<Rightarrow> bool \<Rightarrow> nat \<Rightarrow> u8 list \<Rightarrow> u8 list
    \<Rightarrow> 'z fs_state_scheme \<Rightarrow> (nat option \<times> u8 list \<times> 'z fs_state_scheme) option" where
  "namex_loop sw nameiparent ip path name s = (case skipelem path name of
     Some (path, name) \<Rightarrow> do {
       s \<leftarrow> ilock sw (Some ip) s;
       if i_type (itable s ip) \<noteq> T_DIR then do {
         s \<leftarrow> iunlockput sw ip s;
         Some (None, name, s) }
       else if nameiparent \<and> cchar path = 0 then do {
         s \<leftarrow> iunlock (Some ip) s;
         Some (Some ip, name, s) }
       else do {
         (r, s) \<leftarrow> dirlookup sw ip name s;
         case r of
           None \<Rightarrow> do {
             s \<leftarrow> iunlockput sw ip s;
             Some (None, name, s) }
         | Some (next, _) \<Rightarrow> do {
             s \<leftarrow> iunlockput sw ip s;
             namex_loop sw nameiparent next path name s } } }
   | None \<Rightarrow>
       if nameiparent then do {
         s \<leftarrow> iput sw ip s;
         Some (None, name, s) }
       else Some (Some ip, name, s))"

definition namex :: "('z fs_state_scheme \<Rightarrow> 'z fs_state_scheme option) \<Rightarrow> u8 list \<Rightarrow> bool \<Rightarrow> u8 list
    \<Rightarrow> 'z fs_state_scheme \<Rightarrow> (nat option \<times> u8 list \<times> 'z fs_state_scheme) option" where
  "namex sw path nameiparent name s = do {
     (ip, s) \<leftarrow> (if cchar path = 47 then iget ROOTDEV ROOTINO s
       else do {
         (p, s) \<leftarrow> myp s;
         cwd \<leftarrow> p_cwd (procs s p);
         idup cwd s });
     namex_loop sw nameiparent ip path name s }"

definition namei :: "('z fs_state_scheme \<Rightarrow> 'z fs_state_scheme option) \<Rightarrow> u8 list \<Rightarrow> 'z fs_state_scheme
    \<Rightarrow> (nat option \<times> 'z fs_state_scheme) option" where
  "namei sw path s = do {
     (ip, name, s) \<leftarrow> namex sw path False (replicate DIRSIZ 0) s;
     Some (ip, s) }"

definition nameiparent :: "('z fs_state_scheme \<Rightarrow> 'z fs_state_scheme option) \<Rightarrow> u8 list \<Rightarrow> u8 list \<Rightarrow> 'z fs_state_scheme
    \<Rightarrow> (nat option \<times> u8 list \<times> 'z fs_state_scheme) option" where
  "nameiparent sw path name s = namex sw path True name s"

end
