(* ===== verification/Fsblock.thy ===== *)
theory Fsblock
  imports Fs
begin

text \<open>
  The block allocator of the file system (balloc, bfree and bzero of kernel/fs.c).

  \<open>used\<close> reads the bitmap as a set of blocks; the lemmas say what balloc and bfree do to that set and
  to the contents of the blocks, inside a transaction. \<open>keeps\<close> and \<open>fs_frame\<close> are what the file system
  operations leave alone.
\<close>

section \<open>What the operations leave alone\<close>

text \<open>Everything but the log, the cache, the inode table and the console output.\<close>

definition fs_frame :: "'z fs_state_scheme \<Rightarrow> 'z fs_state_scheme \<Rightarrow> bool" where
  "fs_frame s s' \<longleftrightarrow> txn_frame (s\<lparr>itable := itable s', thr := thr s'\<rparr>) s'"

lemma bio_frame_fs:
  assumes "bio_frame s s'"
  shows "itable s' = itable s" "thr s' = thr s" "sb s' = sb s" "hw s' = hw s" "panicked s' = panicked s" "ram s' = ram s"
    "sleeplocks s' (SL_inode i) = sleeplocks s (SL_inode i)" "woken (procs s) (procs s')" "lg s' = lg s"
proof -
  let ?r = "s'\<lparr>procs := procs s, vdisk := vdisk s, bufs := bufs s, sleeplocks := sleeplocks s, media := media s, dwrites := dwrites s\<rparr>"
  have r: "?r = s" using assms by (simp add: bio_frame_def)
  have "itable ?r = itable s" "thr ?r = thr s" "sb ?r = sb s" "hw ?r = hw s" "panicked ?r = panicked s" "ram ?r = ram s" "lg ?r = lg s"
    by (simp_all only: r)
  then show "itable s' = itable s" "thr s' = thr s" "sb s' = sb s" "hw s' = hw s" "panicked s' = panicked s" "ram s' = ram s"
    "lg s' = lg s" by simp_all
  show "sleeplocks s' (SL_inode i) = sleeplocks s (SL_inode i)" "woken (procs s) (procs s')"
    using assms by (simp_all add: bio_frame_def)
qed

lemma txn_frame_fs:
  assumes "txn_frame s s'"
  shows "itable s' = itable s" "thr s' = thr s" "sb s' = sb s" "hw s' = hw s" "panicked s' = panicked s" "ram s' = ram s"
    "sleeplocks s' (SL_inode i) = sleeplocks s (SL_inode i)" "woken (procs s) (procs s')"
    "lg_outstanding (lg s') = lg_outstanding (lg s)"
  using assms bio_frame_fs [of "s\<lparr>lg := lg s'\<rparr>" s'] by (auto simp: txn_frame_def)

lemma fs_frameD:
  assumes "fs_frame s s'"
  shows "sb s' = sb s" "hw s' = hw s" "panicked s' = panicked s" "ram s' = ram s"
    "sleeplocks s' (SL_inode i) = sleeplocks s (SL_inode i)" "woken (procs s) (procs s')"
    "lg_outstanding (lg s') = lg_outstanding (lg s)"
  using assms txn_frame_fs [of "s\<lparr>itable := itable s', thr := thr s'\<rparr>" s'] by (auto simp: fs_frame_def)

lemma bio_frame_upd:
  assumes "bio_frame s s'"
  shows "bio_frame (s\<lparr>itable := I, thr := T\<rparr>) (s'\<lparr>itable := I, thr := T\<rparr>)"
proof -
  let ?r = "s'\<lparr>procs := procs s, vdisk := vdisk s, bufs := bufs s, sleeplocks := sleeplocks s, media := media s, dwrites := dwrites s\<rparr>"
  have "(s'\<lparr>itable := I, thr := T\<rparr>)\<lparr>procs := procs s, vdisk := vdisk s, bufs := bufs s, sleeplocks := sleeplocks s, media := media s,
      dwrites := dwrites s\<rparr> = ?r\<lparr>itable := I, thr := T\<rparr>"
    by (rule fs_state.equality) simp_all
  moreover have "?r = s" using assms by (simp add: bio_frame_def)
  ultimately show ?thesis using assms by (simp add: bio_frame_def)
qed

lemma txn_frame_upd:
  assumes "txn_frame s s'"
  shows "txn_frame (s\<lparr>itable := I, thr := T\<rparr>) (s'\<lparr>itable := I, thr := T\<rparr>)"
proof -
  have e: "s\<lparr>itable := I, thr := T, lg := lg s'\<rparr> = s\<lparr>lg := lg s', itable := I, thr := T\<rparr>" by simp
  have "bio_frame (s\<lparr>itable := I, thr := T, lg := lg s'\<rparr>) (s'\<lparr>itable := I, thr := T\<rparr>)"
    unfolding e by (rule bio_frame_upd) (use assms in \<open>simp add: txn_frame_def\<close>)
  then show ?thesis using assms by (simp add: txn_frame_def)
qed

lemma fs_frame_refl [simp]: "fs_frame s s"
  by (simp add: fs_frame_def)

lemma fs_frame_txn: "txn_frame s s' \<Longrightarrow> fs_frame s s'"
  using txn_frame_fs(1,2) [of s s'] by (simp add: fs_frame_def)

lemma fs_frame_bio: "bio_frame s s' \<Longrightarrow> fs_frame s s'"
  by (rule fs_frame_txn [OF txn_frame_bio])

lemma fs_frame_upd [simp]: "fs_frame s (s\<lparr>itable := I\<rparr>)" "fs_frame s (s\<lparr>thr := T\<rparr>)" "fs_frame s (upd_inode ip f s)"
  by (simp_all add: fs_frame_def upd_inode_def)

lemma fs_frame_trans [trans]:
  assumes "fs_frame s s'" "fs_frame s' s''"
  shows "fs_frame s s''"
proof -
  let ?u = "\<lambda>s. s\<lparr>itable := itable s'', thr := thr s''\<rparr>"
  have "txn_frame (?u (s\<lparr>itable := itable s', thr := thr s'\<rparr>)) (?u s')"
    by (rule txn_frame_upd) (use assms(1) in \<open>simp add: fs_frame_def\<close>)
  moreover have "?u (s\<lparr>itable := itable s', thr := thr s'\<rparr>) = ?u s" by (rule fs_state.equality) simp_all
  ultimately show ?thesis using assms(2) txn_frame_trans by (simp add: fs_frame_def)
qed

text \<open>The cache and the log do not depend on the inode table and the console.\<close>

lemma txn_fields:
  fixes s :: "'a log_state_scheme" and t :: "'b log_state_scheme"
  assumes "hw s = hw t" "procs s = procs t" "vdisk s = vdisk t" "bufs s = bufs t" "\<And>i. sleeplocks s (SL_buf i) = sleeplocks t (SL_buf i)" "media s = media t" "lg s = lg t"
  shows "txn p S D H s = txn p S D H t"
  using cache_ok_cong [OF assms(1-6)] assms by (simp add: txn_def pinned_def log_at_def)

lemma txn_upd [simp]:
  "txn p S D H (s\<lparr>itable := I\<rparr>) = txn p S D H s" "txn p S D H (s\<lparr>thr := T\<rparr>) = txn p S D H s"
  "txn p S D H (upd_inode ip f s) = txn p S D H s"
  by (rule txn_fields; simp add: upd_inode_def)+

lemma view_upd [simp]: "view (s\<lparr>itable := I\<rparr>) = view s" "view (s\<lparr>thr := T\<rparr>) = view s" "view (upd_inode ip f s) = view s"
  by (rule view_cong; simp add: upd_inode_def)+

lemma locked_bufs_upd [simp]:
  "locked_bufs (s\<lparr>itable := I\<rparr>) = locked_bufs s" "locked_bufs (s\<lparr>thr := T\<rparr>) = locked_bufs s" "locked_bufs (upd_inode ip f s) = locked_bufs s"
  by (simp_all add: locked_bufs_def upd_inode_def)

lemma upd_inode_simps [simp]:
  "hw (upd_inode ip f s) = hw s" "procs (upd_inode ip f s) = procs s" "bufs (upd_inode ip f s) = bufs s"
  "media (upd_inode ip f s) = media s" "dwrites (upd_inode ip f s) = dwrites s" "sb (upd_inode ip f s) = sb s"
  "itable (upd_inode ip f s) = (itable s)(ip := f (itable s ip))" "sleeplocks (upd_inode ip f s) = sleeplocks s"
  "lg (upd_inode ip f s) = lg s" "ram (upd_inode ip f s) = ram s" "panicked (upd_inode ip f s) = panicked s"
  by (simp_all add: upd_inode_def)

lemma keeps_upd [simp]: "keeps s (s\<lparr>itable := I\<rparr>)" "keeps s (s\<lparr>thr := T\<rparr>)" "keeps s (upd_inode ip f s)"
  by (simp_all add: keeps_def)

section \<open>The bitmap\<close>

lemma bm_used_bit: "bm_used d j \<longleftrightarrow> bit (d ! (j div 8)) (j mod 8)"
  by (simp add: bm_used_def bm_mask_def push_bit_of_1 and_exp_eq_0_iff_not_bit)

lemma bit_bm_mask: "k < 8 \<Longrightarrow> bit (bm_mask j) k \<longleftrightarrow> k = j mod 8"
  by (auto simp: bm_mask_def push_bit_of_1 bit_exp_iff possible_bit_word)

lemma bm_used_set:
  assumes "length d = BSIZE" "bi < BPB" "j < BPB"
  shows "bm_used (d[bi div 8 := d ! (bi div 8) OR bm_mask bi]) j \<longleftrightarrow> bm_used d j \<or> j = bi"
    "bm_used (d[bi div 8 := d ! (bi div 8) AND NOT (bm_mask bi)]) j \<longleftrightarrow> bm_used d j \<and> j \<noteq> bi"
proof -
  have l: "bi div 8 < length d" "j div 8 < length d" using assms by (simp_all add: BPB_def BSIZE_def)
  have e: "j = bi \<longleftrightarrow> j div 8 = bi div 8 \<and> j mod 8 = bi mod 8" by (metis div_mult_mod_eq)
  have m: "bit (bm_mask bi) (j mod 8) \<longleftrightarrow> j mod 8 = bi mod 8" by (rule bit_bm_mask) simp
  show "bm_used (d[bi div 8 := d ! (bi div 8) OR bm_mask bi]) j \<longleftrightarrow> bm_used d j \<or> j = bi"
    using l m by (cases "j div 8 = bi div 8") (auto simp: bm_used_bit bit_or_iff e)
  show "bm_used (d[bi div 8 := d ! (bi div 8) AND NOT (bm_mask bi)]) j \<longleftrightarrow> bm_used d j \<and> j \<noteq> bi"
    using l m by (cases "j div 8 = bi div 8") (auto simp: bm_used_bit bit_and_iff bit_not_iff possible_bit_word e)
qed

definition used :: "'z fs_state_scheme \<Rightarrow> nat \<Rightarrow> bool" where
  "used s b \<longleftrightarrow> bm_used (view s (BBLOCK (of_nat b) (sb s))) (b mod BPB)"

text \<open>The layout mkfs gives a disk: log, inodes, bitmap, data.\<close>

definition data_start :: "superblock \<Rightarrow> nat" where
  "data_start b = unat (sb_bmapstart b) + unat (sb_size b) div BPB + 1"

definition disk_ok :: "superblock \<Rightarrow> bool" where
  "disk_ok b \<longleftrightarrow> unat (sb_size b) < 0x80000000 \<and> unat (sb_logstart b) + LOGSIZE \<le> unat (sb_inodestart b) \<and>
     unat (sb_inodestart b) + unat (sb_ninodes b) div 16 < unat (sb_bmapstart b) \<and> data_start b \<le> unat (sb_size b)"

lemma BBLOCK_nat:
  assumes "disk_ok x" "b \<le> unat (sb_size x)"
  shows "unat (BBLOCK (of_nat b) x) = unat (sb_bmapstart x) + b div BPB" "BBLOCK (of_nat b) x < 0x80000000"
    "unat (BBLOCK (of_nat b) x) < data_start x"
proof -
  have d: "unat (sb_size x) < 0x80000000" "data_start x \<le> unat (sb_size x)" using assms(1) by (simp_all add: disk_ok_def)
  have "b div BPB \<le> unat (sb_size x) div BPB" using assms(2) by (rule div_le_mono)
  then have l: "unat (sb_bmapstart x) + b div BPB < data_start x" by (simp add: data_start_def)
  have "unat (of_nat b :: u32) = b" using assms(2) d(1) by (simp add: unat_of_nat)
  then have "unat (of_nat b div of_nat BPB :: u32) = b div BPB" by (simp add: unat_div BPB_def BSIZE_def)
  then show u: "unat (BBLOCK (of_nat b) x) = unat (sb_bmapstart x) + b div BPB"
    using l d by (simp add: BBLOCK_def unat_word_ariths)
  show "BBLOCK (of_nat b) x < 0x80000000" "unat (BBLOCK (of_nat b) x) < data_start x"
    using u l d by (simp_all add: word_less_nat_alt)
qed

lemma BBLOCK_same:
  assumes "disk_ok x" "k * BPB + bi \<le> unat (sb_size x)" "bi < BPB"
  shows "BBLOCK (of_nat (k * BPB + bi)) x = BBLOCK (of_nat (k * BPB)) x"
  using BBLOCK_nat(1) [OF assms(1,2)] BBLOCK_nat(1) [OF assms(1), of "k * BPB"] assms(2,3)
  by (simp add: unat_eq_nat_uint [symmetric] word_unat_eq_iff)

lemma bzero_ok:
  assumes "waits_for_disk sw" "txn p S {} H s" "bn < 0x80000000"
    and "\<And>i. i \<in> locked_bufs s \<Longrightarrow> b_blockno (bufs s i) \<noteq> bn" "card (locked_bufs s) \<le> 1" "length H < 29"
  obtains s' where "bzero sw ROOTDEV bn s = Some s'" "txn p S {} (logged bn H) s'" "txn_frame s s'" "keeps s s'"
    "view s' = (view s)(bn := replicate BSIZE 0)"
proof -
  obtain b s1 s2 s3 where "bread sw ROOTDEV bn s = Some (b, s1)"
    "log_write b (set_data b (replicate BSIZE 0) s1) = Some s2" "brelse b s2 = Some s3"
    "txn p S {} (logged bn H) s3" "txn_frame s s3" "keeps s s3" "view s3 = (view s)(bn := replicate BSIZE 0)"
    by (rule txn_update [OF assms, of "replicate BSIZE 0"]) auto
  then show ?thesis by (intro that [of s3]) (simp_all add: bzero_def)
qed

section \<open>balloc and bfree\<close>

text \<open>At most one buffer is locked, and it holds an allocated data block.\<close>

definition calm :: "'z fs_state_scheme \<Rightarrow> bool" where
  "calm s \<longleftrightarrow> card (locked_bufs s) \<le> 1 \<and>
     (\<forall>i\<in>locked_bufs s. data_start (sb s) \<le> unat (b_blockno (bufs s i)) \<and> used s (unat (b_blockno (bufs s i))))"

definition mark_used :: "nat \<Rightarrow> u8 list \<Rightarrow> u8 list" where
  "mark_used bi d = d[bi div 8 := d ! (bi div 8) OR bm_mask bi]"

lemma length_mark_used [simp]: "length (mark_used bi d) = length d"
  by (simp add: mark_used_def)

definition allocated :: "nat \<Rightarrow> u32 \<Rightarrow> u32 list \<Rightarrow> nat \<Rightarrow> 'z fs_state_scheme \<Rightarrow> 'z fs_state_scheme \<Rightarrow> bool" where
  "allocated p S H b s s' \<longleftrightarrow> (let B = BBLOCK (of_nat b) (sb s) in
     txn p S {} (logged (of_nat b) (logged B H)) s' \<and> txn_frame s s' \<and> keeps s s' \<and>
     view s' = (view s)(B := mark_used (b mod BPB) (view s B), of_nat b := replicate BSIZE 0))"

lemma view_length: "txn p S D H s \<Longrightarrow> bn < 0x80000000 \<Longrightarrow> length (view s bn) = BSIZE"
  by (auto simp: txn_def dest: cache_okD(6))

lemma card_le_1_insert: "finite A \<Longrightarrow> card (insert x A - {x}) \<le> 1 \<Longrightarrow> x \<notin> A \<Longrightarrow> card A \<le> 1"
  by (simp add: insert_absorb)

lemma balloc_bit_hit:
  assumes sw: "waits_for_disk sw" and t: "txn p S {} H s" and bp: "bp \<in> locked_bufs s" and H: "length H < 28"
    and u: "\<not> bm_used (b_data (bufs s bp)) bi" and l: "length (b_data (bufs s bp)) = BSIZE"
    and a: "of_nat (b + bi) < (0x80000000 :: u32)" "\<And>i. i \<in> locked_bufs s - {bp} \<Longrightarrow> b_blockno (bufs s i) \<noteq> of_nat (b + bi)"
    and c: "card (locked_bufs s - {bp}) \<le> 1"
  obtains s' where "balloc_bit sw ROOTDEV bp b bi s = Some (Some (of_nat (b + bi)), s')"
    "txn p S {} (logged (of_nat (b + bi)) (logged (b_blockno (bufs s bp)) H)) s'" "txn_frame s s'"
    "locked_bufs s' = locked_bufs s - {bp}" "media s' = media s" "dwrites s' = dwrites s"
    "\<forall>i\<in>locked_bufs s - {bp}. b_blockno (bufs s' i) = b_blockno (bufs s i) \<and> b_data (bufs s' i) = b_data (bufs s i)"
    "view s' = (view s)(b_blockno (bufs s bp) := mark_used bi (b_data (bufs s bp)), of_nat (b + bi) := replicate BSIZE 0)"
proof -
  let ?B = "b_blockno (bufs s bp)"
  have H1: "length H < 29" "length (logged ?B H) < 29" using H by (auto simp: logged_def)
  obtain s2 s3 where r: "log_write bp (set_data bp (mark_used bi (b_data (bufs s bp))) s) = Some s2" "brelse bp s2 = Some s3"
    "txn p S {} (logged ?B H) s3" "txn_frame s s3" "locked_bufs s3 = locked_bufs s - {bp}"
    "view s3 = (view s)(?B := mark_used bi (b_data (bufs s bp)))" "media s3 = media s" "dwrites s3 = dwrites s"
    "\<forall>i\<in>locked_bufs s - {bp}. b_blockno (bufs s3 i) = b_blockno (bufs s i) \<and> b_data (bufs s3 i) = b_data (bufs s i)"
    by (rule txn_finish [OF t bp H1(1), of "mark_used bi (b_data (bufs s bp))"]) (use l in auto)
  have L: "\<And>i. i \<in> locked_bufs s3 \<Longrightarrow> b_blockno (bufs s3 i) \<noteq> of_nat (b + bi)" "card (locked_bufs s3) \<le> 1"
    using r(5,9) a(2) c by auto
  obtain s' where z: "bzero sw ROOTDEV (of_nat (b + bi)) s3 = Some s'" "txn p S {} (logged (of_nat (b + bi)) (logged ?B H)) s'"
    "txn_frame s3 s'" "keeps s3 s'" "view s' = (view s3)(of_nat (b + bi) := replicate BSIZE 0)"
    by (rule bzero_ok [OF sw r(3) a(1) L H1(2)])
  have "balloc_bit sw ROOTDEV bp b bi s = Some (Some (of_nat (b + bi)), s')"
    using u r(1,2) z(1) by (simp add: balloc_bit_def Let_def mark_used_def)
  then show ?thesis using z r txn_frame_trans by (intro that [of s']) (auto simp: keeps_def)
qed

lemma balloc_block_ok:
  assumes sw: "waits_for_disk sw" and d: "disk_ok (sb s)" and t: "txn p S {} H s" and c: "calm s" and H: "length H < 28"
    and k: "k * BPB < unat (sb_size (sb s))"
  shows "(\<exists>bi s'. bi < BPB \<and> k * BPB + bi < unat (sb_size (sb s)) \<and> \<not> used s (k * BPB + bi) \<and> (\<forall>j<bi. used s (k * BPB + j)) \<and>
      balloc_block sw ROOTDEV (k * BPB) s = Some (Some (of_nat (k * BPB + bi)), s') \<and> allocated p S H (k * BPB + bi) s s') \<or>
    (\<exists>s'. (\<forall>bi<BPB. k * BPB + bi < unat (sb_size (sb s)) \<longrightarrow> used s (k * BPB + bi)) \<and>
      balloc_block sw ROOTDEV (k * BPB) s = Some (None, s') \<and> txn p S {} H s' \<and> bio_frame s s' \<and> keeps s s' \<and> view s' = view s)"
  supply of_nat_add [simp del] of_nat_mult [simp del]
proof -
  let ?B = "BBLOCK (of_nat (k * BPB)) (sb s)" and ?n = "min BPB (unat (sb_size (sb s)) - k * BPB)"
  have B: "?B < 0x80000000" "unat ?B < data_start (sb s)" using BBLOCK_nat(2,3) [OF d, of "k * BPB"] k by simp_all
  have same: "BBLOCK (of_nat (k * BPB + bi)) (sb s) = ?B" if "bi < ?n" for bi by (rule BBLOCK_same [OF d]) (use that in auto)
  have us: "used s (k * BPB + bi) \<longleftrightarrow> bm_used (view s ?B) bi" if "bi < ?n" for bi using same [OF that] that by (simp add: used_def)
  have LB: "\<And>i. i \<in> locked_bufs s \<Longrightarrow> b_blockno (bufs s i) \<noteq> ?B" "card (locked_bufs s) \<le> 1"
    using c B(2) by (auto simp: calm_def)
  have H1: "length H < 29" using H by simp
  obtain bp s1 where r1: "bread sw ROOTDEV ?B s = Some (bp, s1)" "txn p S {} H s1" "bio_frame s s1" "bp \<notin> locked_bufs s"
    "locked_bufs s1 = insert bp (locked_bufs s)" "b_blockno (bufs s1 bp) = ?B" "b_data (bufs s1 bp) = view s ?B"
    "view s1 = view s" "media s1 = media s" "dwrites s1 = dwrites s" "\<forall>i. i \<noteq> bp \<longrightarrow> bufs s1 i = bufs s i"
    using txn_bread [OF sw t B(1) LB H1] by blast
  note fr = bio_frame_fs [OF r1(3)]
  have bp: "bp \<in> locked_bufs s1" "locked_bufs s1 - {bp} = locked_bufs s" using r1(4,5) by auto
  have old: "bufs s1 i = bufs s i" if "i \<in> locked_bufs s" for i using r1(4,11) that by metis
  let ?f = "find (\<lambda>bi. \<not> bm_used (view s ?B) bi) [0..<?n]"
  have miss: "balloc_bit sw ROOTDEV bp (k * BPB) bi s1 = Some (None, s1)" if "bm_used (view s ?B) bi" for bi
    using that r1(7) by (simp add: balloc_bit_def)
  show ?thesis
  proof (cases ?f)
    case None
    then have all: "\<And>bi. bi < ?n \<Longrightarrow> bm_used (view s ?B) bi" by (auto simp: find_None_iff)
    then have "search_n 0 ?n (balloc_bit sw ROOTDEV bp (k * BPB)) s1 = Some (None, s1)"
      using search_n_pure [of 0 ?n "balloc_bit sw ROOTDEV bp (k * BPB)" s1 "\<lambda>_. False" "\<lambda>_. 0"] miss by (simp add: find_None_iff)
    moreover obtain s2 where s2: "brelse bp s1 = Some s2" "txn p S {} H s2" "bio_frame s1 s2"
      "locked_bufs s2 = locked_bufs s1 - {bp}" "view s2 = view s1" "media s2 = media s1" "dwrites s2 = dwrites s1"
      "\<forall>i. b_data (bufs s2 i) = b_data (bufs s1 i)" "\<forall>i. b_blockno (bufs s2 i) = b_blockno (bufs s1 i)"
      using txn_brelse [OF r1(2) bp(1)] by blast
    ultimately have "balloc_block sw ROOTDEV (k * BPB) s = Some (None, s2)" using r1(1) fr(3) by (simp add: balloc_block_def)
    moreover have "keeps s s2" using r1 s2 old by (auto simp: keeps_def)
    ultimately show ?thesis using s2 r1(3,8) all us bio_frame_trans by (intro disjI2 exI [of _ s2]) auto
  next
    case (Some bi)
    then have bi: "bi < ?n" "\<not> bm_used (view s ?B) bi" "\<And>j. j < bi \<Longrightarrow> bm_used (view s ?B) j"
      by (auto simp: find_Some_iff)
    let ?a = "k * BPB + bi"
    have sz: "?a < unat (sb_size (sb s))" "unat (sb_size (sb s)) < 0x80000000" "bi < BPB" using bi(1) d by (auto simp: disk_ok_def)
    have ua: "unat (of_nat ?a :: u32) = ?a" using sz by (simp add: unat_of_nat)
    have "\<not> used s ?a" using us [OF bi(1)] bi(2) by simp
    then have La: "b_blockno (bufs s1 i) \<noteq> of_nat ?a" if "i \<in> locked_bufs s1 - {bp}" for i
      using c that bp(2) old ua by (auto simp: calm_def)
    obtain s' where r: "balloc_bit sw ROOTDEV bp (k * BPB) bi s1 = Some (Some (of_nat ?a), s')"
      "txn p S {} (logged (of_nat ?a) (logged (b_blockno (bufs s1 bp)) H)) s'" "txn_frame s1 s'"
      "locked_bufs s' = locked_bufs s1 - {bp}" "media s' = media s1" "dwrites s' = dwrites s1"
      "\<forall>i\<in>locked_bufs s1 - {bp}. b_blockno (bufs s' i) = b_blockno (bufs s1 i) \<and> b_data (bufs s' i) = b_data (bufs s1 i)"
      "view s' = (view s1)(b_blockno (bufs s1 bp) := mark_used bi (b_data (bufs s1 bp)), of_nat ?a := replicate BSIZE 0)"
      by (rule balloc_bit_hit [OF sw r1(2) bp(1) H, of bi "k * BPB"])
        (use bi(2) r1(7) view_length [OF t B(1)] La ua sz LB(2) bp(2) in \<open>auto simp: word_less_nat_alt\<close>)
    have "search_n 0 ?n (balloc_bit sw ROOTDEV bp (k * BPB)) s1 = Some (Some (of_nat ?a), s')"
      by (rule search_n_hit [where c = bi and S = "\<lambda>_. s1"]) (use miss bi r(1) in auto)
    then have "balloc_block sw ROOTDEV (k * BPB) s = Some (Some (of_nat ?a), s')" using r1(1) fr(3) by (simp add: balloc_block_def)
    moreover have "allocated p S H ?a s s'"
      using r r1(6-10) old bp(2) same [OF bi(1)] sz(3) txn_frame_trans [OF txn_frame_bio [OF r1(3)]]
      by (auto simp: allocated_def Let_def keeps_def)
    ultimately show ?thesis using sz \<open>\<not> used s ?a\<close> bi us by (intro disjI1 exI [of _ bi] exI [of _ s']) auto
  qed
qed

lemma used_cong: "view s' = view s \<Longrightarrow> sb s' = sb s \<Longrightarrow> used s' b = used s b"
  by (simp add: used_def)

lemma calm_cong: "keeps s s' \<Longrightarrow> view s' = view s \<Longrightarrow> sb s' = sb s \<Longrightarrow> calm s' = calm s"
  by (auto simp: calm_def keeps_def used_def)

lemma txn_printf:
  assumes "txn p S D H s" "\<not> panicked s" "render fmt ap = Some cs"
  shows "printf fmt ap s = Some (s\<lparr>thr := thr s @ bytes_of cs\<rparr>)"
proof -
  have "running p (hw s)" using assms(1) cache_okD(1) by (auto simp: txn_def)
  then show ?thesis using assms(2,3) by (intro printf_ok) auto
qed

lemma ceil_mult: "0 < m \<Longrightarrow> (z :: nat) \<le> (z + m - 1) div m * m"
  using div_mult_mod_eq [of "z + m - 1" m] mod_less_divisor [of m "z + m - 1"] by linarith

lemma balloc_ok:
  assumes sw: "waits_for_disk sw" and d: "disk_ok (sb s)" and t: "txn p S {} H s" and c: "calm s" and H: "length H < 28"
    and np: "\<not> panicked s"
  obtains (found) b s' where "b < unat (sb_size (sb s))" "\<not> used s b" "\<forall>j<b. used s j"
      "balloc sw ROOTDEV s = Some (of_nat b, s')" "allocated p S H b s s'"
    | (full) s' where "\<forall>b<unat (sb_size (sb s)). used s b" "balloc sw ROOTDEV s = Some (0, s')"
      "txn p S {} H s'" "fs_frame s s'" "keeps s s'" "view s' = view s" "itable s' = itable s"
proof -
  let ?z = "unat (sb_size (sb s))"
  let ?I = "\<lambda>j s'. txn p S {} H s' \<and> bio_frame s s' \<and> keeps s s' \<and> view s' = view s \<and> (\<forall>b<?z. b < j * BPB \<longrightarrow> used s b)"
  let ?Q = "\<lambda>v s'. \<exists>b<?z. \<not> used s b \<and> (\<forall>j<b. used s j) \<and> v = of_nat b \<and> allocated p S H b s s'"
  have BP: "0 < BPB" by (simp add: BPB_def BSIZE_def)
  have step: "\<exists>r s2. balloc_block sw ROOTDEV (j * BPB) s1 = Some (r, s2) \<and> (case r of None \<Rightarrow> ?I (Suc j) s2 | Some v \<Rightarrow> ?Q v s2)"
    if j: "j < (?z + BPB - 1) div BPB" and i: "?I j s1" for j s1
  proof -
    have sbs: "sb s1 = sb s" using i bio_frame_fs(3) by blast
    have us: "used s1 b = used s b" for b by (rule used_cong) (use i sbs in auto)
    have "Suc j * BPB \<le> ?z + BPB - 1" using j BP by (metis Suc_leI less_eq_div_iff_mult_less_eq)
    then have jz: "j * BPB < unat (sb_size (sb s1))" using BP by (simp add: sbs)
    have c1: "calm s1" using c i sbs calm_cong by blast
    from balloc_block_ok [OF sw _ _ c1 H jz, of p S] d i sbs us
    consider bi s2 where "j * BPB + bi < ?z" "\<not> used s (j * BPB + bi)" "\<forall>k<bi. used s (j * BPB + k)"
        "balloc_block sw ROOTDEV (j * BPB) s1 = Some (Some (of_nat (j * BPB + bi)), s2)" "allocated p S H (j * BPB + bi) s1 s2"
      | s2 where "\<forall>bi<BPB. j * BPB + bi < ?z \<longrightarrow> used s (j * BPB + bi)" "balloc_block sw ROOTDEV (j * BPB) s1 = Some (None, s2)"
        "txn p S {} H s2" "bio_frame s1 s2" "keeps s1 s2" "view s2 = view s1" by auto
    then show ?thesis
    proof cases
      case 1
      have "used s b" if "b < j * BPB + bi" for b
        using i 1(1,3) that by (cases "b < j * BPB") (auto dest!: spec [of _ "b - j * BPB"])
      moreover have "allocated p S H (j * BPB + bi) s s2"
        using 1(5) i sbs txn_frame_trans [OF txn_frame_bio, of s s1 s2] keeps_trans [of s s1 s2] by (auto simp: allocated_def Let_def)
      ultimately show ?thesis using 1 by (intro exI [of _ "Some (of_nat (j * BPB + bi))"] exI [of _ s2]) auto
    next
      case 2
      have "used s b" if "b < ?z" "b < Suc j * BPB" for b
        using i 2(1) that by (cases "b < j * BPB") (auto dest!: spec [of _ "b - j * BPB"])
      then show ?thesis using 2 i bio_frame_trans keeps_trans by (intro exI [of _ None] exI [of _ s2]) auto
    qed
  qed
  have "\<exists>r s'. search_n 0 ((?z + BPB - 1) div BPB) (\<lambda>k. balloc_block sw ROOTDEV (k * BPB)) s = Some (r, s') \<and>
      (case r of None \<Rightarrow> ?I (0 + (?z + BPB - 1) div BPB) s' | Some v \<Rightarrow> ?Q v s')"
    by (rule search_n_total) (use step t in auto)
  then obtain r s' where r: "search_n 0 ((?z + BPB - 1) div BPB) (\<lambda>k. balloc_block sw ROOTDEV (k * BPB)) s = Some (r, s')"
      "case r of None \<Rightarrow> ?I (0 + (?z + BPB - 1) div BPB) s' | Some v \<Rightarrow> ?Q v s'" by blast
  show ?thesis
  proof (cases r)
    case (Some v)
    then show ?thesis using r found by (auto simp: balloc_def)
  next
    case None
    then have i: "?I ((?z + BPB - 1) div BPB) s'" using r(2) by simp
    have "?z \<le> (?z + BPB - 1) div BPB * BPB" by (rule ceil_mult [OF BP])
    then have all: "\<forall>b<?z. used s b" using i by auto
    have fr: "panicked s' = panicked s" "itable s' = itable s" using i bio_frame_fs by blast+
    have "printf (''balloc: out of blocks'' @ [CHR 10]) [] s' = Some (s'\<lparr>thr := thr s' @ bytes_of (''balloc: out of blocks'' @ [CHR 10])\<rparr>)"
      by (rule txn_printf) (use i np fr in auto)
    moreover have "fs_frame s (s'\<lparr>thr := T\<rparr>)" "keeps s (s'\<lparr>thr := T\<rparr>)" for T
      using i fs_frame_trans fs_frame_bio fs_frame_upd(2) keeps_trans keeps_upd(2) by blast+
    ultimately show ?thesis using full [OF all] i r(1) None fr by (simp add: balloc_def)
  qed
qed

lemma allocated_used:
  assumes a: "allocated p S H b s s'" and t: "txn p S {} H s" and d: "disk_ok (sb s)" and b: "data_start (sb s) \<le> b" "b < unat (sb_size (sb s))"
    and c: "c < unat (sb_size (sb s))"
  shows "used s' c \<longleftrightarrow> used s c \<or> c = b"
proof -
  let ?B = "\<lambda>b. BBLOCK (of_nat b) (sb s)"
  have z: "unat (sb_size (sb s)) < 0x80000000" using d by (simp add: disk_ok_def)
  have ub: "unat (of_nat b :: u32) = b" using b z by (simp add: unat_of_nat)
  have "sb s' = sb s" using a txn_frame_fs(3) by (auto simp: allocated_def Let_def)
  then have u: "used s' c = bm_used (view s' (?B c)) (c mod BPB)" by (simp add: used_def)
  have nb: "?B c \<noteq> of_nat b" using BBLOCK_nat(3) [OF d, of c] c b ub by auto
  have v: "view s' (?B c) = (if ?B c = ?B b then mark_used (b mod BPB) (view s (?B b)) else view s (?B c))"
    using a nb by (simp add: allocated_def Let_def)
  have BP: "x mod BPB < BPB" for x by (simp add: BPB_def BSIZE_def)
  have l: "length (view s (?B b)) = BSIZE" by (rule view_length [OF t]) (use BBLOCK_nat(2) [OF d, of b] b in simp)
  show ?thesis
  proof (cases "?B c = ?B b")
    case True
    then have "c div BPB = b div BPB" using BBLOCK_nat(1) [OF d, of c] BBLOCK_nat(1) [OF d, of b] b c by simp
    then have "c = b \<longleftrightarrow> c mod BPB = b mod BPB" by (metis div_mult_mod_eq)
    then show ?thesis using bm_used_set(1) [OF l BP BP, of b c] u v True by (simp add: mark_used_def used_def)
  next
    case False
    then show ?thesis using u v by (auto simp: used_def)
  qed
qed

lemma bfree_ok:
  assumes sw: "waits_for_disk sw" and d: "disk_ok (sb s)" and t: "txn p S {} H s" and c: "calm s" and H: "length H < 29"
    and b: "unat b < unat (sb_size (sb s))" "used s (unat b)"
  obtains s' where "bfree sw ROOTDEV b s = Some s'" "txn p S {} (logged (BBLOCK b (sb s)) H) s'" "txn_frame s s'" "keeps s s'"
    "\<forall>c<unat (sb_size (sb s)). used s' c \<longleftrightarrow> used s c \<and> c \<noteq> unat b" "\<forall>bn. bn \<noteq> BBLOCK b (sb s) \<longrightarrow> view s' bn = view s bn"
proof -
  let ?B = "BBLOCK b (sb s)" and ?bi = "unat b mod BPB"
  have B: "?B < 0x80000000" "unat ?B < data_start (sb s)" using BBLOCK_nat(2,3) [OF d, of "unat b"] b(1) by simp_all
  let ?d = "(view s ?B)[?bi div 8 := view s ?B ! (?bi div 8) AND NOT (bm_mask ?bi)]"
  have l: "length (view s ?B) = BSIZE" by (rule view_length [OF t B(1)])
  have L: "\<And>i. i \<in> locked_bufs s \<Longrightarrow> b_blockno (bufs s i) \<noteq> ?B" "card (locked_bufs s) \<le> 1" using c B(2) by (auto simp: calm_def)
  obtain bp s1 s2 s3 where r: "bread sw ROOTDEV ?B s = Some (bp, s1)" "b_data (bufs s1 bp) = view s ?B" "bio_frame s s1"
    "log_write bp (set_data bp ?d s1) = Some s2" "brelse bp s2 = Some s3"
    "txn p S {} (logged ?B H) s3" "txn_frame s s3" "keeps s s3" "view s3 = (view s)(?B := ?d)"
    by (rule txn_update [OF sw t B(1) L H, of ?d]) (use l in auto)
  have BP: "x mod BPB < BPB" for x by (simp add: BPB_def BSIZE_def)
  have "bm_used (view s ?B) ?bi" using b(2) by (simp add: used_def)
  then have e: "bfree sw ROOTDEV b s = Some s3" using r by (simp add: bfree_def Let_def)
  have "used s3 c \<longleftrightarrow> used s c \<and> c \<noteq> unat b" if c: "c < unat (sb_size (sb s))" for c
  proof (cases "BBLOCK (of_nat c) (sb s) = ?B")
    case True
    then have "c div BPB = unat b div BPB" using BBLOCK_nat(1) [OF d, of c] BBLOCK_nat(1) [OF d, of "unat b"] b c by simp
    then have "c = unat b \<longleftrightarrow> c mod BPB = ?bi" by (metis div_mult_mod_eq)
    then show ?thesis using bm_used_set(2) [OF l BP BP, of "unat b" c] r(9) True txn_frame_fs(3) [OF r(7)] by (simp add: used_def)
  next
    case False
    then show ?thesis using r(9) txn_frame_fs(3) [OF r(7)] by (auto simp: used_def)
  qed
  then show ?thesis using e r(6-9) by (intro that [of s3]) auto
qed

section \<open>A concrete disk\<close>

definition fs_of :: "(u64 \<Rightarrow> u8 list) \<Rightarrow> superblock \<Rightarrow> (nat \<Rightarrow> inode) \<Rightarrow> fs_state" where
  "fs_of M b I = (log_state.extend (disk_state.extend (the (binit (disk0\<lparr>media := M\<rparr>)))
     (log_state.fields \<lparr>lg_start = uint (sb_logstart b), lg_size = 30, lg_outstanding = 1, lg_committing = False, lg_dev = 1,
       lh_n = 0, lh_block = (\<lambda>_. 0)\<rparr>)) (fs_state.fields b I))\<lparr>panicked := False\<rparr>"

lemma fs_of_ok:
  assumes "\<And>x. length (M x) = BSIZE"
  shows "txn 1 (sb_logstart b) {} [] (fs_of M b I)" "locked_bufs (fs_of M b I) = {}" "media (fs_of M b I) = M"
    "sb (fs_of M b I) = b" "itable (fs_of M b I) = I" "lg_outstanding (lg (fs_of M b I)) = 1"
    "bn < 0x80000000 \<Longrightarrow> view (fs_of M b I) bn = M (sector_of bn)" "\<not> panicked (fs_of M b I)"
proof -
  let ?d = "disk0\<lparr>media := M\<rparr>" and ?f = "fs_of M b I"
  have "\<exists>s'. binit ?d = Some s' \<and> bio_ok 1 {} (rev [0..<NBUF]) s' \<and> locked_bufs s' = {} \<and> media s' = media ?d \<and> dwrites s' = dwrites ?d"
    by (rule binit_ok) (use assms in \<open>auto simp: disk0_def sl_state.defs disk_state.defs sl0_def proc0_def proc_state.defs
      vdisk_ok_def drained_def ROOTDEV_def\<close>)
  then obtain s' where s': "binit ?d = Some s'" "cache_ok 1 {} s'" "locked_bufs s' = {}" "media s' = M" by (auto simp: cache_ok_def)
  have f: "hw ?f = hw s'" "procs ?f = procs s'" "vdisk ?f = vdisk s'" "bufs ?f = bufs s'" "sleeplocks ?f = sleeplocks s'" "media ?f = media s'"
    using s'(1) by (simp_all add: fs_of_def disk_state.defs log_state.defs fs_state.defs)
  show m: "media ?f = M" "sb ?f = b" "itable ?f = I" "lg_outstanding (lg ?f) = 1" "\<not> panicked ?f"
    using s'(1,4) by (simp_all add: fs_of_def disk_state.defs log_state.defs fs_state.defs)
  have c: "cache_ok 1 {} ?f" and L: "locked_bufs ?f = {}" using cache_ok_cong [of ?f s'] f s' by auto
  then show "locked_bufs ?f = {}" by simp
  have "pinned {} (set []) ?f" by (simp add: pinned_def)
  then show t: "txn 1 (sb_logstart b) {} [] ?f"
    using c L unfolding txn_def
    by (auto simp: fs_of_def disk_state.defs log_state.defs fs_state.defs log_at_def LOGSIZE_def)
  show "view ?f bn = M (sector_of bn)" if "bn < 0x80000000"
    using txn_view_clean [OF t that] L m(1) by simp
qed

text \<open>200 blocks, log at 2, inodes at 32, bitmap at 33, the first 40 blocks in use.\<close>

definition sb0 :: superblock where
  "sb0 = \<lparr>sb_magic = FSMAGIC, sb_size = 200, sb_nblocks = 166, sb_ninodes = 15, sb_nlog = 30, sb_logstart = 2,
     sb_inodestart = 32, sb_bmapstart = 33\<rparr>"

definition bitmap0 :: "u8 list" where
  "bitmap0 = replicate 5 255 @ replicate 1019 0"

definition media0 :: "u64 \<Rightarrow> u8 list" where
  "media0 x = (if x = 66 then bitmap0 else replicate BSIZE 0)"

definition fs0 :: fs_state where
  "fs0 = fs_of media0 sb0 (\<lambda>_. \<lparr>i_dev = 0, i_inum = 0, i_ref = 0, i_valid = False, i_type = 0, i_major = 0, i_minor = 0,
     i_nlink = 0, i_size = 0, i_addrs = (\<lambda>_. 0)\<rparr>)"

lemma media0_length: "length (media0 x) = BSIZE"
  by (simp add: media0_def bitmap0_def BSIZE_def)

lemma sb0_ok: "disk_ok sb0" "data_start sb0 = 34" "unat (sb_size sb0) = 200"
  by (simp_all add: disk_ok_def data_start_def sb0_def BPB_def BSIZE_def LOGSIZE_def)

lemma fs0_ok: "txn 1 2 {} [] fs0" "locked_bufs fs0 = {}" "sb fs0 = sb0" "\<not> panicked fs0" "disk_ok (sb fs0)" "calm fs0"
  "bn < 0x80000000 \<Longrightarrow> view fs0 bn = media0 (sector_of bn)"
  using fs_of_ok(1) [of media0 sb0, OF media0_length]
  by (simp_all add: fs0_def fs_of_ok media0_length sb0_ok calm_def) (simp add: sb0_def)

lemma fs0_used: "b < 200 \<Longrightarrow> used fs0 b \<longleftrightarrow> b < 40"
proof -
  assume b: "b < 200"
  have "unat (BBLOCK (of_nat b) sb0) = 33" using BBLOCK_nat(1) [OF sb0_ok(1), of b] b sb0_ok(3) by (simp add: sb0_def BPB_def BSIZE_def)
  then have "BBLOCK (of_nat b) sb0 = 33" by (simp add: word_unat_eq_iff)
  moreover have "view fs0 33 = bitmap0" by (simp add: fs0_ok media0_def sector_of_def BSIZE_def)
  ultimately have u: "used fs0 b \<longleftrightarrow> bit (bitmap0 ! (b div 8)) (b mod 8)" using b by (simp add: used_def fs0_ok bm_used_bit BPB_def BSIZE_def)
  have "bit (255 :: u8) k" if "k < 8" for k
  proof -
    have "bit (mask 8 :: u8) k" using that by (simp only: bit_mask_iff possible_bit_word) simp
    then show ?thesis by (simp add: mask_eq_exp_minus_1)
  qed
  then show ?thesis using u b by (cases "b < 40") (auto simp: bitmap0_def nth_append div_less_iff_less_mult)
qed

section \<open>Properties\<close>

text \<open>C15: balloc returns the first block the bitmap has free, marks it and no other block as used and fills
  it with zeros; it returns 0 and changes no block exactly when the bitmap has no free block.\<close>

theorem balloc_first_free:
  assumes "waits_for_disk sw" "disk_ok (sb s)" "txn p S {} H s" "calm s" "length H < 28" "\<not> panicked s"
    and meta: "\<forall>b<data_start (sb s). used s b"
  shows "\<exists>a s'. balloc sw ROOTDEV s = Some (a, s') \<and>
    (if \<forall>b<unat (sb_size (sb s)). used s b then a = 0 \<and> view s' = view s
     else let b = unat a in b < unat (sb_size (sb s)) \<and> \<not> used s b \<and> (\<forall>c<b. used s c) \<and>
       (\<forall>c<unat (sb_size (sb s)). used s' c \<longleftrightarrow> used s c \<or> c = b) \<and> view s' a = replicate BSIZE 0 \<and>
       (\<forall>bn. bn \<noteq> a \<longrightarrow> bn \<noteq> BBLOCK a (sb s) \<longrightarrow> view s' bn = view s bn))"
proof (rule balloc_ok [OF assms(1-6)])
  fix b s'
  assume b: "b < unat (sb_size (sb s))" "\<not> used s b" "\<forall>j<b. used s j" "balloc sw ROOTDEV s = Some (of_nat b, s')"
    and a: "allocated p S H b s s'"
  have "unat (sb_size (sb s)) < 0x80000000" using assms(2) by (simp add: disk_ok_def)
  then have u: "unat (of_nat b :: u32) = b" using b(1) by (simp add: unat_of_nat)
  have "data_start (sb s) \<le> b" using b(2) meta not_less by blast
  then have "\<forall>c<unat (sb_size (sb s)). used s' c \<longleftrightarrow> used s c \<or> c = b"
    using allocated_used [OF a assms(3,2) _ b(1)] by blast
  moreover have "view s' (of_nat b) = replicate BSIZE 0" "\<forall>bn. bn \<noteq> of_nat b \<longrightarrow> bn \<noteq> BBLOCK (of_nat b) (sb s) \<longrightarrow> view s' bn = view s bn"
    using a by (auto simp: allocated_def Let_def)
  ultimately show ?thesis using b u by (intro exI [of _ "of_nat b"] exI [of _ s']) (auto simp: Let_def)
qed auto

theorem balloc_first_free_witness:
  "\<exists>s'. balloc sw_disk ROOTDEV fs0 = Some (40, s') \<and> used s' 40 \<and> \<not> used fs0 40"
proof -
  have "\<exists>a s'. balloc sw_disk ROOTDEV fs0 = Some (a, s') \<and>
    (if \<forall>b<unat (sb_size (sb fs0)). used fs0 b then a = 0 \<and> view s' = view fs0
     else let b = unat a in b < unat (sb_size (sb fs0)) \<and> \<not> used fs0 b \<and> (\<forall>c<b. used fs0 c) \<and>
       (\<forall>c<unat (sb_size (sb fs0)). used s' c \<longleftrightarrow> used fs0 c \<or> c = b) \<and> view s' a = replicate BSIZE 0 \<and>
       (\<forall>bn. bn \<noteq> a \<longrightarrow> bn \<noteq> BBLOCK a (sb fs0) \<longrightarrow> view s' bn = view fs0 bn))"
    by (rule balloc_first_free [OF waits_sw_disk fs0_ok(5,1,6)]) (auto simp: fs0_ok sb0_ok fs0_used)
  moreover have "\<not> (\<forall>b<unat (sb_size (sb fs0)). used fs0 b)" using fs0_used [of 40] by (auto simp: fs0_ok sb0_ok intro!: exI [of _ 40])
  ultimately obtain a s' where a: "balloc sw_disk ROOTDEV fs0 = Some (a, s')" "unat a < 200" "\<not> used fs0 (unat a)"
      "\<forall>c<unat a. used fs0 c" "\<forall>c<200. used s' c \<longleftrightarrow> used fs0 c \<or> c = unat a"
    by (auto simp: Let_def fs0_ok sb0_ok split: if_splits)
  have "\<not> 40 < unat a" using a(4) fs0_used [of 40] by auto
  then have "unat a = 40" using a(2,3) fs0_used [of "unat a"] by auto
  then show ?thesis using a fs0_used [of 40] by (intro exI [of _ s']) (auto simp: word_unat_eq_iff)
qed

text \<open>C16: bfree of a used block clears its bit of the bitmap and changes no other bit and no other block.\<close>

theorem bfree_frees_exactly:
  assumes "waits_for_disk sw" "disk_ok (sb s)" "txn p S {} H s" "calm s" "length H < 29"
    and "unat b < unat (sb_size (sb s))" "used s (unat b)"
  shows "\<exists>s'. bfree sw ROOTDEV b s = Some s' \<and> (\<forall>c<unat (sb_size (sb s)). used s' c \<longleftrightarrow> used s c \<and> c \<noteq> unat b) \<and>
    (\<forall>bn. bn \<noteq> BBLOCK b (sb s) \<longrightarrow> view s' bn = view s bn)"
  by (rule bfree_ok [OF assms]) blast

theorem bfree_frees_exactly_witness:
  "\<exists>s'. bfree sw_disk ROOTDEV 39 fs0 = Some s' \<and> \<not> used s' 39 \<and> used fs0 39"
  using bfree_frees_exactly [OF waits_sw_disk fs0_ok(5,1,6), of 39] fs0_used [of 39] by (auto simp: fs0_ok sb0_ok)

end
