(* ===== verification/Fsfile.thy ===== *)
theory Fsfile
  imports Fsblock
begin

text \<open>
  The blocks of a file and its inode on disk (bmap and iupdate of kernel/fs.c).

  \<open>fmap\<close> reads the direct addresses and the indirect block as a function from block numbers of the
  file to blocks of the disk, and \<open>file_ok\<close> says that its values are allocated data blocks, all
  different. \<open>grows\<close> is what bmap does to that function.
\<close>

section \<open>Allocating inside a transaction\<close>

definition fs_ok :: "nat \<Rightarrow> u32 list \<Rightarrow> 'z fs_state_scheme \<Rightarrow> bool" where
  "fs_ok p H s \<longleftrightarrow> disk_ok (sb s) \<and> txn p (sb_logstart (sb s)) {} H s \<and> calm s \<and> \<not> panicked s \<and>
     (\<forall>b<data_start (sb s). used s b)"

lemma fs_okD:
  assumes "fs_ok p H s"
  shows "disk_ok (sb s)" "txn p (sb_logstart (sb s)) {} H s" "calm s" "\<not> panicked s" "b < data_start (sb s) \<Longrightarrow> used s b"
    "bn < 0x80000000 \<Longrightarrow> length (view s bn) = BSIZE"
  using assms by (auto simp: fs_ok_def dest: view_length)

definition bitmap_blk :: "superblock \<Rightarrow> u32 \<Rightarrow> bool" where
  "bitmap_blk b bn \<longleftrightarrow> unat (sb_bmapstart b) \<le> unat bn \<and> unat bn < data_start b"

definition data_blk :: "'z fs_state_scheme \<Rightarrow> u32 \<Rightarrow> bool" where
  "data_blk s a \<longleftrightarrow> data_start (sb s) \<le> unat a \<and> unat a < unat (sb_size (sb s)) \<and> used s (unat a)"

text \<open>A block that was free and is now allocated and zero; other blocks outside the bitmap are as before.\<close>

definition fresh :: "'z fs_state_scheme \<Rightarrow> u32 \<Rightarrow> 'z fs_state_scheme \<Rightarrow> bool" where
  "fresh s a s' \<longleftrightarrow> data_start (sb s) \<le> unat a \<and> unat a < unat (sb_size (sb s)) \<and> \<not> used s (unat a) \<and>
     (\<forall>c<unat (sb_size (sb s)). used s' c \<longleftrightarrow> used s c \<or> c = unat a) \<and> view s' a = replicate BSIZE 0 \<and>
     (\<forall>bn. bn \<noteq> a \<longrightarrow> \<not> bitmap_blk (sb s) bn \<longrightarrow> view s' bn = view s bn)"

lemma bitmap_blk_BBLOCK: "disk_ok x \<Longrightarrow> b \<le> unat (sb_size x) \<Longrightarrow> bitmap_blk x (BBLOCK (of_nat b) x)"
  using BBLOCK_nat(1,3) [of x b] by (simp add: bitmap_blk_def)

lemma calm_grows:
  assumes "calm s" "keeps s s'" "sb s' = sb s" "disk_ok (sb s)"
    and "\<And>c. c < unat (sb_size (sb s)) \<Longrightarrow> used s c \<Longrightarrow> used s' c"
    and "\<And>i. i \<in> locked_bufs s \<Longrightarrow> unat (b_blockno (bufs s i)) < unat (sb_size (sb s))"
  shows "calm s'"
  using assms by (auto simp: calm_def keeps_def)

lemma balloc_fs:
  assumes sw: "waits_for_disk sw" and f: "fs_ok p H s" and H: "length H < 28"
    and L: "\<And>i. i \<in> locked_bufs s \<Longrightarrow> unat (b_blockno (bufs s i)) < unat (sb_size (sb s))"
  obtains (new) a H' s' where "balloc sw ROOTDEV s = Some (a, s')" "a \<noteq> 0" "fresh s a s'" "fs_ok p H' s'" "length H' \<le> length H + 2"
      "fs_frame s s'" "keeps s s'" "itable s' = itable s"
    | (full) s' where "balloc sw ROOTDEV s = Some (0, s')" "\<forall>b<unat (sb_size (sb s)). used s b" "fs_ok p H s'"
      "fs_frame s s'" "keeps s s'" "view s' = view s" "itable s' = itable s"
proof -
  note d = fs_okD [OF f]
  show ?thesis
  proof (rule balloc_ok [OF sw d(1-3) H d(4)])
    fix b s'
    assume b: "b < unat (sb_size (sb s))" "\<not> used s b" "\<forall>j<b. used s j" "balloc sw ROOTDEV s = Some (of_nat b, s')"
      and a: "allocated p (sb_logstart (sb s)) H b s s'"
    let ?H = "logged (of_nat b) (logged (BBLOCK (of_nat b) (sb s)) H)"
    have z: "unat (sb_size (sb s)) < 0x80000000" using d(1) by (simp add: disk_ok_def)
    then have ub: "unat (of_nat b :: u32) = b" using b(1) by (simp add: unat_of_nat)
    have ds: "data_start (sb s) \<le> b" using b(2) d(5) not_less by blast
    then have n0: "(of_nat b :: u32) \<noteq> 0" using ub by (auto simp: data_start_def word_unat_eq_iff)
    note us = allocated_used [OF a d(2,1) ds b(1)]
    have al: "txn p (sb_logstart (sb s)) {} ?H s'" "txn_frame s s'" "keeps s s'"
      "view s' = (view s)(BBLOCK (of_nat b) (sb s) := mark_used (b mod BPB) (view s (BBLOCK (of_nat b) (sb s))), of_nat b := replicate BSIZE 0)"
      using a by (simp_all add: allocated_def Let_def)
    note fr = txn_frame_fs [OF al(2)]
    have "bitmap_blk (sb s) (BBLOCK (of_nat b) (sb s))" by (rule bitmap_blk_BBLOCK [OF d(1)]) (use b(1) in simp)
    then have fr': "fresh s (of_nat b) s'" using ds b ub us al(4) by (auto simp: fresh_def)
    have "calm s'" by (rule calm_grows [OF d(3) al(3) fr(3) d(1)]) (use us L in auto)
    moreover have "\<forall>c<data_start (sb s'). used s' c" using us d(1,5) fr(3) by (auto simp: disk_ok_def)
    ultimately have "fs_ok p ?H s'" using al(1) d(1,4) fr by (simp add: fs_ok_def)
    then show ?thesis using new [OF b(4) n0 fr'] fs_frame_txn [OF al(2)] al(3) fr(1) by (auto simp: logged_def split: if_splits)
  next
    fix s'
    assume g: "\<forall>b<unat (sb_size (sb s)). used s b" "balloc sw ROOTDEV s = Some (0, s')"
      "txn p (sb_logstart (sb s)) {} H s'" "fs_frame s s'" "keeps s s'" "view s' = view s" "itable s' = itable s"
    note fr = fs_frameD [OF g(4)]
    have "used s' b = used s b" for b by (rule used_cong) (use g(6) fr(1) in auto)
    moreover have "calm s'" using calm_cong [OF g(5,6) fr(1)] d(3) by simp
    ultimately have "fs_ok p H s'" using g(3) d fr(1,3) by (simp add: fs_ok_def)
    then show ?thesis using full [OF g(2,1)] g by simp
  qed
qed

section \<open>The blocks of a file\<close>

definition fmap :: "'z fs_state_scheme \<Rightarrow> nat \<Rightarrow> nat \<Rightarrow> u32" where
  "fmap s ip k = (let A = i_addrs (itable s ip) in
     if k < NDIRECT then A k else if A NDIRECT = 0 then 0 else get_w (4 * (k - NDIRECT)) (view s (A NDIRECT)))"

definition file_ok :: "'z fs_state_scheme \<Rightarrow> nat \<Rightarrow> bool" where
  "file_ok s ip \<longleftrightarrow> (let x = itable s ip in
     i_dev x = ROOTDEV \<and> unat (i_inum x) < unat (sb_ninodes (sb s)) \<and>
     (\<forall>k<MAXFILE. fmap s ip k \<noteq> 0 \<longrightarrow> data_blk s (fmap s ip k) \<and> fmap s ip k \<noteq> i_addrs x NDIRECT) \<and>
     (i_addrs x NDIRECT \<noteq> 0 \<longrightarrow> data_blk s (i_addrs x NDIRECT)) \<and>
     (\<forall>k<MAXFILE. \<forall>l<MAXFILE. fmap s ip k = fmap s ip l \<longrightarrow> fmap s ip k \<noteq> 0 \<longrightarrow> k = l))"

lemma file_okD:
  assumes "file_ok s ip"
  shows "i_dev (itable s ip) = ROOTDEV" "unat (i_inum (itable s ip)) < unat (sb_ninodes (sb s))"
    "k < MAXFILE \<Longrightarrow> fmap s ip k \<noteq> 0 \<Longrightarrow> data_blk s (fmap s ip k)"
    "k < MAXFILE \<Longrightarrow> fmap s ip k \<noteq> 0 \<Longrightarrow> fmap s ip k \<noteq> i_addrs (itable s ip) NDIRECT"
    "i_addrs (itable s ip) NDIRECT \<noteq> 0 \<Longrightarrow> data_blk s (i_addrs (itable s ip) NDIRECT)"
    "k < MAXFILE \<Longrightarrow> l < MAXFILE \<Longrightarrow> fmap s ip k = fmap s ip l \<Longrightarrow> fmap s ip k \<noteq> 0 \<Longrightarrow> k = l"
  using assms by (auto simp: file_ok_def Let_def)

lemma data_blkD: "disk_ok (sb s) \<Longrightarrow> data_blk s a \<Longrightarrow> a < 0x80000000 \<and> \<not> bitmap_blk (sb s) a \<and> a \<noteq> 0"
  by (auto simp: data_blk_def disk_ok_def bitmap_blk_def word_less_nat_alt data_start_def)

definition newblk :: "'z fs_state_scheme \<Rightarrow> u32 \<Rightarrow> 'z fs_state_scheme \<Rightarrow> bool" where
  "newblk s a s' \<longleftrightarrow> data_start (sb s) \<le> unat a \<and> unat a < unat (sb_size (sb s)) \<and> \<not> used s (unat a) \<and> used s' (unat a)"

text \<open>What bmap does to a file: it may give block k an address.\<close>

definition grows :: "nat \<Rightarrow> nat \<Rightarrow> 'z fs_state_scheme \<Rightarrow> 'z fs_state_scheme \<Rightarrow> bool" where
  "grows ip k s s' \<longleftrightarrow> sb s' = sb s \<and> (\<forall>j. j \<noteq> ip \<longrightarrow> itable s' j = itable s j) \<and>
     itable s' ip = (itable s ip)\<lparr>i_addrs := i_addrs (itable s' ip)\<rparr> \<and>
     (\<forall>c<unat (sb_size (sb s)). used s c \<longrightarrow> used s' c) \<and>
     (\<forall>l<MAXFILE. fmap s' ip l = fmap s ip l \<or> l = k \<and> fmap s ip k = 0 \<and> newblk s (fmap s' ip k) s' \<and>
        view s' (fmap s' ip k) = replicate BSIZE 0) \<and>
     (i_addrs (itable s' ip) NDIRECT = i_addrs (itable s ip) NDIRECT \<or>
        i_addrs (itable s ip) NDIRECT = 0 \<and> newblk s (i_addrs (itable s' ip) NDIRECT) s') \<and>
     (\<forall>bn. data_blk s bn \<longrightarrow> bn \<noteq> i_addrs (itable s ip) NDIRECT \<longrightarrow> view s' bn = view s bn) \<and>
     (\<forall>bn. unat bn < unat (sb_bmapstart (sb s)) \<longrightarrow> view s' bn = view s bn)"

lemma data_blk_mono: "grows ip k s s' \<Longrightarrow> data_blk s a \<Longrightarrow> data_blk s' a"
  by (auto simp: grows_def data_blk_def)

lemma newblk_not_data: "newblk s a s' \<Longrightarrow> \<not> data_blk s a"
  by (simp add: newblk_def data_blk_def)

lemma newblk_data: "newblk s a s' \<Longrightarrow> sb s' = sb s \<Longrightarrow> data_blk s' a"
  by (simp add: newblk_def data_blk_def)

lemma file_ok_grows:
  assumes f: "file_ok s ip" and g: "grows ip k s s'" and k: "k < MAXFILE"
    and n: "fmap s' ip k \<noteq> 0 \<Longrightarrow> fmap s ip k = 0 \<Longrightarrow> fmap s' ip k \<noteq> i_addrs (itable s' ip) NDIRECT"
  shows "file_ok s' ip"
proof -
  note d = file_okD [OF f]
  have x: "i_dev (itable s' ip) = i_dev (itable s ip)" "i_inum (itable s' ip) = i_inum (itable s ip)" "sb s' = sb s"
    using g unfolding grows_def by (metis inode.select_convs(1,2) inode.surjective inode.update_convs(10))+
  have fm: "fmap s' ip l = fmap s ip l \<or> l = k \<and> fmap s ip k = 0 \<and> newblk s (fmap s' ip k) s'" if "l < MAXFILE" for l
    using g that by (auto simp: grows_def)
  have ia: "i_addrs (itable s' ip) NDIRECT = i_addrs (itable s ip) NDIRECT \<or>
      i_addrs (itable s ip) NDIRECT = 0 \<and> newblk s (i_addrs (itable s' ip) NDIRECT) s'" using g by (simp add: grows_def)
  have 1: "data_blk s' (fmap s' ip l)" if "l < MAXFILE" "fmap s' ip l \<noteq> 0" for l
    using fm [OF that(1)] d(3) [OF that(1)] that(2) data_blk_mono [OF g] newblk_data x(3) by metis
  have 2: "fmap s' ip l \<noteq> i_addrs (itable s' ip) NDIRECT" if l: "l < MAXFILE" "fmap s' ip l \<noteq> 0" for l
  proof (cases "fmap s' ip l = fmap s ip l")
    case True
    then have "data_blk s (fmap s' ip l)" "fmap s' ip l \<noteq> i_addrs (itable s ip) NDIRECT" using d(3,4) l by auto
    then show ?thesis using ia newblk_not_data by metis
  next
    case False
    then show ?thesis using fm [OF l(1)] l n by auto
  qed
  have 3: "data_blk s' (i_addrs (itable s' ip) NDIRECT)" if "i_addrs (itable s' ip) NDIRECT \<noteq> 0"
    using ia d(5) that data_blk_mono [OF g] newblk_data x(3) by metis
  have 4: "m = l" if "m < MAXFILE" "l < MAXFILE" "fmap s' ip m = fmap s' ip l" "fmap s' ip m \<noteq> 0" for m l
    using fm [OF that(1)] fm [OF that(2)] that d(3,6) newblk_not_data by metis
  show ?thesis unfolding file_ok_def Let_def using x d(1,2) 1 2 3 4 by auto
qed

lemma grows_refl [simp]: "grows ip k s s"
  by (simp add: grows_def)

section \<open>bmap\<close>

lemma used_bitmap:
  assumes "disk_ok (sb s)" "sb s' = sb s" "\<And>bn. bitmap_blk (sb s) bn \<Longrightarrow> view s' bn = view s bn" "c < unat (sb_size (sb s))"
  shows "used s' c = used s c"
  using assms(3) [OF bitmap_blk_BBLOCK [OF assms(1), of c]] assms(2,4) by (simp add: used_def)

text \<open>Two states with the same blocks, apart from a data block.\<close>

lemma fs_ok_write:
  assumes f: "fs_ok p H s" and b: "data_blk s b" and v: "view s' = (view s)(b := d)" and x: "sb s' = sb s" "panicked s' = panicked s"
    and t: "txn p (sb_logstart (sb s)) {} H' s'" and L: "locked_bufs s' = {}"
  shows "fs_ok p H' s'" "c < unat (sb_size (sb s)) \<Longrightarrow> used s' c = used s c"
proof -
  note d = fs_okD [OF f]
  show u: "used s' c = used s c" if "c < unat (sb_size (sb s))" for c
    by (rule used_bitmap [OF d(1) x(1) _ that]) (use v data_blkD [OF d(1) b] in auto)
  show "fs_ok p H' s'" using d(1,4,5) x t L u by (auto simp: fs_ok_def calm_def disk_ok_def)
qed

lemma grows_trans:
  assumes g: "grows ip k s s1" "grows ip k s1 s2" and m: "\<And>l. l < MAXFILE \<Longrightarrow> fmap s1 ip l = fmap s ip l" and k: "k < MAXFILE"
  shows "grows ip k s s2"
proof -
  have x: "sb s1 = sb s" "sb s2 = sb s" using g by (simp_all add: grows_def)
  have mono: "\<And>c. c < unat (sb_size (sb s)) \<Longrightarrow> used s c \<Longrightarrow> used s1 c" "\<And>c. c < unat (sb_size (sb s)) \<Longrightarrow> used s1 c \<Longrightarrow> used s2 c"
    using g x by (auto simp: grows_def)
  have n: "newblk s1 a s2 \<Longrightarrow> newblk s a s2" "newblk s a s1 \<Longrightarrow> newblk s a s2" for a using mono x by (auto simp: newblk_def)
  have i1: "i_addrs (itable s1 ip) NDIRECT = i_addrs (itable s ip) NDIRECT \<or>
      i_addrs (itable s ip) NDIRECT = 0 \<and> newblk s (i_addrs (itable s1 ip) NDIRECT) s1"
    and i2: "i_addrs (itable s2 ip) NDIRECT = i_addrs (itable s1 ip) NDIRECT \<or>
      i_addrs (itable s1 ip) NDIRECT = 0 \<and> newblk s1 (i_addrs (itable s2 ip) NDIRECT) s2"
    using g by (simp_all add: grows_def)
  have ia: "i_addrs (itable s2 ip) NDIRECT = i_addrs (itable s ip) NDIRECT \<or>
      i_addrs (itable s ip) NDIRECT = 0 \<and> newblk s (i_addrs (itable s2 ip) NDIRECT) s2"
    using i1 i2 n by metis
  have v: "view s2 bn = view s bn" if bn: "data_blk s bn" "bn \<noteq> i_addrs (itable s ip) NDIRECT" for bn
  proof -
    have "bn \<noteq> i_addrs (itable s1 ip) NDIRECT" using i1 bn newblk_not_data by metis
    moreover have "data_blk s1 bn" using data_blk_mono g(1) bn(1) by blast
    ultimately show ?thesis using g bn by (simp add: grows_def)
  qed
  have fm: "fmap s2 ip l = fmap s ip l \<or> l = k \<and> fmap s ip k = 0 \<and> newblk s (fmap s2 ip k) s2 \<and> view s2 (fmap s2 ip k) = replicate BSIZE 0"
    if "l < MAXFILE" for l using g(2) m that k n(1) unfolding grows_def by metis
  have it: "itable s2 ip = (itable s ip)\<lparr>i_addrs := i_addrs (itable s2 ip)\<rparr>"
    using g unfolding grows_def by (metis inode.surjective inode.update_convs(10))
  have vb: "\<forall>bn. unat bn < unat (sb_bmapstart (sb s)) \<longrightarrow> view s2 bn = view s bn" "\<forall>j. j \<noteq> ip \<longrightarrow> itable s2 j = itable s j"
    using g x by (simp_all add: grows_def)
  have "\<forall>c<unat (sb_size (sb s)). used s c \<longrightarrow> used s2 c" using mono by blast
  then show ?thesis unfolding grows_def using x(2) it fm ia v vb by blast
qed

lemma grows_fresh:
  assumes f: "fs_ok p H s" "file_ok s ip" and a: "fresh s a s1" and x: "sb s1 = sb s" "itable s1 = itable s" and j: "i_addrs (itable s ip) j = 0"
    and t: "t = upd_inode ip (\<lambda>x. x\<lparr>i_addrs := (i_addrs x)(j := a)\<rparr>) s1" and jk: "j = NDIRECT \<and> NDIRECT \<le> k \<or> j = k \<and> k < NDIRECT"
  shows "grows ip k s t" "l < MAXFILE \<Longrightarrow> fmap t ip l = (if l = j \<and> j < NDIRECT then a else fmap s ip l)" "newblk s a t"
proof -
  note d = fs_okD [OF f(1)] and e = file_okD [OF f(2)]
  have ut: "used t c = used s1 c" for c by (rule used_cong) (simp_all add: t)
  show n: "newblk s a t" using a ut by (simp add: newblk_def fresh_def)
  have v: "view t bn = view s bn" if "data_blk s bn" for bn
  proof -
    have "bn \<noteq> a" "\<not> bitmap_blk (sb s) bn" using that n newblk_not_data data_blkD [OF d(1) that] by auto
    then show ?thesis using a by (simp add: fresh_def t)
  qed
  have va: "view t a = replicate BSIZE 0" using a by (simp add: fresh_def t)
  show fm: "fmap t ip l = (if l = j \<and> j < NDIRECT then a else fmap s ip l)" if l: "l < MAXFILE" for l
  proof (cases "l < NDIRECT")
    case True
    then show ?thesis by (auto simp: fmap_def t x)
  next
    case False
    have z: "get_w (4 * (l - NDIRECT)) (replicate BSIZE 0) = (0 :: u32)"
      by (rule get_w_zeros) (use l False in \<open>simp add: MAXFILE_def NINDIRECT_def BSIZE_def NDIRECT_def\<close>)
    show ?thesis
    proof (cases "j = NDIRECT")
      case True
      then show ?thesis using False z j va by (simp add: fmap_def t x)
    next
      case ne: False
      then show ?thesis using False v [OF e(5)] jk by (auto simp: fmap_def t x Let_def)
    qed
  qed
  have "view t bn = view s bn" if "unat bn < unat (sb_bmapstart (sb s))" for bn
  proof -
    have "bn \<noteq> a" "\<not> bitmap_blk (sb s) bn" using that a by (auto simp: fresh_def bitmap_blk_def data_start_def)
    then show ?thesis using a by (simp add: fresh_def t)
  qed
  moreover have "\<forall>l<MAXFILE. fmap t ip l = fmap s ip l \<or> l = k \<and> fmap s ip k = 0 \<and> newblk s (fmap t ip k) t \<and> view t (fmap t ip k) = replicate BSIZE 0"
  proof (intro allI impI)
    fix l assume l: "l < MAXFILE"
    have "fmap s ip k = 0" if "k < NDIRECT" "j = k" using j that by (simp add: fmap_def)
    then show "fmap t ip l = fmap s ip l \<or> l = k \<and> fmap s ip k = 0 \<and> newblk s (fmap t ip k) t \<and> view t (fmap t ip k) = replicate BSIZE 0"
      using fm [OF l] jk n va by auto
  qed
  moreover have "\<forall>c<unat (sb_size (sb s)). used s c \<longrightarrow> used t c" using a ut by (simp add: fresh_def)
  ultimately show "grows ip k s t" using n v j jk by (auto simp: grows_def t x)
qed

lemma fs_ok_upd_inode [simp]: "fs_ok p H (upd_inode ip f s) = fs_ok p H s"
proof -
  have "used (upd_inode ip f s) b = used s b" for b by (rule used_cong) simp_all
  then show ?thesis by (simp add: fs_ok_def calm_def)
qed

lemma grows_same:
  assumes "view s' = view s" "itable s' = itable s" "sb s' = sb s"
  shows "grows ip k s s'" "fmap s' ip l = fmap s ip l" "file_ok s' ip = file_ok s ip" "data_blk s' a = data_blk s a"
proof -
  have u: "used s' b = used s b" for b by (rule used_cong) (use assms in auto)
  show f: "fmap s' ip l = fmap s ip l" for l using assms by (simp add: fmap_def Let_def)
  show g: "grows ip k s s'" using assms u f by (simp add: grows_def)
  show d: "data_blk s' a = data_blk s a" for a using assms u by (simp add: data_blk_def)
  show "file_ok s' ip = file_ok s ip" using assms f d by (simp add: file_ok_def)
qed

lemma bmap_direct_ok:
  assumes sw: "waits_for_disk sw" and f: "fs_ok p H s" "file_ok s ip" and H: "length H < 28" and L: "locked_bufs s = {}"
    and jk: "j = NDIRECT \<and> NDIRECT \<le> k \<or> j = k \<and> k < NDIRECT"
  obtains (old) "i_addrs (itable s ip) j \<noteq> 0" "bmap_direct sw ip j s = Some (i_addrs (itable s ip) j, s)"
    | (new) a H' t where "i_addrs (itable s ip) j = 0" "bmap_direct sw ip j s = Some (a, t)" "a \<noteq> 0" "fs_ok p H' t" "length H' \<le> length H + 2"
      "fs_frame s t" "keeps s t" "grows ip k s t" "\<forall>l<MAXFILE. fmap t ip l = (if l = j \<and> j < NDIRECT then a else fmap s ip l)"
      "newblk s a t" "i_addrs (itable t ip) = (i_addrs (itable s ip))(j := a)"
    | (full) t where "i_addrs (itable s ip) j = 0" "bmap_direct sw ip j s = Some (0, t)" "fs_ok p H t" "fs_frame s t" "keeps s t"
      "view t = view s" "itable t = itable s" "\<forall>c<unat (sb_size (sb s)). used t c"
proof (cases "i_addrs (itable s ip) j = 0")
  case False
  then show ?thesis using old by (simp add: bmap_direct_def)
next
  case j: True
  have dev: "i_dev (itable s ip) = ROOTDEV" using file_okD(1) [OF f(2)] .
  have LL: "\<And>i. i \<in> locked_bufs s \<Longrightarrow> unat (b_blockno (bufs s i)) < unat (sb_size (sb s))" using L by simp
  show ?thesis
  proof (rule balloc_fs [OF sw f(1) H LL])
    fix a H' s1
    assume a: "balloc sw ROOTDEV s = Some (a, s1)" "a \<noteq> 0" "fresh s a s1" "fs_ok p H' s1" "length H' \<le> length H + 2"
      "fs_frame s s1" "keeps s s1" "itable s1 = itable s"
    let ?t = "upd_inode ip (\<lambda>x. x\<lparr>i_addrs := (i_addrs x)(j := a)\<rparr>) s1"
    note g = grows_fresh [OF f a(3) fs_frameD(1) [OF a(6)] a(8) j refl jk]
    have e: "bmap_direct sw ip j s = Some (a, ?t)" using j a(1,2) dev by (simp add: bmap_direct_def)
    have fr: "fs_frame s ?t" "keeps s ?t" using fs_frame_trans [OF a(6) fs_frame_upd(3)] keeps_trans [OF a(7) keeps_upd(3)] by blast+
    show ?thesis by (rule new [OF j e a(2) _ a(5) fr g(1) _ g(3)]) (use g(2) a(4,8) in auto)
  next
    fix t
    assume a: "balloc sw ROOTDEV s = Some (0, t)" "\<forall>b<unat (sb_size (sb s)). used s b" "fs_ok p H t" "fs_frame s t" "keeps s t"
      "view t = view s" "itable t = itable s"
    have "used t b = used s b" for b by (rule used_cong) (use a(6) fs_frameD(1) [OF a(4)] in auto)
    moreover have "bmap_direct sw ip j s = Some (0, t)" using j a(1) dev by (simp add: bmap_direct_def)
    ultimately show ?thesis using full [OF j _ a(3-7)] a(2) by blast
  qed auto
qed

text \<open>The second half of bmap, for a block the indirect block lists.\<close>

definition bmap_tail :: "('z fs_state_scheme \<Rightarrow> 'z fs_state_scheme option) \<Rightarrow> nat \<Rightarrow> nat \<Rightarrow> u32 \<Rightarrow> 'z fs_state_scheme
    \<Rightarrow> (u32 \<times> 'z fs_state_scheme) option" where
  "bmap_tail sw ip bn addr s = do {
     (bp, s) \<leftarrow> bread sw (i_dev (itable s ip)) addr s;
     let addr = get_w (4 * bn) (b_data (bufs s bp));
     (addr, s) \<leftarrow> (if addr = 0 then do {
         (addr, s) \<leftarrow> balloc sw (i_dev (itable s ip)) s;
         if addr \<noteq> 0 then do {
           let s = set_data bp (put_w (4 * bn) addr (b_data (bufs s bp))) s;
           s \<leftarrow> log_write bp s;
           Some (addr, s) }
         else Some (addr, s) }
       else Some (addr, s));
     s \<leftarrow> brelse bp s;
     Some (addr, s) }"

definition bmapped :: "nat \<Rightarrow> u32 list \<Rightarrow> nat \<Rightarrow> nat \<Rightarrow> 'z fs_state_scheme \<Rightarrow> u32 \<Rightarrow> u32 list \<Rightarrow> 'z fs_state_scheme \<Rightarrow> bool" where
  "bmapped p H ip k s a H' s' \<longleftrightarrow> fs_ok p H' s' \<and> locked_bufs s' = {} \<and> fs_frame s s' \<and> keeps s s' \<and> grows ip k s s' \<and>
     file_ok s' ip \<and> a = fmap s' ip k \<and> (a = 0 \<longrightarrow> (\<forall>c<unat (sb_size (sb s)). used s' c)) \<and>
     (fmap s ip k \<noteq> 0 \<longrightarrow> H' = H \<and> view s' = view s \<and> itable s' = itable s)"

lemma bmap_tail_ok:
  assumes sw: "waits_for_disk sw" and f: "fs_ok p H s" "file_ok s ip" and H: "length H < 26" and L: "locked_bufs s = {}"
    and k: "NDIRECT \<le> k" "k < MAXFILE" and b: "i_addrs (itable s ip) NDIRECT = b" "b \<noteq> 0"
  obtains a H' s' where "bmap_tail sw ip (k - NDIRECT) b s = Some (a, s')" "bmapped p H ip k s a H' s'" "length H' \<le> length H + 3"
proof -
  note d = fs_okD [OF f(1)] and e = file_okD [OF f(2)]
  let ?j = "k - NDIRECT" and ?A = "i_addrs (itable s ip)"
  have j: "4 * ?j + 4 \<le> BSIZE" using k by (simp add: MAXFILE_def NINDIRECT_def BSIZE_def)
  have db: "data_blk s b" using e(5) b by simp
  note bb = data_blkD [OF d(1) db]
  have fk: "fmap s ip l = get_w (4 * (l - NDIRECT)) (view s b)" if "NDIRECT \<le> l" for l using that b by (simp add: fmap_def)
  have H1: "length H < 29" "length H < 28" using H by simp_all
  obtain bp s1 where r1: "bread sw ROOTDEV b s = Some (bp, s1)" "txn p (sb_logstart (sb s)) {} H s1" "bio_frame s s1" "bp \<notin> locked_bufs s"
    "locked_bufs s1 = insert bp (locked_bufs s)" "b_blockno (bufs s1 bp) = b" "b_data (bufs s1 bp) = view s b"
    "view s1 = view s" "media s1 = media s" "dwrites s1 = dwrites s" "\<forall>i. i \<noteq> bp \<longrightarrow> bufs s1 i = bufs s i"
    by (rule txn_bread [OF sw d(2) _ _ _ H1(1), of b]) (use bb L in auto)
  note x1 = bio_frame_fs [OF r1(3)]
  have L1: "locked_bufs s1 = {bp}" using r1(5) L by simp
  have bp: "bp \<in> locked_bufs s1" using L1 by simp
  have u1: "used s1 c = used s c" for c by (rule used_cong) (use r1(8) x1(3) in auto)
  have f1: "fs_ok p H s1" using r1(2) d x1 u1 db r1(6) L1 by (auto simp: fs_ok_def calm_def data_blk_def)
  show ?thesis
  proof (cases "get_w (4 * ?j) (view s b) = (0 :: u32)")
    case False
    obtain s2 where r2: "brelse bp s1 = Some s2" "txn p (sb_logstart (sb s)) {} H s2" "bio_frame s1 s2"
      "locked_bufs s2 = locked_bufs s1 - {bp}" "view s2 = view s1" "media s2 = media s1" "dwrites s2 = dwrites s1"
      "\<forall>i. b_data (bufs s2 i) = b_data (bufs s1 i)" "\<forall>i. b_blockno (bufs s2 i) = b_blockno (bufs s1 i)"
      using txn_brelse [OF r1(2) bp] by blast
    note x2 = bio_frame_fs [OF bio_frame_trans [OF r1(3) r2(3)]]
    have v2: "view s2 = view s" using r1(8) r2(5) by simp
    note g = grows_same [OF v2 x2(1,3)]
    have u2: "used s2 c = used s c" for c by (rule used_cong) (use v2 x2(3) in auto)
    have L2: "locked_bufs s2 = {}" using r2(4) L1 by simp
    have "fs_ok p H s2" using r2(2) d x2 u2 L2 by (simp add: fs_ok_def calm_def)
    then have "bmapped p H ip k s (get_w (4 * ?j) (view s b)) H s2"
      using False L2 fs_frame_bio [OF bio_frame_trans [OF r1(3) r2(3)]] g(1,2,3) f(2) fk [OF k(1)] v2 x2(1) L r1(9,10) r2(6,7)
      by (simp add: bmapped_def keeps_def)
    moreover have "bmap_tail sw ip ?j b s = Some (get_w (4 * ?j) (view s b), s2)"
      using r1(1,7) r2(1) e(1) False by (simp add: bmap_tail_def Let_def)
    ultimately show ?thesis using that by auto
  next
    case True
    have bz: "unat (b_blockno (bufs s1 i)) < unat (sb_size (sb s1))" if "i \<in> locked_bufs s1" for i
      using that L1 r1(6) x1(3) db by (simp add: data_blk_def)
    show ?thesis
    proof (rule balloc_fs [OF sw f1 H1(2) bz])
      fix a H2 s2
      assume a: "balloc sw ROOTDEV s1 = Some (a, s2)" "a \<noteq> 0" "fresh s1 a s2" "fs_ok p H2 s2" "length H2 \<le> length H + 2"
        "fs_frame s1 s2" "keeps s1 s2" "itable s2 = itable s1"
      note d2 = fs_okD [OF a(4)] and x2 = fs_frameD [OF a(6)]
      have bp2: "bp \<in> locked_bufs s2" "locked_bufs s2 = {bp}" "b_blockno (bufs s2 bp) = b" "b_data (bufs s2 bp) = view s b"
        using a(7) L1 r1(6,7) by (auto simp: keeps_def)
      have ab: "a \<noteq> b" using a(3) u1 db by (auto simp: fresh_def data_blk_def)
      let ?dat = "put_w (4 * ?j) a (view s b)"
      have ld: "length ?dat = BSIZE" using d(6) [of b] bb j by simp
      have "length H2 < 29" using a(5) H by simp
      then obtain s3 s4 where r: "log_write bp (set_data bp ?dat s2) = Some s3" "brelse bp s3 = Some s4"
        "txn p (sb_logstart (sb s2)) {} (logged (b_blockno (bufs s2 bp)) H2) s4" "txn_frame s2 s4" "locked_bufs s4 = locked_bufs s2 - {bp}"
        "view s4 = (view s2)(b_blockno (bufs s2 bp) := ?dat)" "media s4 = media s2" "dwrites s4 = dwrites s2"
        by (rule txn_finish [OF d2(2) bp2(1) _ ld])
      note x4 = txn_frame_fs [OF r(4)]
      have L4: "locked_bufs s4 = {}" using r(5) bp2 by simp
      have sbs: "sb s4 = sb s" "sb s2 = sb s" "itable s4 = itable s" using x1 x2 x4 a(8) by simp_all
      have v4: "view s4 = (view s2)(b := ?dat)" using r(6) bp2 by simp
      have db2: "data_blk s2 b" using db a(3) u1 sbs x1(3) by (auto simp: data_blk_def fresh_def)
      note w = fs_ok_write [OF a(4) db2 v4 x4(3,5) _ L4, of "logged b H2"]
      have f4: "fs_ok p (logged b H2) s4" using w(1) r(3) bp2(3) by simp
      have u4: "used s4 c \<longleftrightarrow> used s c \<or> c = unat a" if "c < unat (sb_size (sb s))" for c
        using w(2) [of c] a(3) r(3) bp2(3) that sbs u1 x1(3) by (auto simp: fresh_def)
      have na: "newblk s a s4" using a(3) u1 u4 x1(3) by (auto simp: newblk_def fresh_def)
      have fm: "fmap s4 ip l = (if l = k then a else fmap s ip l)" if l: "l < MAXFILE" for l
      proof (cases "l < NDIRECT")
        case True
        then show ?thesis using k sbs by (auto simp: fmap_def)
      next
        case False
        have lb: "length (view s b) = BSIZE" "4 * (l - NDIRECT) + 4 \<le> BSIZE" using d(6) bb l False by (auto simp: MAXFILE_def NINDIRECT_def BSIZE_def)
        have "fmap s4 ip l = get_w (4 * (l - NDIRECT)) ?dat" using False b sbs v4 by (simp add: fmap_def)
        moreover have "get_w (4 * (l - NDIRECT)) ?dat = (get_w (4 * (l - NDIRECT)) (view s b) :: u32)" if "l \<noteq> k"
          by (rule get_put_other) (use that lb j k False in auto)
        moreover have "get_w (4 * ?j) ?dat = a" by (rule get_put_same) (use lb j in auto)
        ultimately show ?thesis using fk False by auto
      qed
      have v: "view s4 bn = view s bn" if "bn \<noteq> a" "bn \<noteq> b" "\<not> bitmap_blk (sb s) bn" for bn
        using that a(3) v4 r1(8) x1(3) by (simp add: fresh_def)
      have fk0: "fmap s ip k = 0" using True fk [OF k(1)] by simp
      have g: "grows ip k s s4"
      proof -
        have "view s4 bn = view s bn" if "data_blk s bn" "bn \<noteq> b" for bn
          using v that na newblk_not_data data_blkD [OF d(1) that(1)] by metis
        moreover have "view s4 bn = view s bn" if bn: "unat bn < unat (sb_bmapstart (sb s))" for bn
          by (rule v) (use bn na db in \<open>auto simp: newblk_def data_blk_def data_start_def bitmap_blk_def\<close>)
        moreover have "view s4 a = replicate BSIZE 0" using a(3) ab v4 by (simp add: fresh_def)
        ultimately show ?thesis using sbs u4 fm fk0 na b by (simp add: grows_def)
      qed
      have fok: "file_ok s4 ip"
        by (rule file_ok_grows [OF f(2) g k(2)]) (use fm k na newblk_not_data db sbs b in auto)
      have "fs_frame s s4" using fs_frame_trans fs_frame_bio r1(3) a(6) fs_frame_txn r(4) by blast
      then have "bmapped p H ip k s a (logged b H2) s4"
        using f4 L4 g fok fm k a(2,7) fk0 L r(7,8) r1(9,10) by (auto simp: bmapped_def keeps_def)
      moreover have "bmap_tail sw ip ?j b s = Some (a, s4)"
        using r1(1,7) a(1,2) r(1,2) e(1) x1(1) bp2(4) True by (simp add: bmap_tail_def Let_def)
      ultimately show ?thesis using that [of a s4 "logged b H2"] a(5) by (auto simp: logged_def)
    next
      fix s2
      assume a: "balloc sw ROOTDEV s1 = Some (0, s2)" "\<forall>c<unat (sb_size (sb s1)). used s1 c" "fs_ok p H s2" "fs_frame s1 s2" "keeps s1 s2"
        "view s2 = view s1" "itable s2 = itable s1"
      have bp2: "bp \<in> locked_bufs s2" "locked_bufs s2 = {bp}" using a(5) L1 by (auto simp: keeps_def)
      obtain s3 where r2: "brelse bp s2 = Some s3" "txn p (sb_logstart (sb s2)) {} H s3" "bio_frame s2 s3"
        "locked_bufs s3 = locked_bufs s2 - {bp}" "view s3 = view s2" "media s3 = media s2" "dwrites s3 = dwrites s2"
        by (rule txn_brelse [OF fs_okD(2) [OF a(3)] bp2(1)]) simp_all
      note x2 = fs_frameD [OF a(4)] and x3 = bio_frame_fs [OF r2(3)]
      have sbs: "sb s3 = sb s" "itable s3 = itable s" "view s3 = view s" using x1 x2 x3 a(6,7) r1(8) r2(5) by simp_all
      note g = grows_same [OF sbs(3,2,1)]
      have u3: "used s3 c = used s c" for c by (rule used_cong) (use sbs in auto)
      have L3: "locked_bufs s3 = {}" using r2(4) bp2 by simp
      have "fs_ok p H s3" using r2(2) d x1 x2 x3 u3 L3 sbs by (simp add: fs_ok_def calm_def)
      moreover have "fs_frame s s3" using fs_frame_trans fs_frame_bio r1(3) a(4) r2(3) by blast
      moreover have "keeps s s3" using L L3 r1(9,10) a(5) r2(6,7) by (simp add: keeps_def)
      ultimately have "bmapped p H ip k s 0 H s3"
        using L3 g f(2) fk [OF k(1)] True sbs a(2) u3 u1 x1(3) by (simp add: bmapped_def)
      moreover have "bmap_tail sw ip ?j b s = Some (0, s3)"
        using r1(1,7) a(1) r2(1) e(1) x1(1) True by (simp add: bmap_tail_def Let_def)
      ultimately show ?thesis using that [of 0 s3 H] by simp
    qed auto
  qed
qed

lemma bmap_eq_tail:
  "NDIRECT \<le> k \<Longrightarrow> k < MAXFILE \<Longrightarrow> bmap sw ip k s = do {
     (addr, s) \<leftarrow> bmap_direct sw ip NDIRECT s;
     if addr = 0 then Some (0, s) else bmap_tail sw ip (k - NDIRECT) addr s }"
proof -
  assume "NDIRECT \<le> k" "k < MAXFILE"
  then have "\<not> k < NDIRECT" "k - NDIRECT < NINDIRECT" by (auto simp: MAXFILE_def)
  then show ?thesis by (simp add: bmap_def bmap_tail_def Let_def cong: if_cong)
qed

lemma bmap_ok:
  assumes sw: "waits_for_disk sw" and f: "fs_ok p H s" "file_ok s ip" and H: "length H < 24" and L: "locked_bufs s = {}"
    and k: "k < MAXFILE"
  obtains a H' s' where "bmap sw ip k s = Some (a, s')" "bmapped p H ip k s a H' s'" "length H' \<le> length H + 5"
proof (cases "k < NDIRECT")
  case kd: True
  have H1: "length H < 28" using H by simp
  have e: "bmap sw ip k s = bmap_direct sw ip k s" using kd by (simp add: bmap_def)
  have jk: "k = NDIRECT \<and> NDIRECT \<le> k \<or> k = k \<and> k < NDIRECT" using kd by simp
  have fk: "fmap s ip k = i_addrs (itable s ip) k" using kd by (simp add: fmap_def)
  show ?thesis
  proof (rule bmap_direct_ok [OF sw f H1 L jk])
    assume "i_addrs (itable s ip) k \<noteq> 0" "bmap_direct sw ip k s = Some (i_addrs (itable s ip) k, s)"
    then show ?thesis using that [of "i_addrs (itable s ip) k" s H] e f L fk by (simp add: bmapped_def)
  next
    fix a H' t
    assume a: "i_addrs (itable s ip) k = 0" "bmap_direct sw ip k s = Some (a, t)" "a \<noteq> 0" "fs_ok p H' t" "length H' \<le> length H + 2"
      "fs_frame s t" "keeps s t" "grows ip k s t" "\<forall>l<MAXFILE. fmap t ip l = (if l = k \<and> k < NDIRECT then a else fmap s ip l)"
      "newblk s a t" "i_addrs (itable t ip) = (i_addrs (itable s ip))(k := a)"
    have "i_addrs (itable s ip) NDIRECT \<noteq> a" using file_okD(5) [OF f(2)] a(3,10) newblk_not_data by metis
    then have "file_ok t ip" by (intro file_ok_grows [OF f(2) a(8) k]) (use a k kd in auto)
    moreover have "locked_bufs t = {}" using a(7) L by (simp add: keeps_def)
    ultimately have "bmapped p H ip k s a H' t" using a k kd fk by (auto simp: bmapped_def)
    then show ?thesis using that [of a t H'] a(2,5) e by simp
  next
    fix t
    assume a: "i_addrs (itable s ip) k = 0" "bmap_direct sw ip k s = Some (0, t)" "fs_ok p H t" "fs_frame s t" "keeps s t"
      "view t = view s" "itable t = itable s" "\<forall>c<unat (sb_size (sb s)). used t c"
    note g = grows_same [OF a(6,7) fs_frameD(1) [OF a(4)]]
    have "bmapped p H ip k s 0 H t" using a g f(2) L fk by (simp add: bmapped_def keeps_def)
    then show ?thesis using that [of 0 t H] a(2) e by simp
  qed
next
  case False
  then have kn: "NDIRECT \<le> k" by simp
  have H1: "length H < 28" "length H < 26" using H by simp_all
  have jk: "NDIRECT = NDIRECT \<and> NDIRECT \<le> k \<or> NDIRECT = k \<and> k < NDIRECT" using kn by simp
  note e = bmap_eq_tail [OF kn k, of sw ip s]
  show ?thesis
  proof (rule bmap_direct_ok [OF sw f H1(1) L jk])
    assume b: "i_addrs (itable s ip) NDIRECT \<noteq> 0" "bmap_direct sw ip NDIRECT s = Some (i_addrs (itable s ip) NDIRECT, s)"
    obtain a H' s' where "bmap_tail sw ip (k - NDIRECT) (i_addrs (itable s ip) NDIRECT) s = Some (a, s')" "bmapped p H ip k s a H' s'"
      "length H' \<le> length H + 3" by (rule bmap_tail_ok [OF sw f H1(2) L kn k refl b(1)])
    then show ?thesis using that [of a s' H'] e b by simp
  next
    fix b H1 t
    assume b: "i_addrs (itable s ip) NDIRECT = 0" "bmap_direct sw ip NDIRECT s = Some (b, t)" "b \<noteq> 0" "fs_ok p H1 t" "length H1 \<le> length H + 2"
      "fs_frame s t" "keeps s t" "grows ip k s t" "\<forall>l<MAXFILE. fmap t ip l = (if l = NDIRECT \<and> NDIRECT < NDIRECT then b else fmap s ip l)"
      "newblk s b t" "i_addrs (itable t ip) = (i_addrs (itable s ip))(NDIRECT := b)"
    have fm: "fmap t ip l = fmap s ip l" if "l < MAXFILE" for l using b(9) that by simp
    have ft: "file_ok t ip" by (rule file_ok_grows [OF f(2) b(8) k]) (use fm k in auto)
    have L1: "locked_bufs t = {}" using b(7) L by (simp add: keeps_def)
    have H2: "length H1 < 26" using b(5) H by simp
    have i: "i_addrs (itable t ip) NDIRECT = b" using b(11) by simp
    obtain a H' s' where a: "bmap_tail sw ip (k - NDIRECT) b t = Some (a, s')" "bmapped p H1 ip k t a H' s'"
      "length H' \<le> length H1 + 3" by (rule bmap_tail_ok [OF sw b(4) ft H2 L1 kn k i b(3)])
    have "fmap s ip k = 0" using kn b(1) by (simp add: fmap_def)
    moreover have "grows ip k s s'" using grows_trans [OF b(8) _ fm k] a(2) by (simp add: bmapped_def)
    ultimately have "bmapped p H ip k s a H' s'"
      using a(2) fs_frame_trans [OF b(6)] keeps_trans [OF b(7)] fs_frameD(1) [OF b(6)] by (simp add: bmapped_def)
    then show ?thesis using that [of a s' H'] e b(2,3,5) a(1,3) by simp
  next
    fix t
    assume a: "i_addrs (itable s ip) NDIRECT = 0" "bmap_direct sw ip NDIRECT s = Some (0, t)" "fs_ok p H t" "fs_frame s t" "keeps s t"
      "view t = view s" "itable t = itable s" "\<forall>c<unat (sb_size (sb s)). used t c"
    note g = grows_same [OF a(6,7) fs_frameD(1) [OF a(4)]]
    have "fmap s ip k = 0" using kn a(1) by (simp add: fmap_def)
    then have "bmapped p H ip k s 0 H t" using a g f(2) L by (simp add: bmapped_def keeps_def)
    then show ?thesis using that [of 0 t H] a(2) e by simp
  qed
qed

section \<open>The inode on disk\<close>

lemma IBLOCK_nat:
  assumes "disk_ok x" "unat i \<le> unat (sb_ninodes x)"
  shows "unat (IBLOCK i x) = unat (sb_inodestart x) + unat i div 16" "IBLOCK i x < 0x80000000" "unat (IBLOCK i x) < unat (sb_bmapstart x)"
proof -
  have d: "unat (sb_inodestart x) + unat (sb_ninodes x) div 16 < unat (sb_bmapstart x)" "unat (sb_bmapstart x) < 0x80000000"
    using assms(1) by (auto simp: disk_ok_def data_start_def)
  have "unat i div 16 \<le> unat (sb_ninodes x) div 16" using assms(2) by (rule div_le_mono)
  moreover have "unat (i div IPB) = unat i div 16" by (simp add: unat_div IPB_def BSIZE_def)
  ultimately show u: "unat (IBLOCK i x) = unat (sb_inodestart x) + unat i div 16"
    using d by (simp add: IBLOCK_def unat_word_ariths)
  then show "unat (IBLOCK i x) < unat (sb_bmapstart x)" "IBLOCK i x < 0x80000000"
    using d \<open>unat i div 16 \<le> unat (sb_ninodes x) div 16\<close> by (auto simp: word_less_nat_alt)
qed

lemma put_w_other:
  "i + LENGTH('a) div 8 \<le> length xs \<Longrightarrow> j < length xs \<Longrightarrow> j < i \<or> i + LENGTH('a) div 8 \<le> j \<Longrightarrow> put_w i (w :: 'a::len word) xs ! j = xs ! j"
  by (auto simp: put_w_def nth_patch)

lemma put_words:
  fixes f :: "nat \<Rightarrow> u32"
  assumes "b + 4 * n \<le> length d"
  shows "length (fold (\<lambda>k. put_w (b + 4 * k) (f k)) [0..<n] d) = length d \<and>
    (\<forall>j<n. get_w (b + 4 * j) (fold (\<lambda>k. put_w (b + 4 * k) (f k)) [0..<n] d) = f j) \<and>
    (\<forall>i<length d. i < b \<or> b + 4 * n \<le> i \<longrightarrow> fold (\<lambda>k. put_w (b + 4 * k) (f k)) [0..<n] d ! i = d ! i)"
  using assms
proof (induction n)
  case (Suc n)
  let ?e = "fold (\<lambda>k. put_w (b + 4 * k) (f k)) [0..<n] d"
  have e: "length ?e = length d" "\<forall>j<n. get_w (b + 4 * j) ?e = f j" "\<forall>i<length d. i < b \<or> b + 4 * n \<le> i \<longrightarrow> ?e ! i = d ! i"
    using Suc by auto
  have u: "fold (\<lambda>k. put_w (b + 4 * k) (f k)) [0..<Suc n] d = put_w (b + 4 * n) (f n) ?e" by simp
  have l: "b + 4 * n + 4 \<le> length ?e" using Suc.prems e(1) by simp
  have "get_w (b + 4 * j) (put_w (b + 4 * n) (f n) ?e) = f j" if "j < Suc n" for j
  proof (cases "j = n")
    case True
    have "get_w (b + 4 * n) (put_w (b + 4 * n) (f n) ?e) = f n" by (rule get_put_same) (use l in auto)
    then show ?thesis using True by simp
  next
    case False
    have "get_w (b + 4 * j) (put_w (b + 4 * n) (f n) ?e) = (get_w (b + 4 * j) ?e :: u32)"
      by (rule get_put_other) (use l that False in auto)
    then show ?thesis using e(2) that False by simp
  qed
  moreover have "put_w (b + 4 * n) (f n) ?e ! i = d ! i" if "i < length d" "i < b \<or> b + 4 * Suc n \<le> i" for i
    using that e(1,3) l by (auto simp: put_w_other)
  ultimately show ?case unfolding u using e(1) l by auto
qed simp

lemma get_w_cong: "(\<And>k. k < LENGTH('a) div 8 \<Longrightarrow> d ! (i + k) = e ! (i + k)) \<Longrightarrow> (get_w i d :: 'a::len word) = get_w i e"
  unfolding get_w_def by (rule le_word_cong) auto

text \<open>Reading an inode back from where it was written, and the rest of the block.\<close>

lemma dinode_put:
  assumes l: "dip + 64 \<le> length d"
  shows "length (put_dinode dip x d) = length d"
    "get_dinode dip (put_dinode dip x d) y = y\<lparr>i_type := i_type x, i_major := i_major x, i_minor := i_minor x,
      i_nlink := i_nlink x, i_size := i_size x, i_addrs := (\<lambda>k. if k < Suc NDIRECT then i_addrs x k else i_addrs y k)\<rparr>"
    "i < length d \<Longrightarrow> i < dip \<or> dip + 64 \<le> i \<Longrightarrow> put_dinode dip x d ! i = d ! i"
proof -
  define e where "e = put_w (dip + 8) (i_size x) (put_w (dip + 6) (i_nlink x) (put_w (dip + 4) (i_minor x)
    (put_w (dip + 2) (i_major x) (put_w dip (i_type x) d))))"
  have le: "length e = length d" using l by (simp add: e_def)
  have N: "dip + 12 + 4 * Suc NDIRECT = dip + 64" by (simp add: NDIRECT_def)
  note w = put_words [where b = "dip + 12" and n = "Suc NDIRECT" and d = e and f = "i_addrs x"]
  have p: "put_dinode dip x d = fold (\<lambda>k. put_w (dip + 12 + 4 * k) (i_addrs x k)) [0..<Suc NDIRECT] e"
    by (simp add: put_dinode_def e_def del: upt_Suc)
  have q: "length (put_dinode dip x d) = length d" "\<And>j. j < Suc NDIRECT \<Longrightarrow> get_w (dip + 12 + 4 * j) (put_dinode dip x d) = i_addrs x j"
    "\<And>i. i < length d \<Longrightarrow> i < dip + 12 \<or> dip + 64 \<le> i \<Longrightarrow> put_dinode dip x d ! i = e ! i"
    using w l le N unfolding p by auto
  show "length (put_dinode dip x d) = length d" by (rule q(1))
  have en: "e ! i = d ! i" if "i < length d" "i < dip \<or> dip + 12 \<le> i" for i
    using that(2) by (elim disjE) (use that(1) l in \<open>simp_all add: e_def put_w_other\<close>)
  show "put_dinode dip x d ! i = d ! i" if "i < length d" "i < dip \<or> dip + 64 \<le> i" for i
    using q(3) [OF that(1)] en [OF that(1)] that(2) by auto
  have g: "(get_w (dip + j) (put_dinode dip x d) :: u16) = get_w (dip + j) e" if "j \<le> 10" for j
    by (rule get_w_cong, rule q(3)) (use that l in auto)
  have h: "(get_w (dip + 8) (put_dinode dip x d) :: u32) = get_w (dip + 8) e"
    by (rule get_w_cong, rule q(3)) (use l in auto)
  have "get_w dip e = i_type x" "get_w (dip + 2) e = i_major x" "get_w (dip + 4) e = i_minor x" "get_w (dip + 6) e = i_nlink x"
    "get_w (dip + 8) e = i_size x"
    using l by (simp_all add: e_def get_put_other get_put_same)
  then show "get_dinode dip (put_dinode dip x d) y = y\<lparr>i_type := i_type x, i_major := i_major x, i_minor := i_minor x,
      i_nlink := i_nlink x, i_size := i_size x, i_addrs := (\<lambda>k. if k < Suc NDIRECT then i_addrs x k else i_addrs y k)\<rparr>"
    using g [of 0] g [of 2] g [of 4] g [of 6] h q(2) unfolding get_dinode_def by (simp cong: if_cong)
qed

lemma din_off_le: "din_off i + 64 \<le> BSIZE"
proof -
  have "unat (i mod IPB) < 16" by (simp add: IPB_def BSIZE_def unat_mod)
  then show ?thesis by (simp add: din_off_def BSIZE_def)
qed

lemma iupdate_ok:
  assumes sw: "waits_for_disk sw" and f: "fs_ok p H s" and i: "i_dev (itable s ip) = ROOTDEV" "unat (i_inum (itable s ip)) < unat (sb_ninodes (sb s))"
    and H: "length H < 29" and L: "locked_bufs s = {}"
  obtains s' where "iupdate sw ip s = Some s'" "fs_ok p (logged (IBLOCK (i_inum (itable s ip)) (sb s)) H) s'" "txn_frame s s'" "keeps s s'"
    "view s' = (view s)(IBLOCK (i_inum (itable s ip)) (sb s) :=
       put_dinode (din_off (i_inum (itable s ip))) (itable s ip) (view s (IBLOCK (i_inum (itable s ip)) (sb s))))"
    "\<forall>c<unat (sb_size (sb s)). used s' c = used s c"
proof -
  note d = fs_okD [OF f]
  let ?B = "IBLOCK (i_inum (itable s ip)) (sb s)" and ?o = "din_off (i_inum (itable s ip))"
  let ?d = "put_dinode ?o (itable s ip) (view s ?B)"
  note B = IBLOCK_nat [OF d(1) less_imp_le [OF i(2)]]
  have ld: "length ?d = BSIZE" using dinode_put(1) [of ?o "view s ?B"] din_off_le d(6) [OF B(2)] by simp
  obtain b s1 s2 s3 where r: "bread sw ROOTDEV ?B s = Some (b, s1)" "b_data (bufs s1 b) = view s ?B" "bio_frame s s1"
    "log_write b (set_data b ?d s1) = Some s2" "brelse b s2 = Some s3"
    "txn p (sb_logstart (sb s)) {} (logged ?B H) s3" "txn_frame s s3" "keeps s s3" "view s3 = (view s)(?B := ?d)"
    by (rule txn_update [OF sw d(2) B(2) _ _ H ld]) (use L in auto)
  note x = txn_frame_fs [OF r(7)]
  have u: "used s3 c = used s c" if "c < unat (sb_size (sb s))" for c
    by (rule used_bitmap [OF d(1) x(3) _ that]) (use r(9) B(3) in \<open>auto simp: bitmap_blk_def\<close>)
  have "locked_bufs s3 = {}" using r(8) L by (simp add: keeps_def)
  then have "fs_ok p (logged ?B H) s3" using d(1,4,5) r(6) x u by (auto simp: fs_ok_def calm_def disk_ok_def)
  moreover have "iupdate sw ip s = Some s3"
    using r bio_frame_fs(1,3) [OF r(3)] i(1) by (simp add: iupdate_def Let_def)
  ultimately show ?thesis using r u by (intro that [of s3]) auto
qed

end
