(* ===== verification/Fsio.thy ===== *)
theory Fsio
  imports Fsfile
begin

text \<open>
  The contents of files (readi and writei of kernel/fs.c).

  \<open>content\<close> is the file as a list of bytes, read through the block map of its inode. readi returns a
  part of it and changes nothing; writei replaces a part of it. The loops of both are treated one block at a
  time (\<open>readi_step\<close>, \<open>writei_step\<close>) and composed by induction on the bytes left.
\<close>

section \<open>File contents\<close>

definition fbyte :: "'z fs_state_scheme \<Rightarrow> nat \<Rightarrow> nat \<Rightarrow> u8" where
  "fbyte s ip i = view s (fmap s ip (i div BSIZE)) ! (i mod BSIZE)"

definition content :: "'z fs_state_scheme \<Rightarrow> nat \<Rightarrow> u8 list" where
  "content s ip = map (fbyte s ip) [0..<unat (i_size (itable s ip))]"

text \<open>Every block up to the size of the file is there.\<close>

definition complete :: "'z fs_state_scheme \<Rightarrow> nat \<Rightarrow> bool" where
  "complete s ip \<longleftrightarrow> unat (i_size (itable s ip)) \<le> MAXFILE * BSIZE \<and>
     (\<forall>k. k * BSIZE < unat (i_size (itable s ip)) \<longrightarrow> fmap s ip k \<noteq> 0)"

lemma MAXFILE_val: "MAXFILE = 268" "MAXFILE * BSIZE = 274432"
  by (simp_all add: MAXFILE_def NDIRECT_def NINDIRECT_def BSIZE_def)

lemma unat32: "n < 0x100000000 \<Longrightarrow> unat (of_nat n :: u32) = n"
  by (simp add: unat_of_nat)

lemma rw_step_nat:
  assumes "T < N" "N \<le> 274432" "x \<le> 274432"
  shows "rw_step (of_nat x) (of_nat T) (of_nat N) = of_nat (min (N - T) (BSIZE - x mod BSIZE))"
    "of_nat T < (of_nat N :: u32)" "unat (of_nat x div of_nat BSIZE :: u32) = x div BSIZE" "unat (of_nat x mod of_nat BSIZE :: u32) = x mod BSIZE"
proof -
  have u: "unat (of_nat T :: u32) = T" "unat (of_nat N :: u32) = N" "unat (of_nat x :: u32) = x" using assms by (simp_all add: unat_of_nat)
  show "of_nat T < (of_nat N :: u32)" using assms(1) u by (simp add: word_less_nat_alt)
  show d: "unat (of_nat x div of_nat BSIZE :: u32) = x div BSIZE" "unat (of_nat x mod of_nat BSIZE :: u32) = x mod BSIZE"
    using u by (simp_all add: unat_div unat_mod BSIZE_def)
  have a: "of_nat N - of_nat T = (of_nat (N - T) :: u32)" using assms(1) by (simp add: of_nat_diff)
  have "x mod BSIZE < BSIZE" by (simp add: BSIZE_def)
  moreover have w: "(of_nat x mod of_nat BSIZE :: u32) = of_nat (x mod BSIZE)"
    using d(2) by (simp add: word_unat_eq_iff unat_of_nat BSIZE_def)
  ultimately have b: "of_nat BSIZE - of_nat x mod of_nat BSIZE = (of_nat (BSIZE - x mod BSIZE) :: u32)"
    using w by (simp add: of_nat_diff)
  have "unat (of_nat (N - T) :: u32) = N - T" "unat (of_nat (BSIZE - x mod BSIZE) :: u32) = BSIZE - x mod BSIZE"
    by (rule unat32; use assms in \<open>simp add: BSIZE_def\<close>)+
  then show "rw_step (of_nat x) (of_nat T) (of_nat N) = of_nat (min (N - T) (BSIZE - x mod BSIZE))"
    unfolding rw_step_def a b by (simp add: min_def word_le_nat_alt)
qed

text \<open>A call that reads: the blocks, the inodes and the log are as before.\<close>

definition looks :: "nat \<Rightarrow> u32 list \<Rightarrow> 'z fs_state_scheme \<Rightarrow> 'z fs_state_scheme \<Rightarrow> bool" where
  "looks p H s s' \<longleftrightarrow> fs_ok p H s' \<and> locked_bufs s' = {} \<and> fs_frame s s' \<and> keeps s s' \<and> view s' = view s \<and> itable s' = itable s"

lemma looks_trans [trans]: "looks p H s s' \<Longrightarrow> looks p H s' s'' \<Longrightarrow> looks p H s s''"
  by (auto simp: looks_def intro: fs_frame_trans keeps_trans)

lemma looks_refl: "fs_ok p H s \<Longrightarrow> locked_bufs s = {} \<Longrightarrow> looks p H s s"
  by (simp add: looks_def)

lemma looks_same:
  assumes "looks p H s s'"
  shows "fmap s' ip l = fmap s ip l" "file_ok s' ip = file_ok s ip" "fbyte s' ip i = fbyte s ip i" "content s' ip = content s ip"
    "complete s' ip = complete s ip" "itable s' = itable s" "view s' = view s" "sb s' = sb s" "fs_ok p H s'" "locked_bufs s' = {}"
proof -
  have v: "view s' = view s" "itable s' = itable s" "sb s' = sb s" using assms fs_frameD(1) by (auto simp: looks_def)
  show f: "fmap s' ip l = fmap s ip l" for l by (rule grows_same(2) [OF v])
  show "file_ok s' ip = file_ok s ip" by (rule grows_same(3) [OF v])
  show "fbyte s' ip i = fbyte s ip i" for i using f v by (simp add: fbyte_def)
  then show "content s' ip = content s ip" using v by (simp add: content_def)
  show "complete s' ip = complete s ip" using f v by (simp add: complete_def)
  show "itable s' = itable s" "view s' = view s" "sb s' = sb s" by (rule v)+
  show "fs_ok p H s'" "locked_bufs s' = {}" using assms by (simp_all add: looks_def)
qed

lemma looks_bio:
  assumes f: "fs_ok p H s" and t: "txn p (sb_logstart (sb s)) {} H s'" "bio_frame s s'" "keeps s s'" "view s' = view s" and L: "locked_bufs s = {}"
  shows "looks p H s s'"
proof -
  note d = fs_okD [OF f] and x = bio_frame_fs [OF t(2)]
  have u: "used s' c = used s c" for c by (rule used_cong) (use t(4) x(3) in auto)
  have "locked_bufs s' = {}" using t(3) L by (simp add: keeps_def)
  then have "fs_ok p H s'" using d t(1) x u by (simp add: fs_ok_def calm_def)
  then show ?thesis using t x fs_frame_bio L by (simp add: looks_def keeps_def)
qed

lemma copyout_obj: "running p (hw s) \<Longrightarrow> either_copyout (Kobj bs) xs s = Some (0, s)"
  by (simp add: either_copyout_def kstep)

lemma copyin_obj: "running p (hw s) \<Longrightarrow> either_copyin (Kobj bs) n s = Some (0, take n bs, s)"
  by (simp add: either_copyin_def kstep)

lemma fs_ok_running: "fs_ok p H s \<Longrightarrow> running p (hw s)"
  using cache_okD(1) by (auto simp: fs_ok_def txn_def)

section \<open>readi\<close>

lemma same_block:
  fixes x :: nat
  assumes "x mod B + i < B"
  shows "(x + i) div B = x div B" "(x + i) mod B = x mod B + i"
proof -
  have e: "x + i = B * (x div B) + (x mod B + i)" by simp
  have "(B * q + r) div B = q" "(B * q + r) mod B = r" if "r < B" for q r using that by simp_all
  then show "(x + i) div B = x div B" "(x + i) mod B = x mod B + i" using assms by (metis e)+
qed

lemma block_bytes:
  assumes "x mod BSIZE + m \<le> BSIZE" "length (view s (fmap s ip (x div BSIZE))) = BSIZE" "0 < m"
  shows "take m (drop (x mod BSIZE) (view s (fmap s ip (x div BSIZE)))) = map (fbyte s ip) [x..<x + m]"
proof (rule nth_equalityI)
  fix i assume "i < length (take m (drop (x mod BSIZE) (view s (fmap s ip (x div BSIZE)))))"
  then have i: "i < m" by simp
  then have "x mod BSIZE + i < BSIZE" using assms(1) by simp
  then have "(x + i) div BSIZE = x div BSIZE" "(x + i) mod BSIZE = x mod BSIZE + i"
    using same_block by auto
  then show "take m (drop (x mod BSIZE) (view s (fmap s ip (x div BSIZE)))) ! i = map (fbyte s ip) [x..<x + m] ! i"
    using i assms by (simp add: fbyte_def)
qed (use assms in simp)

lemma readi_step:
  assumes sw: "waits_for_disk sw" and f: "fs_ok p H s" "file_ok s ip" and H: "length H < 24" and L: "locked_bufs s = {}"
    and k: "x div BSIZE < MAXFILE" "fmap s ip (x div BSIZE) \<noteq> 0" and T: "T < N" "N \<le> 274432" "x \<le> 274432"
  obtains s' where "readi_loop sw ip (Kobj bs) (of_nat x) (of_nat T) (of_nat N) out s =
      (let m = min (N - T) (BSIZE - x mod BSIZE) in
       readi_loop sw ip (Kobj (drop m bs)) (of_nat (x + m)) (of_nat (T + m)) (of_nat N) (out @ map (fbyte s ip) [x..<x + m]) s')"
    "looks p H s s'"
proof -
  let ?k = "x div BSIZE" and ?m = "min (N - T) (BSIZE - x mod BSIZE)"
  note w = rw_step_nat [OF T]
  have m: "0 < ?m" "x mod BSIZE + ?m \<le> BSIZE" using T(1) by (auto simp: BSIZE_def)
  obtain a H' s1 where b: "bmap sw ip ?k s = Some (a, s1)" "bmapped p H ip ?k s a H' s1"
    by (rule bmap_ok [OF sw f H L k(1)])
  have a: "a = fmap s ip ?k" and l1: "looks p H s s1"
    using b(2) k grows_same(2) [of s1 s ip ?k] by (auto simp: bmapped_def looks_def grows_def)
  note c1 = looks_same [OF l1]
  note d = fs_okD [OF c1(9)]
  have db: "data_blk s1 a" using file_okD(3) [of s1 ip ?k] c1(1,2) f(2) k a by simp
  note bb = data_blkD [OF d(1) db]
  have H1: "length H < 29" using H by simp
  obtain bp s2 s3 where r: "bread sw ROOTDEV a s1 = Some (bp, s2)" "b_data (bufs s2 bp) = view s1 a" "bio_frame s1 s2"
    "brelse bp s2 = Some s3" "txn p (sb_logstart (sb s1)) {} H s3" "bio_frame s1 s3" "keeps s1 s3" "view s3 = view s1"
    by (rule txn_peek [OF sw d(2) _ _ _ H1, of a]) (use bb c1(10) in auto)
  have l3: "looks p H s s3" by (rule looks_trans [OF l1 looks_bio [OF c1(9) r(5-8) c1(10)]])
  have hw: "running p (hw s2)" using fs_ok_running [OF c1(9)] bio_frame_fs(4) [OF r(3)] by simp
  have lv: "length (view s (fmap s ip ?k)) = BSIZE" using d(6) [of a] bb c1(7) a by simp
  have um: "unat (of_nat ?m :: u32) = ?m" by (rule unat32) (use T in simp)
  have bytes: "take ?m (drop (x mod BSIZE) (b_data (bufs s2 bp))) = map (fbyte s ip) [x..<x + ?m]"
    using block_bytes [OF m(2) lv m(1)] r(2) a c1(7) by simp
  have "readi_loop sw ip (Kobj bs) (of_nat x) (of_nat T) (of_nat N) out s =
      readi_loop sw ip (Kobj (drop ?m bs)) (of_nat (x + ?m)) (of_nat (T + ?m)) (of_nat N) (out @ map (fbyte s ip) [x..<x + ?m]) s3"
    by (subst readi_loop.simps)
      (use b(1) a k r(1,4) bytes um w copyout_obj [OF hw] file_okD(1) [OF f(2)] c1(6) in \<open>simp add: kplace_add_def Let_def\<close>)
  then show ?thesis using l3 by (intro that [of s3]) (simp_all add: Let_def)
qed

lemma readi_loop_done:
  "readi_loop sw ip dst x (of_nat N) (of_nat N) out s = Some (of_nat N, out, s)"
  by (subst readi_loop.simps) simp

lemma readi_loop_ok:
  assumes sw: "waits_for_disk sw" and H: "length H < 24"
  shows "fs_ok p H s \<Longrightarrow> file_ok s ip \<Longrightarrow> complete s ip \<Longrightarrow> locked_bufs s = {} \<Longrightarrow> T \<le> N \<Longrightarrow> N \<le> 274432 \<Longrightarrow>
    x + (N - T) \<le> unat (i_size (itable s ip)) \<Longrightarrow>
    \<exists>s'. readi_loop sw ip (Kobj bs) (of_nat x) (of_nat T) (of_nat N) out s =
      Some (of_nat N, out @ map (fbyte s ip) [x..<x + (N - T)], s') \<and> looks p H s s'"
proof (induction "N - T" arbitrary: T x bs out s rule: less_induct)
  case less
  show ?case
  proof (cases "T = N")
    case True
    then show ?thesis using less.prems by (auto simp: readi_loop_done intro: looks_refl)
  next
    case False
    then have T: "T < N" using less.prems(5) by simp
    have sz: "unat (i_size (itable s ip)) \<le> MAXFILE * BSIZE" "x < unat (i_size (itable s ip))"
      using less.prems(3,7) T by (auto simp: complete_def)
    have k: "x div BSIZE < MAXFILE" using sz by (simp add: less_mult_imp_div_less)
    have "x div BSIZE * BSIZE < unat (i_size (itable s ip))" using sz(2) div_times_less_eq_dividend order_le_less_trans by blast
    then have fk: "fmap s ip (x div BSIZE) \<noteq> 0" using less.prems(3) by (simp add: complete_def)
    have x: "x \<le> 274432" using sz by (simp only: MAXFILE_val(2))
    obtain m where md: "m = min (N - T) (BSIZE - x mod BSIZE)" and m: "0 < m" "m \<le> N - T" using T by (auto simp: BSIZE_def)
    obtain s1 where s1: "readi_loop sw ip (Kobj bs) (of_nat x) (of_nat T) (of_nat N) out s =
       readi_loop sw ip (Kobj (drop m bs)) (of_nat (x + m)) (of_nat (T + m)) (of_nat N) (out @ map (fbyte s ip) [x..<x + m]) s1"
      "looks p H s s1"
      using readi_step [OF sw less.prems(1,2) H less.prems(4) k fk T less.prems(6) x, of bs out] unfolding md Let_def by blast
    note c = looks_same [OF s1(2)]
    have e: "x + m + (N - (T + m)) = x + (N - T)" using m T by simp
    have "\<exists>s'. readi_loop sw ip (Kobj (drop m bs)) (of_nat (x + m)) (of_nat (T + m)) (of_nat N) (out @ map (fbyte s ip) [x..<x + m]) s1 =
        Some (of_nat N, (out @ map (fbyte s ip) [x..<x + m]) @ map (fbyte s1 ip) [x + m..<x + m + (N - (T + m))], s') \<and> looks p H s1 s'"
      by (rule less.hyps) (use less.prems c m T in auto)
    then obtain s' where s': "readi_loop sw ip (Kobj (drop m bs)) (of_nat (x + m)) (of_nat (T + m)) (of_nat N) (out @ map (fbyte s ip) [x..<x + m]) s1 =
        Some (of_nat N, (out @ map (fbyte s ip) [x..<x + m]) @ map (fbyte s1 ip) [x + m..<x + (N - T)], s')" "looks p H s1 s'"
      unfolding e by blast
    have "map (fbyte s ip) [x..<x + m] @ map (fbyte s1 ip) [x + m..<x + (N - T)] = map (fbyte s ip) [x..<x + (N - T)]"
      using upt_add_eq_append [of x "x + m" "N - (T + m)"] c(3) unfolding e by simp
    then show ?thesis using s1 s' looks_trans [OF s1(2) s'(2)] by simp
  qed
qed

text \<open>readi copies the part of the contents it is asked for, cut at the end of the file.\<close>

lemma readi_ok:
  assumes sw: "waits_for_disk sw" and H: "length H < 24" and f: "fs_ok p H s" "file_ok s ip" "complete s ip" "locked_bufs s = {}"
    and n: "unat x + unat n < 0x80000000"
  obtains s' where "readi sw ip (Kobj bs) x n s =
      Some (int (length (take (unat n) (drop (unat x) (content s ip)))), take (unat n) (drop (unat x) (content s ip)), s')"
    "looks p H s s'"
proof -
  let ?z = "unat (i_size (itable s ip))"
  have sz: "?z \<le> 274432" using f(3) by (simp only: complete_def MAXFILE_val(2))
  have un: "unat (x + n) = unat x + unat n" using n by (simp add: unat_word_ariths)
  have nov: "\<not> x + n < x" using un by (simp add: word_less_nat_alt)
  show ?thesis
  proof (cases "x > i_size (itable s ip)")
    case True
    then have "?z < unat x" by (simp add: word_less_nat_alt)
    then have "drop (unat x) (content s ip) = []" by (simp add: content_def)
    then show ?thesis using True looks_refl [OF f(1,4)] by (intro that [of s]) (simp_all add: readi_def)
  next
    case False
    then have x: "unat x \<le> ?z" by (simp add: word_less_nat_alt)
    let ?N = "min (unat n) (?z - unat x)"
    have lt: "x + n > i_size (itable s ip) \<longleftrightarrow> ?z < unat x + unat n" by (simp add: word_less_nat_alt un)
    have sub: "unat (i_size (itable s ip) - x) = ?z - unat x" by (rule unat_sub) (use x in \<open>simp add: word_le_nat_alt\<close>)
    have nn: "(if x + n > i_size (itable s ip) then i_size (itable s ip) - x else n) = of_nat ?N"
      using x sub unat32 [of ?N] n unfolding lt by (auto simp: word_unat_eq_iff min_def unat_of_nat)
    have "\<exists>s'. readi_loop sw ip (Kobj bs) (of_nat (unat x)) (of_nat 0) (of_nat ?N) [] s =
      Some (of_nat ?N, [] @ map (fbyte s ip) [unat x..<unat x + (?N - 0)], s') \<and> looks p H s s'"
      by (rule readi_loop_ok [OF sw H f]) (use x sz in auto)
    then obtain s' where s': "readi_loop sw ip (Kobj bs) x 0 (of_nat ?N) [] s =
      Some (of_nat ?N, map (fbyte s ip) [unat x..<unat x + ?N], s')" "looks p H s s'" by auto
    have c: "take (unat n) (drop (unat x) (content s ip)) = map (fbyte s ip) [unat x..<unat x + ?N]"
      using x by (auto simp: content_def drop_map take_map min_def take_upt)
    have "sint (of_nat ?N :: u32) = int ?N" using sint_int32 [of "int ?N"] sz by simp
    then have "readi sw ip (Kobj bs) x n s = Some (int ?N, map (fbyte s ip) [unat x..<unat x + ?N], s')"
      using False nov s'(1) nn by (simp add: readi_def)
    then show ?thesis using s'(2) by (intro that [of s']) (simp_all add: c)
  qed
qed

section \<open>writei\<close>

text \<open>Bytes bs are now in the file at offset x; the rest of the file, the other files and the inodes on
  disk are as before.\<close>

definition wrote :: "nat \<Rightarrow> nat \<Rightarrow> u8 list \<Rightarrow> 'z fs_state_scheme \<Rightarrow> 'z fs_state_scheme \<Rightarrow> bool" where
  "wrote ip x bs s s' \<longleftrightarrow> sb s' = sb s \<and> (\<forall>j. j \<noteq> ip \<longrightarrow> itable s' j = itable s j) \<and>
     itable s' ip = (itable s ip)\<lparr>i_addrs := i_addrs (itable s' ip)\<rparr> \<and>
     (\<forall>c<unat (sb_size (sb s)). used s c \<longrightarrow> used s' c) \<and>
     (\<forall>l<MAXFILE. fmap s' ip l = fmap s ip l \<or> fmap s ip l = 0 \<and> newblk s (fmap s' ip l) s') \<and>
     (i_addrs (itable s' ip) NDIRECT = i_addrs (itable s ip) NDIRECT \<or>
        i_addrs (itable s ip) NDIRECT = 0 \<and> newblk s (i_addrs (itable s' ip) NDIRECT) s') \<and>
     (\<forall>i. x \<le> i \<longrightarrow> i < x + length bs \<longrightarrow> fmap s' ip (i div BSIZE) \<noteq> 0 \<and> fbyte s' ip i = bs ! (i - x)) \<and>
     (\<forall>i. i div BSIZE < MAXFILE \<longrightarrow> fmap s ip (i div BSIZE) \<noteq> 0 \<longrightarrow> \<not> (x \<le> i \<and> i < x + length bs) \<longrightarrow> fbyte s' ip i = fbyte s ip i) \<and>
     (\<forall>bn. data_blk s bn \<longrightarrow> (\<forall>l<MAXFILE. bn \<noteq> fmap s ip l) \<longrightarrow> bn \<noteq> i_addrs (itable s ip) NDIRECT \<longrightarrow> view s' bn = view s bn) \<and>
     (\<forall>bn. unat bn < unat (sb_bmapstart (sb s)) \<longrightarrow> view s' bn = view s bn)"

lemma wroteD:
  assumes "wrote ip x bs s s'"
  shows "sb s' = sb s" "j \<noteq> ip \<Longrightarrow> itable s' j = itable s j" "itable s' ip = (itable s ip)\<lparr>i_addrs := i_addrs (itable s' ip)\<rparr>"
    "c < unat (sb_size (sb s)) \<Longrightarrow> used s c \<Longrightarrow> used s' c"
    "l < MAXFILE \<Longrightarrow> fmap s' ip l = fmap s ip l \<or> fmap s ip l = 0 \<and> newblk s (fmap s' ip l) s'"
    "i_addrs (itable s' ip) NDIRECT = i_addrs (itable s ip) NDIRECT \<or>
        i_addrs (itable s ip) NDIRECT = 0 \<and> newblk s (i_addrs (itable s' ip) NDIRECT) s'"
    "x \<le> i \<Longrightarrow> i < x + length bs \<Longrightarrow> fmap s' ip (i div BSIZE) \<noteq> 0 \<and> fbyte s' ip i = bs ! (i - x)"
    "i div BSIZE < MAXFILE \<Longrightarrow> fmap s ip (i div BSIZE) \<noteq> 0 \<Longrightarrow> \<not> (x \<le> i \<and> i < x + length bs) \<Longrightarrow> fbyte s' ip i = fbyte s ip i"
    "data_blk s bn \<Longrightarrow> \<forall>l<MAXFILE. bn \<noteq> fmap s ip l \<Longrightarrow> bn \<noteq> i_addrs (itable s ip) NDIRECT \<Longrightarrow> view s' bn = view s bn"
    "unat bn < unat (sb_bmapstart (sb s)) \<Longrightarrow> view s' bn = view s bn"
  using assms unfolding wrote_def by blast+

lemma wrote_nil [simp]: "wrote ip x [] s s"
  by (simp add: wrote_def)

lemma wrote_trans:
  assumes 1: "wrote ip x bs s s1" and 2: "wrote ip (x + length bs) cs s1 s2" and M: "x + length bs + length cs \<le> MAXFILE * BSIZE"
  shows "wrote ip x (bs @ cs) s s2"
proof -
  note a = wroteD [OF 1] and b = wroteD [OF 2]
  have n: "newblk s1 c s2 \<Longrightarrow> newblk s c s2" "newblk s c s1 \<Longrightarrow> newblk s c s2" for c
    using a(1,4) b(4) unfolding newblk_def by metis+
  have db: "data_blk s1 bn" if "data_blk s bn" for bn using that a(1,4) by (auto simp: data_blk_def)
  have fm: "fmap s2 ip l = fmap s ip l \<or> fmap s ip l = 0 \<and> newblk s (fmap s2 ip l) s2" if "l < MAXFILE" for l
    using a(5) [OF that] b(5) [OF that] n by metis
  have ia: "i_addrs (itable s2 ip) NDIRECT = i_addrs (itable s ip) NDIRECT \<or>
      i_addrs (itable s ip) NDIRECT = 0 \<and> newblk s (i_addrs (itable s2 ip) NDIRECT) s2" using a(6) b(6) n by metis
  have w: "fmap s2 ip (i div BSIZE) \<noteq> 0 \<and> fbyte s2 ip i = (bs @ cs) ! (i - x)" if i: "x \<le> i" "i < x + length (bs @ cs)" for i
  proof (cases "i < x + length bs")
    case True
    have k: "i div BSIZE < MAXFILE" using i(2) M by (simp add: less_mult_imp_div_less)
    note c = a(7) [OF i(1) True]
    then have "fmap s2 ip (i div BSIZE) = fmap s1 ip (i div BSIZE)" using b(5) [OF k] by auto
    moreover have "fbyte s2 ip i = fbyte s1 ip i" using b(8) [OF k] c True by simp
    moreover have "i - x < length bs" using True i(1) by simp
    ultimately show ?thesis using c by (simp add: nth_append)
  next
    case False
    then have "\<not> i - x < length bs" "i - x - length bs = i - (x + length bs)" using i(1) by auto
    then show ?thesis using b(7) [of i] i False by (simp add: nth_append)
  qed
  have k: "fbyte s2 ip i = fbyte s ip i" if i: "i div BSIZE < MAXFILE" "fmap s ip (i div BSIZE) \<noteq> 0" "\<not> (x \<le> i \<and> i < x + length (bs @ cs))" for i
    using a(5) [OF i(1)] a(8) [OF i(1,2)] b(8) [OF i(1)] i(2,3) by auto
  have o: "view s2 bn = view s bn" if bn: "data_blk s bn" "\<forall>l<MAXFILE. bn \<noteq> fmap s ip l" "bn \<noteq> i_addrs (itable s ip) NDIRECT" for bn
  proof -
    have "bn \<noteq> i_addrs (itable s1 ip) NDIRECT" "\<forall>l<MAXFILE. bn \<noteq> fmap s1 ip l"
      using a(5,6) bn newblk_not_data by metis+
    then show ?thesis using a(9) [OF bn] b(9) [OF db [OF bn(1)]] by simp
  qed
  have it: "itable s2 ip = (itable s ip)\<lparr>i_addrs := i_addrs (itable s2 ip)\<rparr>"
    using a(3) b(3) by (metis inode.surjective inode.update_convs(10))
  have "\<forall>c<unat (sb_size (sb s)). used s c \<longrightarrow> used s2 c" "\<forall>j. j \<noteq> ip \<longrightarrow> itable s2 j = itable s j" "sb s2 = sb s"
    "\<forall>bn. unat bn < unat (sb_bmapstart (sb s)) \<longrightarrow> view s2 bn = view s bn"
    using a b by simp_all
  then show ?thesis unfolding wrote_def using it fm ia w k o by blast
qed

lemma grows_wrote:
  assumes g: "grows ip k s s'" and f: "file_ok s ip"
  shows "wrote ip x [] s s'"
proof -
  have fm: "fmap s' ip l = fmap s ip l \<or> fmap s ip l = 0 \<and> newblk s (fmap s' ip l) s'" if "l < MAXFILE" for l
    using g that unfolding grows_def by metis
  have "fbyte s' ip i = fbyte s ip i" if i: "i div BSIZE < MAXFILE" "fmap s ip (i div BSIZE) \<noteq> 0" for i
  proof -
    have "fmap s' ip (i div BSIZE) = fmap s ip (i div BSIZE)" using fm [OF i(1)] i(2) by auto
    moreover have "view s' (fmap s ip (i div BSIZE)) = view s (fmap s ip (i div BSIZE))"
      using g file_okD(3,4) [OF f i] by (simp add: grows_def)
    ultimately show ?thesis by (simp add: fbyte_def)
  qed
  then show ?thesis using g fm unfolding wrote_def grows_def by simp
qed

text \<open>Overwriting part of one block of the file.\<close>

lemma wrote_block:
  assumes f: "fs_ok p H s" "file_ok s ip" and k: "x div BSIZE < MAXFILE" "fmap s ip (x div BSIZE) = a" "a \<noteq> 0"
    and v: "view s' = (view s)(a := patch (x mod BSIZE) bs (view s a))" and e: "sb s' = sb s" "itable s' = itable s" "panicked s' = panicked s"
    and b: "x mod BSIZE + length bs \<le> BSIZE" "bs \<noteq> []" and t: "txn p (sb_logstart (sb s)) {} H' s'" "locked_bufs s' = {}"
  shows "wrote ip x bs s s'" "file_ok s' ip" "fs_ok p H' s'"
proof -
  note d = fs_okD [OF f(1)] and g = file_okD [OF f(2)]
  have db: "data_blk s a" using g(3) k by metis
  have na: "a \<noteq> i_addrs (itable s ip) NDIRECT" using g(4) k by metis
  note w = fs_ok_write [OF f(1) db v e(1,3) t]
  show "fs_ok p H' s'" by (rule w(1))
  have fm: "fmap s' ip l = fmap s ip l" for l using v e(2) na by (simp add: fmap_def Let_def)
  have dd: "data_blk s' c = data_blk s c" for c using w(2) e(1) by (auto simp: data_blk_def)
  show "file_ok s' ip" using f(2) fm dd e by (simp add: file_ok_def)
  have la: "length (view s a) = BSIZE" using d(6) data_blkD [OF d(1) db] by blast
  have "fmap s' ip (i div BSIZE) \<noteq> 0 \<and> fbyte s' ip i = bs ! (i - x)" if i: "x \<le> i" "i < x + length bs" for i
  proof -
    have "x mod BSIZE + (i - x) < BSIZE" using b(1) i by simp
    from same_block [OF this] have j: "i div BSIZE = x div BSIZE" "i mod BSIZE = x mod BSIZE + (i - x)" using i by auto
    then have "fbyte s' ip i = patch (x mod BSIZE) bs (view s a) ! (x mod BSIZE + (i - x))" using k(2) fm v by (simp add: fbyte_def)
    also have "\<dots> = bs ! (i - x)" by (subst nth_patch) (use b(1) i la in auto)
    finally show ?thesis using j fm k by simp
  qed
  moreover have "fbyte s' ip i = fbyte s ip i" if i: "i div BSIZE < MAXFILE" "fmap s ip (i div BSIZE) \<noteq> 0" "\<not> (x \<le> i \<and> i < x + length bs)" for i
  proof (cases "i div BSIZE = x div BSIZE")
    case True
    have "patch (x mod BSIZE) bs (view s a) ! (i mod BSIZE) = view s a ! (i mod BSIZE)"
    proof (subst nth_patch)
      have "i = x div BSIZE * BSIZE + i mod BSIZE" using div_mult_mod_eq [of i BSIZE] True by simp
      moreover have "x = x div BSIZE * BSIZE + x mod BSIZE" by simp
      ultimately have "\<not> (x mod BSIZE \<le> i mod BSIZE \<and> i mod BSIZE < x mod BSIZE + length bs)" using i(3) by linarith
      then show "(if x mod BSIZE \<le> i mod BSIZE \<and> i mod BSIZE < x mod BSIZE + length bs then bs ! (i mod BSIZE - x mod BSIZE)
        else view s a ! (i mod BSIZE)) = view s a ! (i mod BSIZE)" by (simp only: if_False)
    qed (use b(1) la in \<open>auto simp: BSIZE_def\<close>)
    then show ?thesis using True k(2) fm v by (simp add: fbyte_def)
  next
    case False
    then have "fmap s ip (i div BSIZE) \<noteq> a" using g(6) [OF i(1) k(1)] i(2) k(2) by auto
    then show ?thesis using fm v by (simp add: fbyte_def)
  qed
  moreover have "view s' bn = view s bn" if "\<forall>l<MAXFILE. bn \<noteq> fmap s ip l" for bn using v that k by auto
  moreover have "view s' bn = view s bn" if "unat bn < unat (sb_bmapstart (sb s))" for bn
    using v that db by (auto simp: data_blk_def data_start_def)
  ultimately show "wrote ip x bs s s'" using e fm w(2) unfolding wrote_def by simp
qed

text \<open>The state after writing bs at x: consistent, and nothing else has changed.\<close>

definition wrote_ok :: "nat \<Rightarrow> nat \<Rightarrow> nat \<Rightarrow> u8 list \<Rightarrow> 'z fs_state_scheme \<Rightarrow> u32 list \<Rightarrow> 'z fs_state_scheme \<Rightarrow> bool" where
  "wrote_ok p ip x bs s H' s' \<longleftrightarrow> fs_ok p H' s' \<and> file_ok s' ip \<and> locked_bufs s' = {} \<and> fs_frame s s' \<and> keeps s s' \<and> wrote ip x bs s s'"

lemma wrote_ok_trans:
  "wrote_ok p ip x bs s H1 s1 \<Longrightarrow> wrote_ok p ip (x + length bs) cs s1 H2 s2 \<Longrightarrow> x + length bs + length cs \<le> MAXFILE * BSIZE \<Longrightarrow>
    wrote_ok p ip x (bs @ cs) s H2 s2"
  by (auto simp: wrote_ok_def intro: fs_frame_trans keeps_trans wrote_trans)

lemma writei_step:
  assumes sw: "waits_for_disk sw" and f: "fs_ok p H s" "file_ok s ip" and H: "length H < 24" and L: "locked_bufs s = {}"
    and k: "x div BSIZE < MAXFILE" and T: "T < N" "N \<le> 274432" "x \<le> 274432" and bs: "N - T \<le> length bs"
    and m: "m = min (N - T) (BSIZE - x mod BSIZE)"
  obtains (stop) H' s' where "writei_loop sw ip (Kobj bs) (of_nat x) (of_nat T) (of_nat N) s = Some (of_nat T, of_nat x, s')"
      "wrote_ok p ip x [] s H' s'" "length H' \<le> length H + 6" "\<forall>c<unat (sb_size (sb s)). used s' c"
    | (go) H' s' where "writei_loop sw ip (Kobj bs) (of_nat x) (of_nat T) (of_nat N) s =
        writei_loop sw ip (Kobj (drop m bs)) (of_nat (x + m)) (of_nat (T + m)) (of_nat N) s'"
      "wrote_ok p ip x (take m bs) s H' s'" "length H' \<le> length H + 6"
proof -
  let ?k = "x div BSIZE"
  note w = rw_step_nat [OF T]
  have mm: "0 < m" "x mod BSIZE + m \<le> BSIZE" "m \<le> N - T" using T(1) m by (auto simp: BSIZE_def)
  have mb: "length (take m bs) = m" "take m bs \<noteq> []" using bs mm by auto
  have "Suc ?k * BSIZE \<le> MAXFILE * BSIZE" using k by (intro mult_le_mono1) simp
  then have xm: "x + m \<le> MAXFILE * BSIZE" using mm(2) div_mult_mod_eq [of x BSIZE] by (simp only: mult_Suc)
  obtain a H1 s1 where b: "bmap sw ip ?k s = Some (a, s1)" "bmapped p H ip ?k s a H1 s1" "length H1 \<le> length H + 5"
    by (rule bmap_ok [OF sw f H L k])
  have f1: "fs_ok p H1 s1" "locked_bufs s1 = {}" "fs_frame s s1" "keeps s s1" "grows ip ?k s s1" "file_ok s1 ip" "a = fmap s1 ip ?k"
    "a = 0 \<longrightarrow> (\<forall>c<unat (sb_size (sb s)). used s1 c)" using b(2) by (auto simp: bmapped_def)
  have w1: "wrote_ok p ip x [] s H1 s1" using f1 grows_wrote [OF f1(5) f(2)] by (simp add: wrote_ok_def)
  show ?thesis
  proof (cases "a = 0")
    case True
    then have "writei_loop sw ip (Kobj bs) (of_nat x) (of_nat T) (of_nat N) s = Some (of_nat T, of_nat x, s1)"
      using b(1) w(2,3) by (subst writei_loop.simps) simp
    then show ?thesis using stop w1 b(3) f1(8) True by simp
  next
    case False
    note d = fs_okD [OF f1(1)]
    have db: "data_blk s1 a" using file_okD(3) [OF f1(6) k] f1(7) False by simp
    note bb = data_blkD [OF d(1) db]
    let ?dat = "patch (x mod BSIZE) (take m bs) (view s1 a)"
    have la: "length (view s1 a) = BSIZE" using d(6) bb by blast
    have ld: "length ?dat = BSIZE" using la mm(2) mb(1) by simp
    have H1: "length H1 < 29" using b(3) H by simp
    obtain bp s2 s3 s4 where r: "bread sw ROOTDEV a s1 = Some (bp, s2)" "b_data (bufs s2 bp) = view s1 a" "bio_frame s1 s2"
      "log_write bp (set_data bp ?dat s2) = Some s3" "brelse bp s3 = Some s4"
      "txn p (sb_logstart (sb s1)) {} (logged a H1) s4" "txn_frame s1 s4" "keeps s1 s4" "view s4 = (view s1)(a := ?dat)"
      by (rule txn_update [OF sw d(2) _ _ _ H1 ld, of a]) (use bb f1(2) in auto)
    note x4 = txn_frame_fs [OF r(7)]
    have L4: "locked_bufs s4 = {}" using r(8) f1(2) by (simp add: keeps_def)
    have l1: "x mod BSIZE + length (take m bs) \<le> BSIZE" using mb mm by simp
    note wb = wrote_block [OF f1(1,6) k f1(7) [symmetric] False r(9) x4(3,1,5) l1 mb(2) r(6) L4]
    have "wrote_ok p ip (x + length ([] :: u8 list)) (take m bs) s1 (logged a H1) s4"
      using wb L4 fs_frame_txn [OF r(7)] r(8) by (simp add: wrote_ok_def)
    then have "wrote_ok p ip x ([] @ take m bs) s (logged a H1) s4"
      by (rule wrote_ok_trans [OF w1]) (use mb xm in simp)
    moreover have hw: "running p (hw s2)" using fs_ok_running [OF f1(1)] bio_frame_fs(4) [OF r(3)] by simp
    have um: "unat (of_nat m :: u32) = m" by (rule unat32) (use mm T in simp)
    have dev: "i_dev (itable s1 ip) = ROOTDEV" using file_okD(1) [OF f1(6)] .
    have "writei_loop sw ip (Kobj bs) (of_nat x) (of_nat T) (of_nat N) s =
        writei_loop sw ip (Kobj (drop m bs)) (of_nat (x + m)) (of_nat (T + m)) (of_nat N) s4"
      by (subst writei_loop.simps)
        (use b(1) False r um w copyin_obj [OF hw] dev in \<open>simp add: kplace_add_def Let_def m [symmetric]\<close>)
    ultimately show ?thesis using go b(3) by (auto simp: logged_def split: if_splits)
  qed
qed

text \<open>The number of blocks the bytes from x to x + r touch.\<close>

definition span :: "nat \<Rightarrow> nat \<Rightarrow> nat" where
  "span x r = (x mod BSIZE + r + BSIZE - 1) div BSIZE"

lemma span_step:
  assumes "0 < r" "m = min r (BSIZE - x mod BSIZE)"
  shows "0 < span x r" "m < r \<Longrightarrow> span x r = Suc (span (x + m) (r - m))"
proof -
  have B: "0 < BSIZE" "x mod BSIZE < BSIZE" by (simp_all add: BSIZE_def)
  show "0 < span x r" using assms(1) B by (simp add: span_def div_greater_zero_iff)
  assume m: "m < r"
  then have e: "m = BSIZE - x mod BSIZE" using assms(2) by simp
  have "(x + m) mod BSIZE = (x mod BSIZE + m) mod BSIZE" by (simp add: mod_add_left_eq)
  then have "(x + m) mod BSIZE = 0" using e B by simp
  then have "span (x + m) (r - m) = (r - m + BSIZE - 1) div BSIZE" by (simp add: span_def)
  moreover have "span x r = ((r - m + BSIZE - 1) + BSIZE) div BSIZE"
    unfolding span_def by (rule arg_cong [where f = "\<lambda>a. a div BSIZE"]) (use e m B in simp)
  then have "span x r = Suc ((r - m + BSIZE - 1) div BSIZE)" using B(1) by (simp only: div_add_self2)
  ultimately show "span x r = Suc (span (x + m) (r - m))" by simp
qed

lemma writei_loop_done: "writei_loop sw ip src x (of_nat N) (of_nat N) s = Some (of_nat N, x, s)"
  by (subst writei_loop.simps) simp

lemma writei_loop_ok:
  assumes sw: "waits_for_disk sw"
  shows "fs_ok p H s \<Longrightarrow> file_ok s ip \<Longrightarrow> locked_bufs s = {} \<Longrightarrow> T \<le> N \<Longrightarrow> N \<le> 274432 \<Longrightarrow> x + (N - T) \<le> MAXFILE * BSIZE \<Longrightarrow>
    N - T \<le> length bs \<Longrightarrow> length H + 6 * span x (N - T) < 30 \<Longrightarrow>
    \<exists>r H' s'. r \<le> N - T \<and> writei_loop sw ip (Kobj bs) (of_nat x) (of_nat T) (of_nat N) s = Some (of_nat (T + r), of_nat (x + r), s') \<and>
      wrote_ok p ip x (take r bs) s H' s' \<and> length H' \<le> length H + 6 * span x (N - T) \<and>
      (r < N - T \<longrightarrow> (\<forall>c<unat (sb_size (sb s)). used s' c))"
proof (induction "N - T" arbitrary: T x bs H s rule: less_induct)
  case less
  show ?case
  proof (cases "T = N")
    case True
    then show ?thesis using less.prems by (intro exI [of _ 0] exI [of _ H] exI [of _ s]) (simp add: writei_loop_done wrote_ok_def)
  next
    case False
    then have T: "T < N" using less.prems(4) by simp
    have x: "x < MAXFILE * BSIZE" using less.prems(6) T by simp
    have k: "x div BSIZE < MAXFILE" using x by (simp add: less_mult_imp_div_less)
    have x2: "x \<le> 274432" using x by (simp only: MAXFILE_val(2))
    define m where m: "m = min (N - T) (BSIZE - x mod BSIZE)"
    have mm: "0 < m" "m \<le> N - T" using T m by (auto simp: BSIZE_def)
    have r0: "0 < N - T" using T by simp
    note sp = span_step [OF r0 m]
    have H: "length H < 24" using less.prems(8) sp(1) by simp
    show ?thesis
    proof (rule writei_step [OF sw less.prems(1,2) H less.prems(3) k T less.prems(5) x2 less.prems(7) m])
      fix H' s'
      assume "writei_loop sw ip (Kobj bs) (of_nat x) (of_nat T) (of_nat N) s = Some (of_nat T, of_nat x, s')"
        "wrote_ok p ip x [] s H' s'" "length H' \<le> length H + 6" "\<forall>c<unat (sb_size (sb s)). used s' c"
      then show ?thesis using sp(1) by (intro exI [of _ 0] exI [of _ H'] exI [of _ s']) auto
    next
      fix H1 s1
      assume s1: "writei_loop sw ip (Kobj bs) (of_nat x) (of_nat T) (of_nat N) s =
          writei_loop sw ip (Kobj (drop m bs)) (of_nat (x + m)) (of_nat (T + m)) (of_nat N) s1"
        "wrote_ok p ip x (take m bs) s H1 s1" "length H1 \<le> length H + 6"
      have f1: "fs_ok p H1 s1" "file_ok s1 ip" "locked_bufs s1 = {}" using s1(2) by (simp_all add: wrote_ok_def)
      have sb1: "sb s1 = sb s" using s1(2) wroteD(1) by (auto simp: wrote_ok_def)
      have lm: "length (take m bs) = m" using less.prems(7) mm by simp
      show ?thesis
      proof (cases "m = N - T")
        case True
        then have "T + m = N" using T by simp
        then have "writei_loop sw ip (Kobj bs) (of_nat x) (of_nat T) (of_nat N) s = Some (of_nat (T + m), of_nat (x + m), s1)"
          using s1(1) writei_loop_done [of sw ip _ _ N s1] by simp
        then show ?thesis using s1(2,3) sp(1) True by (intro exI [of _ m] exI [of _ H1] exI [of _ s1]) auto
      next
        case ne: False
        then have lt: "m < N - T" using mm by simp
        have sp2: "span x (N - T) = Suc (span (x + m) (N - (T + m)))" using sp(2) [OF lt] by simp
        have "\<exists>r H' s'. r \<le> N - (T + m) \<and>
            writei_loop sw ip (Kobj (drop m bs)) (of_nat (x + m)) (of_nat (T + m)) (of_nat N) s1 = Some (of_nat (T + m + r), of_nat (x + m + r), s') \<and>
            wrote_ok p ip (x + m) (take r (drop m bs)) s1 H' s' \<and> length H' \<le> length H1 + 6 * span (x + m) (N - (T + m)) \<and>
            (r < N - (T + m) \<longrightarrow> (\<forall>c<unat (sb_size (sb s1)). used s' c))"
        proof (rule less.hyps [of "T + m" H1 s1 "x + m" "drop m bs"])
          show "length H1 + 6 * span (x + m) (N - (T + m)) < 30" using less.prems(8) s1(3) sp2 by simp
        qed (use less.prems(5,6,7) lt mm f1 in simp_all)
        then obtain r H' s' where r: "r \<le> N - (T + m)"
            "writei_loop sw ip (Kobj (drop m bs)) (of_nat (x + m)) (of_nat (T + m)) (of_nat N) s1 = Some (of_nat (T + m + r), of_nat (x + m + r), s')"
            "wrote_ok p ip (x + m) (take r (drop m bs)) s1 H' s'" "length H' \<le> length H1 + 6 * span (x + m) (N - (T + m))"
            "r < N - (T + m) \<longrightarrow> (\<forall>c<unat (sb_size (sb s1)). used s' c)" by blast
        have "wrote_ok p ip x (take m bs @ take r (drop m bs)) s H' s'"
          by (rule wrote_ok_trans [OF s1(2)]) (use r(1,3) lm less.prems(6,7) mm T in auto)
        then have "wrote_ok p ip x (take (m + r) bs) s H' s'" by (simp add: take_add)
        then show ?thesis using r(1,2,4,5) s1(1,3) sp2 sb1 mm T
          by (intro exI [of _ "m + r"] exI [of _ H'] exI [of _ s']) (auto simp: add.assoc)
      qed
    qed
  qed
qed

lemma wrote_content:
  assumes w: "wrote ip x bs s s1" and c: "complete s ip" and x: "x \<le> unat (i_size (itable s ip))" "x + length bs \<le> MAXFILE * BSIZE"
    and e: "\<And>i. i div BSIZE < MAXFILE \<Longrightarrow> fmap s1 ip (i div BSIZE) \<noteq> 0 \<Longrightarrow> fbyte s2 ip i = fbyte s1 ip i" "\<And>l. fmap s2 ip l = fmap s1 ip l"
      "unat (i_size (itable s2 ip)) = max (unat (i_size (itable s ip))) (x + length bs)"
  shows "content s2 ip = take x (content s ip) @ bs @ drop (x + length bs) (content s ip)" "complete s2 ip"
proof -
  let ?z = "unat (i_size (itable s ip))"
  have z: "?z \<le> MAXFILE * BSIZE" using c by (simp add: complete_def)
  note w = wroteD [OF w]
  have old: "i div BSIZE < MAXFILE" "fmap s ip (i div BSIZE) \<noteq> 0" if "i < ?z" for i
  proof -
    show "i div BSIZE < MAXFILE" using that z by (simp add: less_mult_imp_div_less)
    have "i div BSIZE * BSIZE < ?z" using that div_times_less_eq_dividend order_le_less_trans by blast
    then show "fmap s ip (i div BSIZE) \<noteq> 0" using c by (simp add: complete_def)
  qed
  have b: "fbyte s2 ip i = (if x \<le> i \<and> i < x + length bs then bs ! (i - x) else fbyte s ip i)" if "i < max ?z (x + length bs)" for i
  proof (cases "x \<le> i \<and> i < x + length bs")
    case True
    then have "i div BSIZE < MAXFILE" using x(2) by (simp add: less_mult_imp_div_less)
    then show ?thesis using w(7) [of i] True e(1) [of i] by simp
  next
    case False
    then have i: "i < ?z" using that x(1) by auto
    have "fmap s1 ip (i div BSIZE) \<noteq> 0" using old [OF i] w(5) [of "i div BSIZE"] by auto
    then show ?thesis using False old [OF i] w(8) [of i] e(1) [of i] by auto
  qed
  show "content s2 ip = take x (content s ip) @ bs @ drop (x + length bs) (content s ip)"
  proof (rule nth_equalityI)
    show l: "length (content s2 ip) = length (take x (content s ip) @ bs @ drop (x + length bs) (content s ip))"
      using x(1) e(3) by (auto simp: content_def max_def)
    fix i assume "i < length (content s2 ip)"
    then have i: "i < max ?z (x + length bs)" using e(3) by (simp add: content_def)
    then show "content s2 ip ! i = (take x (content s ip) @ bs @ drop (x + length bs) (content s ip)) ! i"
      using x(1) e(3) b [OF i] by (auto simp: content_def nth_append max_def split: if_splits)
  qed
  have "fmap s2 ip k \<noteq> 0" if k: "k * BSIZE < max ?z (x + length bs)" for k
  proof -
    have d: "k * BSIZE div BSIZE = k" by (simp add: BSIZE_def)
    show ?thesis
    proof (cases "k * BSIZE < ?z")
      case True
      then show ?thesis using old [OF True] w(5) [of k] e(2) unfolding d by auto
    next
      case False
      then have "fmap s1 ip (k * BSIZE div BSIZE) \<noteq> 0" using w(7) [of "k * BSIZE"] k x(1) by auto
      then show ?thesis using e(2) d by simp
    qed
  qed
  then show "complete s2 ip" using z x(2) e(3) by (simp add: complete_def)
qed

lemma fs_ok_upd_ino:
  assumes "fs_ok p H s"
  shows "fs_ok p H (upd_inode ip f s)" "used (upd_inode ip f s) c = used s c" "data_blk (upd_inode ip f s) a = data_blk s a"
proof -
  show u: "used (upd_inode ip f s) c = used s c" for c by (rule used_cong) auto
  show "data_blk (upd_inode ip f s) a = data_blk s a" by (simp add: data_blk_def u)
  show "fs_ok p H (upd_inode ip f s)" using assms u by (simp add: fs_ok_def calm_def)
qed

text \<open>Writing the inode out changes no file: an inode block is no data block.\<close>

lemma iupdate_file:
  assumes sw: "waits_for_disk sw" and f: "fs_ok p H s" "file_ok s ip" and H: "length H < 29" and L: "locked_bufs s = {}"
  obtains s' where "iupdate sw ip s = Some s'" "fs_ok p (logged (IBLOCK (i_inum (itable s ip)) (sb s)) H) s'" "txn_frame s s'" "keeps s s'"
    "view s' = (view s)(IBLOCK (i_inum (itable s ip)) (sb s) :=
       put_dinode (din_off (i_inum (itable s ip))) (itable s ip) (view s (IBLOCK (i_inum (itable s ip)) (sb s))))"
    "file_ok s' ip" "\<And>l. fmap s' ip l = fmap s ip l" "\<And>i. i div BSIZE < MAXFILE \<Longrightarrow> fmap s ip (i div BSIZE) \<noteq> 0 \<Longrightarrow> fbyte s' ip i = fbyte s ip i"
    "\<And>a. data_blk s' a = data_blk s a" "\<And>c. c < unat (sb_size (sb s)) \<Longrightarrow> used s' c = used s c"
proof -
  note d = fs_okD [OF f(1)] and g = file_okD [OF f(2)]
  let ?B = "IBLOCK (i_inum (itable s ip)) (sb s)"
  obtain s' where r: "iupdate sw ip s = Some s'" "fs_ok p (logged ?B H) s'" "txn_frame s s'" "keeps s s'"
    "view s' = (view s)(?B := put_dinode (din_off (i_inum (itable s ip))) (itable s ip) (view s ?B))"
    "\<forall>c<unat (sb_size (sb s)). used s' c = used s c"
    by (rule iupdate_ok [OF sw f(1) g(1,2) H L])
  note x = txn_frame_fs [OF r(3)]
  have B: "unat ?B < data_start (sb s)" using IBLOCK_nat(3) [OF d(1) less_imp_le [OF g(2)]] by (simp add: data_start_def)
  then have v: "view s' a = view s a" if "data_blk s a" for a using that r(5) by (auto simp: data_blk_def)
  have fm: "fmap s' ip l = fmap s ip l" for l using v g(5) x(1) by (simp add: fmap_def Let_def)
  have dd: "data_blk s' a = data_blk s a" for a using r(6) x(3) by (auto simp: data_blk_def)
  have "fbyte s' ip i = fbyte s ip i" if "i div BSIZE < MAXFILE" "fmap s ip (i div BSIZE) \<noteq> 0" for i
    using v g(3) [OF that] fm by (simp add: fbyte_def)
  moreover have "file_ok s' ip" using f(2) fm dd x by (simp add: file_ok_def)
  ultimately show ?thesis using r fm dd by (intro that [of s']) auto
qed

text \<open>writei puts the bytes in the file, or as many of them as the disk has room for, and the new inode on
  disk; the log needs six blocks for each block written.\<close>

lemma writei_ok:
  assumes sw: "waits_for_disk sw" and f: "fs_ok p H s" "file_ok s ip" "complete s ip" "locked_bufs s = {}"
    and x: "x \<le> unat (i_size (itable s ip))" "x + length bs \<le> MAXFILE * BSIZE" and H: "length H + 6 * span x (length bs) < 29"
  obtains r H' s' where "r \<le> length bs" "writei sw ip (Kobj bs) (of_nat x) (of_nat (length bs)) s = Some (int r, s')"
    "fs_ok p H' s'" "file_ok s' ip" "complete s' ip" "locked_bufs s' = {}" "fs_frame s s'" "keeps s s'"
    "length H' \<le> length H + 6 * span x (length bs) + 1"
    "content s' ip = take x (content s ip) @ take r bs @ drop (x + r) (content s ip)"
    "r < length bs \<Longrightarrow> \<forall>c<unat (sb_size (sb s)). used s' c"
    "\<And>j. j \<noteq> ip \<Longrightarrow> itable s' j = itable s j"
    "itable s' ip = (itable s ip)\<lparr>i_size := i_size (itable s' ip), i_addrs := i_addrs (itable s' ip)\<rparr>"
    "get_dinode (din_off (i_inum (itable s ip))) (view s' (IBLOCK (i_inum (itable s ip)) (sb s))) (itable s' ip) = itable s' ip"
proof -
  let ?n = "length bs" and ?z = "unat (i_size (itable s ip))" and ?B = "IBLOCK (i_inum (itable s ip)) (sb s)"
  have n: "?n \<le> 274432" "x \<le> 274432" "x + ?n \<le> 274432" using x(2) by (simp_all only: MAXFILE_val(2))
  obtain r H1 s1 where l: "r \<le> ?n" "writei_loop sw ip (Kobj bs) (of_nat x) 0 (of_nat ?n) s = Some (of_nat r, of_nat (x + r), s1)"
      "wrote_ok p ip x (take r bs) s H1 s1" "length H1 \<le> length H + 6 * span x ?n" "r < ?n \<longrightarrow> (\<forall>c<unat (sb_size (sb s)). used s1 c)"
    using writei_loop_ok [OF sw f(1,2,4), of 0 ?n x bs] n(1) x(2) H by auto
  have w: "fs_ok p H1 s1" "file_ok s1 ip" "locked_bufs s1 = {}" "fs_frame s s1" "keeps s s1" "wrote ip x (take r bs) s s1"
    using l(3) by (simp_all add: wrote_ok_def)
  note wd = wroteD [OF w(6)]
  have i1: "i_size (itable s1 ip) = i_size (itable s ip)" "i_inum (itable s1 ip) = i_inum (itable s ip)"
    by (subst wd(3); simp)+
  have u: "unat (of_nat (x + r) :: u32) = x + r" "unat (of_nat x :: u32) = x" "unat (of_nat ?n :: u32) = ?n"
    by (rule unat32; use n l(1) in simp)+
  define s2 where "s2 = (if of_nat (x + r) > i_size (itable s1 ip) then upd_inode ip (\<lambda>y. y\<lparr>i_size := of_nat (x + r)\<rparr>) s1 else s1)"
  have s2: "fs_ok p H1 s2" "locked_bufs s2 = {}" "fs_frame s1 s2" "keeps s1 s2" "view s2 = view s1" "sb s2 = sb s1" "used s2 c = used s1 c"
    "\<And>a. data_blk s2 a = data_blk s1 a" "\<And>l. fmap s2 ip l = fmap s1 ip l" "\<And>i. fbyte s2 ip i = fbyte s1 ip i" for c
    using w fs_ok_upd_ino [OF w(1)] by (auto simp: s2_def fmap_def fbyte_def Let_def)
  have sz2: "unat (i_size (itable s2 ip)) = max ?z (x + length (take r bs))" using u l(1) i1(1) by (auto simp: s2_def word_less_nat_alt)
  have it2: "itable s2 ip = (itable s1 ip)\<lparr>i_size := i_size (itable s2 ip)\<rparr>" "\<And>j. j \<noteq> ip \<Longrightarrow> itable s2 j = itable s1 j" by (auto simp: s2_def)
  have in2: "i_inum (itable s2 ip) = i_inum (itable s ip)" "i_dev (itable s2 ip) = i_dev (itable s1 ip)" "i_addrs (itable s2 ip) = i_addrs (itable s1 ip)"
    using i1(2) by (auto simp: s2_def)
  have f2: "file_ok s2 ip" using w(2) s2 in2 i1(2) by (simp add: file_ok_def Let_def)
  have H1: "length H1 < 29" using l(4) H by simp
  obtain s3 where r3: "iupdate sw ip s2 = Some s3" "fs_ok p (logged ?B H1) s3" "txn_frame s2 s3" "keeps s2 s3"
    "view s3 = (view s2)(?B := put_dinode (din_off (i_inum (itable s ip))) (itable s2 ip) (view s2 ?B))"
    "file_ok s3 ip" "\<And>l. fmap s3 ip l = fmap s2 ip l" "\<And>i. i div BSIZE < MAXFILE \<Longrightarrow> fmap s2 ip (i div BSIZE) \<noteq> 0 \<Longrightarrow> fbyte s3 ip i = fbyte s2 ip i"
    "\<And>a. data_blk s3 a = data_blk s2 a" "\<And>c. c < unat (sb_size (sb s2)) \<Longrightarrow> used s3 c = used s2 c"
    using iupdate_file [OF sw s2(1) f2 H1 s2(2)] in2(1) s2(6) wd(1) by auto
  note x3 = txn_frame_fs [OF r3(3)]
  have "\<not> of_nat x + of_nat ?n < (of_nat x :: u32)" "\<not> of_nat x + of_nat ?n > (of_nat (MAXFILE * BSIZE) :: u32)" "\<not> of_nat x > i_size (itable s ip)"
    using x(1) u(2) n unat32 [of "x + ?n"] unfolding MAXFILE_val(2) by (simp_all add: word_less_nat_alt)
  then have "writei sw ip (Kobj bs) (of_nat x) (of_nat ?n) s =
      (iupdate sw ip s2 \<bind> (\<lambda>s. Some (sint (of_nat r :: u32), s)))"
    using l(2) unfolding writei_def s2_def by simp
  then have res: "writei sw ip (Kobj bs) (of_nat x) (of_nat ?n) s = Some (int r, s3)"
    using r3(1) sint_int32 [of "int r"] l(1) n(1) by simp
  have xr: "x + length (take r bs) \<le> MAXFILE * BSIZE" using l(1) x(2) by simp
  have fm3: "fmap s3 ip l = fmap s1 ip l" for l using r3(7) s2(9) by simp
  have e3: "fbyte s3 ip i = fbyte s1 ip i" if "i div BSIZE < MAXFILE" "fmap s1 ip (i div BSIZE) \<noteq> 0" for i
    using r3(8) [of i] s2(9,10) that by simp
  have z3: "unat (i_size (itable s3 ip)) = max ?z (x + length (take r bs))" using sz2 x3(1) by simp
  have c: "content s3 ip = take x (content s ip) @ take r bs @ drop (x + length (take r bs)) (content s ip)" "complete s3 ip"
    using wrote_content [OF w(6) f(3) x(1) xr e3 fm3 z3] by simp_all
  have it3: "itable s3 ip = (itable s ip)\<lparr>i_size := i_size (itable s3 ip), i_addrs := i_addrs (itable s3 ip)\<rparr>"
  proof -
    have "itable s3 ip = (itable s1 ip)\<lparr>i_size := i_size (itable s2 ip)\<rparr>" using it2(1) x3(1) by simp
    also have "\<dots> = (itable s ip)\<lparr>i_addrs := i_addrs (itable s1 ip)\<rparr>\<lparr>i_size := i_size (itable s2 ip)\<rparr>" by (simp only: wd(3) [symmetric])
    finally show ?thesis by simp
  qed
  have B: "?B < 0x80000000" using IBLOCK_nat(2) [OF fs_okD(1) [OF f(1)] less_imp_le [OF file_okD(2) [OF f(2)]]] .
  have g: "get_dinode (din_off (i_inum (itable s ip))) (view s3 ?B) (itable s3 ip) = itable s3 ip"
    using dinode_put(2) [of "din_off (i_inum (itable s ip))" "view s2 ?B"] din_off_le fs_okD(6) [OF s2(1) B] r3(5) x3(1) by simp
  show ?thesis
  proof (rule that [OF l(1) res r3(2,6) c(2)])
    show "locked_bufs s3 = {}" using r3(4) s2(2) by (simp add: keeps_def)
    show "fs_frame s s3" using w(4) s2(3) fs_frame_txn [OF r3(3)] fs_frame_trans by blast
    show "keeps s s3" using w(5) s2(4) r3(4) keeps_trans by blast
    show "length (logged ?B H1) \<le> length H + 6 * span x ?n + 1" using l(4) by (simp add: logged_def)
    show "r < ?n \<Longrightarrow> \<forall>c<unat (sb_size (sb s)). used s3 c" using l(5) r3(10) s2(6,7) wd(1) by auto
    show "\<And>j. j \<noteq> ip \<Longrightarrow> itable s3 j = itable s j" using x3(1) it2(2) wd(2) by simp
  qed (use c(1) l(1) it3 g in \<open>simp_all\<close>)
qed

section \<open>A file written and read back\<close>

text \<open>The image of \<open>fs0\<close> with an empty file, inode 1, in the first entry of the inode table.\<close>

definition inode1 :: inode where
  "inode1 = \<lparr>i_dev = ROOTDEV, i_inum = 1, i_ref = 1, i_valid = True, i_type = T_FILE, i_major = 0, i_minor = 0, i_nlink = 1,
     i_size = 0, i_addrs = (\<lambda>_. 0)\<rparr>"

definition fs1 :: fs_state where
  "fs1 = fs_of media0 sb0 (\<lambda>_. inode1)"

lemma fs1_ok: "fs_ok 1 [] fs1" "file_ok fs1 0" "complete fs1 0" "locked_bufs fs1 = {}" "itable fs1 = (\<lambda>_. inode1)" "sb fs1 = sb0"
  "c < 200 \<Longrightarrow> used fs1 c \<longleftrightarrow> c < 40"
proof -
  have o: "txn 1 (sb_logstart sb0) {} [] fs1" "\<not> panicked fs1" "lg_outstanding (lg fs1) = 1"
      "bn < 0x80000000 \<Longrightarrow> view fs1 bn = media0 (sector_of bn)" for bn
    using fs_of_ok(1) [of media0 sb0, OF media0_length] by (simp_all add: fs1_def fs_of_ok media0_length)
  show t: "itable fs1 = (\<lambda>_. inode1)" "sb fs1 = sb0" "locked_bufs fs1 = {}" by (simp_all add: fs1_def fs_of_ok media0_length)
  have u: "used fs1 c = used fs0 c" if c: "c < 200" for c
  proof -
    have "BBLOCK (of_nat c) sb0 < 0x80000000" using BBLOCK_nat(2) [OF sb0_ok(1), of c] c sb0_ok(3) by simp
    then show ?thesis using o(4) fs0_ok(7) by (simp add: used_def t fs0_ok)
  qed
  then show "c < 200 \<Longrightarrow> used fs1 c \<longleftrightarrow> c < 40" using fs0_used by simp
  show "fs_ok 1 [] fs1" using o sb0_ok u fs0_used by (simp add: fs_ok_def t calm_def)
  have f: "fmap fs1 0 k = 0" for k using t by (simp add: fmap_def inode1_def)
  show "file_ok fs1 0" using t f by (simp add: file_ok_def inode1_def sb0_def)
  show "complete fs1 0" using t by (simp add: complete_def inode1_def)
qed

text \<open>C3: writei puts the bytes it is given at the offset it is given and keeps the rest of the file; it writes
  less than it was asked for only when no block of the disk is free. The inode on disk is then the one in
  memory, no other inode in memory is touched, and readi of the same range returns the bytes written.\<close>

theorem writei_readi_roundtrip:
  assumes sw: "waits_for_disk sw" and f: "fs_ok p H s" "file_ok s ip" "complete s ip" "locked_bufs s = {}"
    and x: "x \<le> unat (i_size (itable s ip))" "x + length bs \<le> MAXFILE * BSIZE" and H: "length H + 6 * span x (length bs) < 23"
  shows "\<exists>r s'. writei sw ip (Kobj bs) (of_nat x) (of_nat (length bs)) s = Some (int r, s') \<and> r \<le> length bs \<and>
    (r < length bs \<longrightarrow> (\<forall>c<unat (sb_size (sb s)). used s' c)) \<and>
    content s' ip = take x (content s ip) @ take r bs @ drop (x + r) (content s ip) \<and>
    (\<forall>j. j \<noteq> ip \<longrightarrow> itable s' j = itable s j) \<and>
    get_dinode (din_off (i_inum (itable s ip))) (view s' (IBLOCK (i_inum (itable s ip)) (sb s))) (itable s' ip) = itable s' ip \<and>
    (\<exists>s''. readi sw ip (Kobj ds) (of_nat x) (of_nat r) s' = Some (int r, take r bs, s'') \<and> content s'' ip = content s' ip)"
proof -
  have H': "length H + 6 * span x (length bs) < 29" using H by simp
  obtain r H1 s' where w: "r \<le> length bs" "writei sw ip (Kobj bs) (of_nat x) (of_nat (length bs)) s = Some (int r, s')"
    "fs_ok p H1 s'" "file_ok s' ip" "complete s' ip" "locked_bufs s' = {}"
    "length H1 \<le> length H + 6 * span x (length bs) + 1"
    "content s' ip = take x (content s ip) @ take r bs @ drop (x + r) (content s ip)"
    "r < length bs \<Longrightarrow> \<forall>c<unat (sb_size (sb s)). used s' c" "\<And>j. j \<noteq> ip \<Longrightarrow> itable s' j = itable s j"
    "get_dinode (din_off (i_inum (itable s ip))) (view s' (IBLOCK (i_inum (itable s ip)) (sb s))) (itable s' ip) = itable s' ip"
    by (rule writei_ok [OF sw f x H']) simp
  have n: "x + r \<le> 274432" using x(2) w(1) unfolding MAXFILE_val(2) by simp
  have u: "unat (of_nat x :: u32) = x" "unat (of_nat r :: u32) = r" by (rule unat32; use n in simp)+
  have H1: "length H1 < 24" using w(7) H by simp
  obtain s'' where r: "readi sw ip (Kobj ds) (of_nat x) (of_nat r) s' =
      Some (int (length (take r (drop x (content s' ip)))), take r (drop x (content s' ip)), s'')" "looks p H1 s' s''"
    using readi_ok [OF sw H1 w(3-6), of "of_nat x" "of_nat r" ds] n unfolding u by auto
  have "length (take x (content s ip)) = x" using x(1) by (simp add: content_def)
  then have "take r (drop x (content s' ip)) = take r bs" using w(1) by (simp add: w(8))
  then have "readi sw ip (Kobj ds) (of_nat x) (of_nat r) s' = Some (int r, take r bs, s'')" using r(1) w(1) by simp
  then show ?thesis using w looks_same(4) [OF r(2)] by (intro exI [of _ r] exI [of _ s']) auto
qed

theorem writei_readi_roundtrip_witness:
  "\<exists>r s' s''. writei sw_disk 0 (Kobj [104, 105, 10]) 0 3 fs1 = Some (int r, s') \<and> content s' 0 = take r [104, 105, 10] \<and>
    readi sw_disk 0 (Kobj []) 0 (of_nat r) s' = Some (int r, take r [104, 105, 10], s'')"
proof -
  have z: "content fs1 0 = []" by (simp add: content_def fs1_ok inode1_def)
  have "length ([] :: u32 list) + 6 * span 0 (length [104, 105, 10 :: u8]) < 23" by (simp add: span_def BSIZE_def)
  from writei_readi_roundtrip [OF waits_sw_disk fs1_ok(1-4) _ _ this, of "[]"] show ?thesis
    using z by (auto simp: MAXFILE_val BSIZE_def)
qed

end
