(* ===== verification/Ring.thy ===== *)
theory Ring
  imports Prelude
begin

text \<open>
  The kernel's circular buffers: an array and two counters that are never reset, so that they wrap at
  their width; entry i of the stream lives at index i modulo the size of the array. The pipe, the console's
  input and the UART's output use them.

  \<open>ring_items\<close> is the abstract value, the list of entries between the two counters. The locale \<open>fifo\<close> is
  the contract of a bounded first-in first-out buffer.
\<close>

definition ring_items :: "nat \<Rightarrow> (nat \<Rightarrow> 'a) \<Rightarrow> 'w::len word \<Rightarrow> 'w word \<Rightarrow> 'a list" where
  "ring_items n d r w = map (\<lambda>i. d (unat (r + of_nat i) mod n)) [0..<unat (w - r)]"

lemma length_ring [simp]: "length (ring_items n d r w) = unat (w - r)"
  by (simp add: ring_items_def)

lemma ring_empty_iff [simp]: "ring_items n d r w = [] \<longleftrightarrow> w = r"
  by (auto simp: ring_items_def unat_eq_zero)

lemma ring_index:
  fixes r :: "'w::len word"
  assumes "n dvd 2 ^ LENGTH('w)"
  shows "unat (r + of_nat i) mod n = (unat r + i) mod n"
proof -
  have "unat (r + of_nat i) = (unat r + i) mod 2 ^ LENGTH('w)" by (simp add: unat_word_ariths unat_of_nat mod_add_right_eq)
  then show ?thesis using assms by (simp add: mod_mod_cancel)
qed

lemma ring_items_nat:
  fixes r :: "'w::len word"
  assumes "n dvd 2 ^ LENGTH('w)"
  shows "ring_items n d r w = map (\<lambda>i. d ((unat r + i) mod n)) [0..<unat (w - r)]"
  by (simp add: ring_items_def ring_index [OF assms])

lemma ring_push:
  fixes r w :: "'w::len word"
  assumes n: "n dvd 2 ^ LENGTH('w)" "n < 2 ^ LENGTH('w)" and l: "unat (w - r) < n"
  shows "ring_items n (d(unat w mod n := c)) r (w + 1) = ring_items n d r w @ [c]"
proof -
  let ?k = "unat (w - r)"
  have w: "w = r + of_nat ?k" by simp
  have iw: "unat w mod n = (unat r + ?k) mod n" using ring_index [OF n(1), of r ?k] w by simp
  have "w + 1 - r = (w - r) + 1" by simp
  also have "unat \<dots> = Suc ?k" using l n(2) by (simp add: unat_word_ariths)
  finally have e: "unat (w + 1 - r) = Suc ?k" .
  have ne: "(unat r + i) mod n \<noteq> (unat r + ?k) mod n" if "i < ?k" for i
  proof
    assume "(unat r + i) mod n = (unat r + ?k) mod n"
    then have "n dvd (unat r + ?k) - (unat r + i)" using that by (metis add_le_cancel_left less_imp_le mod_eq_dvd_iff_nat)
    then have "n dvd ?k - i" by simp
    then have "n \<le> ?k - i" using that by (intro dvd_imp_le) auto
    then show False using l that by simp
  qed
  show ?thesis unfolding ring_items_nat [OF n(1)] e iw by (auto simp: ne)
qed

lemma unat_pred: "(x :: 'w::len word) \<noteq> 0 \<Longrightarrow> unat (x - 1) = unat x - 1"
  by (metis unat_minus_one)

lemma ring_pop:
  fixes r w :: "'w::len word"
  assumes n: "n dvd 2 ^ LENGTH('w)" and l: "w \<noteq> r"
  shows "ring_items n d r w = d (unat r mod n) # ring_items n d (r + 1) w"
proof -
  have "w - r \<noteq> 0" using l by simp
  then have p: "0 < unat (w - r)" by (metis unat_eq_zero neq0_conv)
  have s: "w - (r + 1) = (w - r) - 1" by (simp only: diff_diff_eq)
  have "unat (w - (r + 1)) = unat (w - r) - 1" unfolding s by (rule unat_pred [OF \<open>w - r \<noteq> 0\<close>])
  then have e: "unat (w - r) = Suc (unat (w - (r + 1)))" using p by simp
  have i: "(r + 1) + of_nat i = r + of_nat (Suc i)" for i by simp
  show ?thesis unfolding ring_items_def e by (simp only: upt_conv_Cons i map_Suc_upt [symmetric] list.map map_map o_def) (simp add: upt_conv_Cons map_Suc_upt [symmetric] del: upt_Suc)
qed

lemma ring_unpush:
  fixes r w :: "'w::len word"
  assumes "w \<noteq> r"
  shows "ring_items n d r (w - 1) = butlast (ring_items n d r w)"
proof -
  have "w - r \<noteq> 0" using assms by simp
  moreover have "w - 1 - r = (w - r) - 1" by simp
  ultimately have "unat (w - 1 - r) = unat (w - r) - 1" using unat_pred [of "w - r"] by metis
  moreover have "butlast [0..<m] = [0..<m - 1]" for m by (cases m) simp_all
  ultimately show ?thesis by (simp add: ring_items_def map_butlast [symmetric])
qed

lemma ring_split:
  fixes r w e :: "'w::len word"
  assumes n: "n dvd 2 ^ LENGTH('w)" and l: "unat (w - r) \<le> unat (e - r)"
  shows "ring_items n d r e = ring_items n d r w @ ring_items n d w e"
proof -
  let ?k = "unat (w - r)"
  have "unat ((e - r) - (w - r)) = unat (e - r) - ?k" by (rule unat_sub) (use l in \<open>simp add: word_le_nat_alt\<close>)
  moreover have "(e - r) - (w - r) = e - w" by simp
  ultimately have u: "unat (e - r) = ?k + unat (e - w)" using l by (simp only:)
  have w: "w + of_nat i = r + of_nat (?k + i)" for i by simp
  have m: "map f [?k..<?k + m] = map (\<lambda>i. f (?k + i)) [0..<m]" for f :: "nat \<Rightarrow> 'b" and m
    by (induction m) auto
  show ?thesis unfolding ring_items_def u w by (simp only: upt_add_eq_append [OF zero_le] map_append m)
qed

section \<open>Bounded first-in first-out buffers\<close>

text \<open>A run of the buffer from s: what was put in, what was taken out, and the state after it. Nothing is put
  into a full buffer or taken from an empty one.\<close>

inductive fifo_run :: "('s \<Rightarrow> 'a list) \<Rightarrow> nat \<Rightarrow> ('a \<Rightarrow> 's \<Rightarrow> 's) \<Rightarrow> ('s \<Rightarrow> 'a \<times> 's) \<Rightarrow> 's \<Rightarrow> 'a list \<Rightarrow> 'a list \<Rightarrow> 's \<Rightarrow> bool"
  for items cap enq deq s where
  start: "fifo_run items cap enq deq s [] [] s"
| enq: "fifo_run items cap enq deq s xs ys t \<Longrightarrow> length (items t) < cap \<Longrightarrow> fifo_run items cap enq deq s (xs @ [x]) ys (enq x t)"
| deq: "fifo_run items cap enq deq s xs ys t \<Longrightarrow> items t \<noteq> [] \<Longrightarrow> deq t = (y, t') \<Longrightarrow> fifo_run items cap enq deq s xs (ys @ [y]) t'"

locale fifo =
  fixes items :: "'s \<Rightarrow> 'a list" and cap :: nat and enq :: "'a \<Rightarrow> 's \<Rightarrow> 's" and deq :: "'s \<Rightarrow> 'a \<times> 's"
  assumes items_enq: "length (items s) < cap \<Longrightarrow> items (enq x s) = items s @ [x]"
    and items_deq: "items s \<noteq> [] \<Longrightarrow> items s = fst (deq s) # items (snd (deq s))"
begin

text \<open>What comes out is what went in, in the same order, and the buffer never holds more than its size.\<close>

lemma run_order: "fifo_run items cap enq deq s xs ys t \<Longrightarrow> items s @ xs = ys @ items t"
proof (induction rule: fifo_run.induct)
  case (enq xs ys t x)
  then show ?case using items_enq [OF enq.hyps(2)] by simp
next
  case (deq xs ys t y t')
  then show ?case using items_deq [OF deq.hyps(2)] by simp
qed simp

lemma run_bound: "fifo_run items cap enq deq s xs ys t \<Longrightarrow> length (items s) \<le> cap \<Longrightarrow> length (items t) \<le> cap"
proof (induction rule: fifo_run.induct)
  case (enq xs ys t x)
  then show ?case using items_enq [OF enq.hyps(2)] by simp
next
  case (deq xs ys t y t')
  then show ?case using arg_cong [OF items_deq [OF deq.hyps(2)], of length] by simp
qed simp

end

end
