(* ===== verification/Console.thy ===== *)
theory Console
  imports Fsio Ring
begin

unbundle bit_operations_syntax

text \<open>
  The UART driver (kernel/uart.c) and the console on top of it (kernel/console.c).

  The device is seen through the bytes written to THR (\<open>thr\<close>, shared with Printf), the writes to its
  control registers in order (\<open>uart_ctl\<close>), the bytes it has received and not yet handed over (\<open>uart_rx\<close>),
  and what each successive read of the line status register says of the transmitter: \<open>lsr_idle n\<close> is the
  answer to the n-th one. A C int that holds a character is an int.
\<close>

section \<open>State\<close>

datatype devfn = Consoleread | Consolewrite

record devsw_entry =
  d_read :: "devfn option"
  d_write :: "devfn option"

record tty_state = fs_state +
  cons_buf :: "nat \<Rightarrow> u8"
  cons_r :: u32
  cons_w :: u32
  cons_e :: u32
  uart_tx_buf :: "nat \<Rightarrow> u8"
  uart_tx_w :: u64
  uart_tx_r :: u64
  uart_ctl :: "(nat \<times> u8) list"
  lsr_idle :: "nat \<Rightarrow> bool"
  lsr_reads :: nat
  uart_rx :: "u8 list"
  devsw :: "nat \<Rightarrow> devsw_entry"

definition UART_TX_BUF_SIZE :: nat where "UART_TX_BUF_SIZE = 32"
definition INPUT_BUF_SIZE :: nat where "INPUT_BUF_SIZE = 128"
definition NDEV :: nat where "NDEV = 10"
definition CONSOLE :: nat where "CONSOLE = 1"

section \<open>The UART\<close>

definition uart_write :: "nat \<Rightarrow> u8 \<Rightarrow> 'z tty_state_scheme \<Rightarrow> 'z tty_state_scheme" where
  "uart_write reg v s = s\<lparr>uart_ctl := uart_ctl s @ [(reg, v)]\<rparr>"

text \<open>IER is register 1, FCR 2, LCR 3.\<close>

definition uartinit :: "'z tty_state_scheme \<Rightarrow> 'z tty_state_scheme" where
  "uartinit s =
    (let s = uart_write 1 0x00 s;
         s = uart_write 3 (push_bit 7 1) s;
         s = uart_write 0 0x03 s;
         s = uart_write 1 0x00 s;
         s = uart_write 3 (push_bit 0 3) s;
         s = uart_write 2 (push_bit 0 1 OR push_bit 1 3) s;
         s = uart_write 1 (push_bit 1 1 OR push_bit 0 1) s
     in s\<lparr>hw := initlock Lk_uart ''uart'' (hw s)\<rparr>)"

definition tx_idle :: "'z tty_state_scheme \<Rightarrow> bool \<times> 'z tty_state_scheme" where
  "tx_idle s = (lsr_idle s (lsr_reads s), s\<lparr>lsr_reads := Suc (lsr_reads s)\<rparr>)"

definition tx_put :: "u8 \<Rightarrow> 'z tty_state_scheme \<Rightarrow> 'z tty_state_scheme" where
  "tx_put c s = s\<lparr>uart_tx_buf := (uart_tx_buf s)(unat (uart_tx_w s) mod UART_TX_BUF_SIZE := c), uart_tx_w := uart_tx_w s + 1\<rparr>"

definition tx_get :: "'z tty_state_scheme \<Rightarrow> u8 \<times> 'z tty_state_scheme" where
  "tx_get s = (uart_tx_buf s (unat (uart_tx_r s) mod UART_TX_BUF_SIZE), s\<lparr>uart_tx_r := uart_tx_r s + 1\<rparr>)"

partial_function (option) uartstart :: "'z tty_state_scheme \<Rightarrow> 'z tty_state_scheme option" where
  "uartstart s =
    (if uart_tx_w s = uart_tx_r s then Some s
     else let (idle, s) = tx_idle s in
       if \<not> idle then Some s
       else let (c, s) = tx_get s in do {
         s \<leftarrow> wakeup (Some Ch_uart_tx_r) s;
         uartstart (s\<lparr>thr := thr s @ [c]\<rparr>) })"

partial_function (option) uartputc_wait :: "('z tty_state_scheme \<Rightarrow> 'z tty_state_scheme option) \<Rightarrow> 'z tty_state_scheme
    \<Rightarrow> 'z tty_state_scheme option" where
  "uartputc_wait sw s =
    (if uart_tx_w s = uart_tx_r s + of_nat UART_TX_BUF_SIZE then do {
       s \<leftarrow> sleep sw Ch_uart_tx_r Lk_uart s;
       uartputc_wait sw s }
     else Some s)"

definition uartputc :: "('z tty_state_scheme \<Rightarrow> 'z tty_state_scheme option) \<Rightarrow> u8 \<Rightarrow> 'z tty_state_scheme
    \<Rightarrow> 'z tty_state_scheme option" where
  "uartputc sw c s = do {
     s \<leftarrow> lock Lk_uart s;
     if panicked s then None
     else do {
       s \<leftarrow> uartputc_wait sw s;
       let s = tx_put c s;
       s \<leftarrow> uartstart s;
       unlock Lk_uart s } }"

definition uartgetc :: "'z tty_state_scheme \<Rightarrow> int \<times> 'z tty_state_scheme" where
  "uartgetc s = (case uart_rx s of [] \<Rightarrow> (-1, s) | c # cs \<Rightarrow> (uint c, s\<lparr>uart_rx := cs\<rparr>))"

section \<open>The console\<close>

text \<open>The macro C of console.c.\<close>

definition ctrl :: "char \<Rightarrow> int" where
  "ctrl x = chr_int x - chr_int CHR ''@''"

primrec consolewrite_loop :: "('z tty_state_scheme \<Rightarrow> 'z tty_state_scheme option) \<Rightarrow> nat \<Rightarrow> kplace \<Rightarrow> int \<Rightarrow> 'z tty_state_scheme
    \<Rightarrow> (int \<times> 'z tty_state_scheme) option" where
  "consolewrite_loop sw 0 src i s = Some (i, s)"
| "consolewrite_loop sw (Suc k) src i s = do {
     (r, bs, s) \<leftarrow> either_copyin src 1 s;
     if r = -1 then Some (i, s)
     else do {
       s \<leftarrow> uartputc sw (hd bs) s;
       consolewrite_loop sw k (kplace_add src 1) (i + 1) s } }"

definition consolewrite :: "('z tty_state_scheme \<Rightarrow> 'z tty_state_scheme option) \<Rightarrow> kplace \<Rightarrow> int \<Rightarrow> 'z tty_state_scheme
    \<Rightarrow> (int \<times> 'z tty_state_scheme) option" where
  "consolewrite sw src n s = consolewrite_loop sw (nat n) src 0 s"

text \<open>The wait for input in consoleread; False when the process was killed, with the lock released.\<close>

partial_function (option) consoleread_wait :: "('z tty_state_scheme \<Rightarrow> 'z tty_state_scheme option) \<Rightarrow> 'z tty_state_scheme
    \<Rightarrow> (bool \<times> 'z tty_state_scheme) option" where
  "consoleread_wait sw s =
    (if cons_r s = cons_w s then do {
       (p, s) \<leftarrow> myp s;
       (k, s) \<leftarrow> killed p s;
       if k \<noteq> 0 then do { s \<leftarrow> unlock Lk_cons s; Some (False, s) }
       else do {
         s \<leftarrow> sleep sw Ch_cons_r Lk_cons s;
         consoleread_wait sw s } }
     else Some (True, s))"

text \<open>The loop of consoleread: what is left of n when it ends, or None when the process was killed.\<close>

primrec consoleread_loop :: "('z tty_state_scheme \<Rightarrow> 'z tty_state_scheme option) \<Rightarrow> nat \<Rightarrow> nat \<Rightarrow> kplace \<Rightarrow> 'z tty_state_scheme
    \<Rightarrow> (nat option \<times> 'z tty_state_scheme) option" where
  "consoleread_loop sw target 0 dst s = Some (Some 0, s)"
| "consoleread_loop sw target (Suc k) dst s = do {
     (go, s) \<leftarrow> consoleread_wait sw s;
     if \<not> go then Some (None, s)
     else do {
       let c = uint (cons_buf s (unat (cons_r s) mod INPUT_BUF_SIZE));
       let s = s\<lparr>cons_r := cons_r s + 1\<rparr>;
       if c = ctrl CHR ''D'' then
         Some (Some (Suc k), if Suc k < target then s\<lparr>cons_r := cons_r s - 1\<rparr> else s)
       else do {
         (r, s) \<leftarrow> either_copyout dst [word_of_int c] s;
         if r = -1 then Some (Some (Suc k), s)
         else if c = chr_int (CHR 0x0A) then Some (Some k, s)
         else consoleread_loop sw target k (kplace_add dst 1) s } } }"

definition consoleread :: "('z tty_state_scheme \<Rightarrow> 'z tty_state_scheme option) \<Rightarrow> kplace \<Rightarrow> int \<Rightarrow> 'z tty_state_scheme
    \<Rightarrow> (int \<times> 'z tty_state_scheme) option" where
  "consoleread sw dst n s = do {
     s \<leftarrow> lock Lk_cons s;
     (r, s) \<leftarrow> consoleread_loop sw (nat n) (nat n) dst s;
     case r of
       None \<Rightarrow> Some (-1, s)
     | Some k \<Rightarrow> do {
         s \<leftarrow> unlock Lk_cons s;
         Some (int (nat n) - int k, s) } }"

partial_function (option) kill_line :: "'z tty_state_scheme \<Rightarrow> 'z tty_state_scheme option" where
  "kill_line s =
    (if cons_e s \<noteq> cons_w s \<and> cons_buf s (unat (cons_e s - 1) mod INPUT_BUF_SIZE) \<noteq> chr_byte (CHR 0x0A) then do {
       let s = s\<lparr>cons_e := cons_e s - 1\<rparr>;
       s \<leftarrow> consputc BACKSPACE s;
       kill_line s }
     else Some s)"

definition cons_put :: "u8 \<Rightarrow> 'z tty_state_scheme \<Rightarrow> 'z tty_state_scheme" where
  "cons_put c s = s\<lparr>cons_buf := (cons_buf s)(unat (cons_e s) mod INPUT_BUF_SIZE := c), cons_e := cons_e s + 1\<rparr>"

definition consoleintr :: "int \<Rightarrow> 'z tty_state_scheme \<Rightarrow> 'z tty_state_scheme option" where
  "consoleintr c s = do {
     s \<leftarrow> lock Lk_cons s;
     s \<leftarrow> (if c = ctrl CHR ''P'' then procdump s
           else if c = ctrl CHR ''U'' then kill_line s
           else if c = ctrl CHR ''H'' \<or> c = 0x7f then
             (if cons_e s \<noteq> cons_w s then consputc BACKSPACE (s\<lparr>cons_e := cons_e s - 1\<rparr>) else Some s)
           else if c \<noteq> 0 \<and> cons_e s - cons_r s < of_nat INPUT_BUF_SIZE then do {
             let c = (if c = chr_int (CHR 0x0D) then chr_int (CHR 0x0A) else c);
             s \<leftarrow> consputc c s;
             let s = cons_put (word_of_int c) s;
             if c = chr_int (CHR 0x0A) \<or> c = ctrl CHR ''D'' \<or> cons_e s - cons_r s = of_nat INPUT_BUF_SIZE
             then wakeup (Some Ch_cons_r) (s\<lparr>cons_w := cons_e s\<rparr>)
             else Some s }
           else Some s);
     unlock Lk_cons s }"

definition consoleinit :: "'z tty_state_scheme \<Rightarrow> 'z tty_state_scheme" where
  "consoleinit s =
    (let s = s\<lparr>hw := initlock Lk_cons ''cons'' (hw s)\<rparr>;
         s = uartinit s
     in s\<lparr>devsw := (devsw s)(CONSOLE := \<lparr>d_read = Some Consoleread, d_write = Some Consolewrite\<rparr>)\<rparr>)"

section \<open>The UART interrupt\<close>

partial_function (option) uartintr_loop :: "'z tty_state_scheme \<Rightarrow> 'z tty_state_scheme option" where
  "uartintr_loop s =
    (let (c, s) = uartgetc s in
     if c = -1 then Some s
     else do {
       s \<leftarrow> consoleintr c s;
       uartintr_loop s })"

definition uartintr :: "'z tty_state_scheme \<Rightarrow> 'z tty_state_scheme option" where
  "uartintr s = do {
     s \<leftarrow> uartintr_loop s;
     s \<leftarrow> lock Lk_uart s;
     s \<leftarrow> uartstart s;
     unlock Lk_uart s }"

section \<open>The output buffer\<close>

definition tx_items :: "'z tty_state_scheme \<Rightarrow> u8 list" where
  "tx_items s = ring_items UART_TX_BUF_SIZE (uart_tx_buf s) (uart_tx_r s) (uart_tx_w s)"

lemma tx_size: "UART_TX_BUF_SIZE dvd 2 ^ LENGTH(64)" "UART_TX_BUF_SIZE < 2 ^ LENGTH(64)"
  by (simp_all add: UART_TX_BUF_SIZE_def)

interpretation tx: fifo tx_items UART_TX_BUF_SIZE tx_put tx_get
proof unfold_locales
  fix s :: "'z tty_state_scheme" and x
  show "length (tx_items s) < UART_TX_BUF_SIZE \<Longrightarrow> tx_items (tx_put x s) = tx_items s @ [x]"
    by (simp add: tx_items_def tx_put_def ring_push [OF tx_size])
  show "tx_items s \<noteq> [] \<Longrightarrow> tx_items s = fst (tx_get s) # tx_items (snd (tx_get s))"
    by (simp add: tx_items_def tx_get_def ring_pop [OF tx_size(1)])
qed

lemma tx_full: "uart_tx_w s = uart_tx_r s + of_nat UART_TX_BUF_SIZE \<longleftrightarrow> length (tx_items s) = UART_TX_BUF_SIZE"
proof -
  have "uart_tx_w s = uart_tx_r s + of_nat UART_TX_BUF_SIZE \<longleftrightarrow> uart_tx_w s - uart_tx_r s = of_nat UART_TX_BUF_SIZE"
    by (auto simp: algebra_simps)
  then show ?thesis by (simp add: tx_items_def UART_TX_BUF_SIZE_def word_unat_eq_iff)
qed

text \<open>What uartstart may change.\<close>

definition tx_frame :: "'z tty_state_scheme \<Rightarrow> 'z tty_state_scheme \<Rightarrow> bool" where
  "tx_frame s s' \<longleftrightarrow> s'\<lparr>procs := procs s, thr := thr s, uart_tx_r := uart_tx_r s, lsr_reads := lsr_reads s\<rparr> = s \<and> woken (procs s) (procs s')"

lemma tx_frame_trans:
  assumes "tx_frame s s'" "tx_frame s' s''"
  shows "tx_frame s s''"
proof -
  let ?u = "\<lambda>s t. t\<lparr>procs := procs s, thr := thr s, uart_tx_r := uart_tx_r s, lsr_reads := lsr_reads s\<rparr>"
  have "?u s s'' = ?u s (?u s' s'')" by simp
  also have "\<dots> = s" using assms by (simp add: tx_frame_def)
  finally show ?thesis using assms woken_trans by (auto simp: tx_frame_def)
qed

lemma uartstart_ok:
  assumes "hart_ok (hw s)" "plocks_free (hw s)"
  shows "\<exists>k s'. uartstart s = Some s' \<and> k \<le> length (tx_items s) \<and> thr s' = thr s @ take k (tx_items s) \<and>
    tx_items s' = drop k (tx_items s) \<and> tx_frame s s'"
  using assms
proof (induction "length (tx_items s)" arbitrary: s)
  case 0
  then have "tx_items s = []" by simp
  then have "uart_tx_w s = uart_tx_r s" by (simp add: tx_items_def)
  then show ?case by (intro exI [of _ 0] exI [of _ s]) (subst uartstart.simps, simp add: tx_frame_def)
next
  case (Suc n)
  then have ne: "tx_items s \<noteq> []" "uart_tx_w s \<noteq> uart_tx_r s" by (auto simp: tx_items_def)
  let ?s1 = "s\<lparr>lsr_reads := Suc (lsr_reads s)\<rparr>"
  show ?case
  proof (cases "lsr_idle s (lsr_reads s)")
    case False
    then show ?thesis using ne(2)
      by (subst uartstart.simps) (auto simp: tx_idle_def tx_frame_def tx_items_def intro!: exI [of _ 0])
  next
    case True
    obtain c s2 where g: "tx_get ?s1 = (c, s2)" by (cases "tx_get ?s1") auto
    have s2: "s2 = ?s1\<lparr>uart_tx_r := uart_tx_r s + 1\<rparr>" using g by (auto simp: tx_get_def)
    have it: "tx_items s = c # tx_items s2" using tx.items_deq [of ?s1] g ne(1) by (simp add: tx_items_def)
    define s3 where "s3 = (map_procs (wake (cproc (mycpu (hw s))) (Some Ch_uart_tx_r)) s2)\<lparr>thr := thr s @ [c]\<rparr>"
    have w: "wakeup (Some Ch_uart_tx_r) s2 = Some (map_procs (wake (cproc (mycpu (hw s))) (Some Ch_uart_tx_r)) s2)"
      using Suc.prems by (simp add: wakeup_ok s2)
    have st: "uartstart s = uartstart s3"
      by (subst uartstart.simps) (use ne(2) True g w s2 in \<open>simp add: tx_idle_def s3_def map_procs_def\<close>)
    have i3: "tx_items s3 = tx_items s2" "hw s3 = hw s" "thr s3 = thr s @ [c]" by (simp_all add: s3_def tx_items_def map_procs_def s2)
    have f3: "tx_frame s s3" by (auto simp: tx_frame_def s3_def s2 map_procs_def woken_def wake_def)
    obtain k s' where "uartstart s3 = Some s'" "k \<le> length (tx_items s3)" "thr s' = thr s3 @ take k (tx_items s3)"
        "tx_items s' = drop k (tx_items s3)" "tx_frame s3 s'"
      using Suc.hyps(1) [of s3] Suc.hyps(2) Suc.prems i3 it by auto
    then show ?thesis using st i3 it tx_frame_trans [OF f3] by (intro exI [of _ "Suc k"] exI [of _ s']) simp
  qed
qed

text \<open>Putting a byte while there is room: it comes after everything sent or pending.\<close>

lemma uartputc_ok:
  assumes r: "hart_ok (hw s)" "plocks_free (hw s)" "lock_free Lk_uart (hw s)" "\<not> panicked s" and l: "length (tx_items s) < UART_TX_BUF_SIZE"
  obtains s' where "uartputc sw c s = Some s'" "thr s' @ tx_items s' = thr s @ tx_items s @ [c]" "hw s' = hw s" "panicked s' = panicked s"
    "length (tx_items s') \<le> Suc (length (tx_items s))" "tx_frame (tx_put c s) s'"
proof -
  let ?s1 = "tx_put c (s\<lparr>hw := acq Lk_uart (hw s)\<rparr>)"
  have "uart_tx_w s \<noteq> uart_tx_r s + of_nat UART_TX_BUF_SIZE" using l tx_full [of s] by simp
  then have w: "uartputc_wait sw (s\<lparr>hw := acq Lk_uart (hw s)\<rparr>) = Some (s\<lparr>hw := acq Lk_uart (hw s)\<rparr>)"
    by (subst uartputc_wait.simps) simp
  have i1: "tx_items ?s1 = tx_items s @ [c]" "hw ?s1 = acq Lk_uart (hw s)" "thr ?s1 = thr s"
    using tx.items_enq [of "s\<lparr>hw := acq Lk_uart (hw s)\<rparr>" c] l by (simp_all add: tx_items_def tx_put_def)
  obtain k s2 where s2: "uartstart ?s1 = Some s2" "k \<le> Suc (length (tx_items s))" "thr s2 = thr s @ take k (tx_items s @ [c])"
      "tx_items s2 = drop k (tx_items s @ [c])" "tx_frame ?s1 s2"
    using uartstart_ok [of ?s1] r(1,2) i1 by auto
  have h2: "hw s2 = acq Lk_uart (hw s)" "panicked s2 = panicked s"
    using s2(5) i1 by (auto simp: tx_frame_def tx_put_def dest: arg_cong [where f = hw] arg_cong [where f = panicked])
  let ?s' = "s2\<lparr>hw := hw s\<rparr>"
  have "uartputc sw c s = Some ?s'" using r s2(1) w h2 by (simp add: uartputc_def kstep)
  moreover have hw': "tx_items (t\<lparr>hw := h\<rparr>) = tx_items t" for t :: "'a tty_state_scheme" and h by (simp add: tx_items_def)
  have "thr s2 @ tx_items ?s' = thr s @ tx_items s @ [c]" unfolding hw' s2(3,4) by (simp only: append.assoc append_take_drop_id)
  moreover have "tx_frame (tx_put c s) ?s'"
  proof -
    have "?s'\<lparr>procs := procs s, thr := thr s, uart_tx_r := uart_tx_r s, lsr_reads := lsr_reads s\<rparr> =
        (s2\<lparr>procs := procs s, thr := thr s, uart_tx_r := uart_tx_r s, lsr_reads := lsr_reads s\<rparr>)\<lparr>hw := hw s\<rparr>" by simp
    also have "\<dots> = tx_put c s" using s2(5) by (simp add: tx_frame_def tx_put_def)
    finally show ?thesis using s2(5) by (simp add: tx_frame_def tx_put_def)
  qed
  moreover have "length (tx_items ?s') \<le> Suc (length (tx_items s))" using s2(4) unfolding hw' by simp
  ultimately show ?thesis using h2 by (intro that [of ?s']) simp_all
qed

lemma consolewrite_loop_ok:
  assumes "hart_ok (hw s)" "plocks_free (hw s)" "lock_free Lk_uart (hw s)" "\<not> panicked s" "length (tx_items s) + k \<le> UART_TX_BUF_SIZE" "k \<le> length bs"
  shows "\<exists>s'. consolewrite_loop sw k (Kobj bs) i s = Some (i + int k, s') \<and> thr s' @ tx_items s' = thr s @ tx_items s @ take k bs \<and>
    hw s' = hw s \<and> panicked s' = panicked s \<and> length (tx_items s') \<le> length (tx_items s) + k"
  using assms
proof (induction k arbitrary: bs i s)
  case (Suc k)
  then obtain b bs' where b: "bs = b # bs'" by (cases bs) auto
  obtain s1 where s1: "uartputc sw b s = Some s1" "thr s1 @ tx_items s1 = thr s @ tx_items s @ [b]" "hw s1 = hw s" "panicked s1 = panicked s"
      "length (tx_items s1) \<le> Suc (length (tx_items s))"
    using uartputc_ok [of s sw b] Suc.prems by auto
  obtain s' where s': "consolewrite_loop sw k (Kobj bs') (i + 1) s1 = Some (i + 1 + int k, s')"
      "thr s' @ tx_items s' = thr s1 @ tx_items s1 @ take k bs'" "hw s' = hw s1" "panicked s' = panicked s1" "length (tx_items s') \<le> length (tx_items s1) + k"
    using Suc.IH [of s1 bs' "i + 1"] Suc.prems s1 b by auto
  have "either_copyin (Kobj bs) 1 s = Some (0, [b], s)" using Suc.prems b by (simp add: either_copyin_def kstep)
  then have "consolewrite_loop sw (Suc k) (Kobj bs) i s = Some (i + int (Suc k), s')" using s1(1) s'(1) b by (simp add: kplace_add_def)
  moreover have "thr s' @ tx_items s' = thr s @ tx_items s @ take (Suc k) bs" using s'(2) s1(2) b by (metis append.assoc append_Cons append_Nil take_Suc_Cons)
  ultimately show ?case using s1 s' by auto
qed auto

section \<open>Line editing\<close>

text \<open>The abstract console: the bytes ready for readers, and the line being typed.\<close>

definition cons_ready :: "'z tty_state_scheme \<Rightarrow> u8 list" where
  "cons_ready s = ring_items INPUT_BUF_SIZE (cons_buf s) (cons_r s) (cons_w s)"

definition cons_line :: "'z tty_state_scheme \<Rightarrow> u8 list" where
  "cons_line s = ring_items INPUT_BUF_SIZE (cons_buf s) (cons_w s) (cons_e s)"

definition cons_ok :: "'z tty_state_scheme \<Rightarrow> bool" where
  "cons_ok s \<longleftrightarrow> length (cons_ready s) + length (cons_line s) \<le> INPUT_BUF_SIZE \<and> chr_byte (CHR 0x0A) \<notin> set (cons_line s)"

definition rub_out :: "u8 list" where
  "rub_out = [8, 32, 8]"

text \<open>What typing a character does to the abstract console, and what is echoed.\<close>

definition edit :: "int \<Rightarrow> u8 list \<times> u8 list \<Rightarrow> (u8 list \<times> u8 list) \<times> u8 list" where
  "edit c = (\<lambda>(ready, line).
     if c = ctrl CHR ''U'' then ((ready, []), concat (replicate (length line) rub_out))
     else if c = ctrl CHR ''H'' \<or> c = 0x7f then
       (if line = [] then ((ready, line), []) else ((ready, butlast line), rub_out))
     else if c \<noteq> 0 \<and> length ready + length line < INPUT_BUF_SIZE then
       (let c = (if c = 13 then 10 else c); line = line @ [word_of_int c] in
        if c = 10 \<or> c = 4 \<or> length ready + length line = INPUT_BUF_SIZE then ((ready @ line, []), [word_of_int c])
        else ((ready, line), [word_of_int c]))
     else ((ready, line), []))"

lemma in_size: "INPUT_BUF_SIZE dvd 2 ^ LENGTH(32)" "INPUT_BUF_SIZE < 2 ^ LENGTH(32)"
  by (simp_all add: INPUT_BUF_SIZE_def)

lemma cons_whole:
  assumes "length (cons_ready s) + length (cons_line s) \<le> INPUT_BUF_SIZE"
  shows "ring_items INPUT_BUF_SIZE (cons_buf s) (cons_r s) (cons_e s) = cons_ready s @ cons_line s"
    "unat (cons_e s - cons_r s) = length (cons_ready s) + length (cons_line s)"
proof -
  have "cons_e s - cons_r s = (cons_w s - cons_r s) + (cons_e s - cons_w s)" by simp
  then have "unat (cons_e s - cons_r s) = unat (cons_w s - cons_r s) + unat (cons_e s - cons_w s)"
    using assms by (simp only: unat_word_ariths) (simp add: cons_ready_def cons_line_def INPUT_BUF_SIZE_def)
  then show "unat (cons_e s - cons_r s) = length (cons_ready s) + length (cons_line s)" by (simp add: cons_ready_def cons_line_def)
  then have "unat (cons_w s - cons_r s) \<le> unat (cons_e s - cons_r s)" by (simp add: cons_ready_def cons_line_def)
  then show "ring_items INPUT_BUF_SIZE (cons_buf s) (cons_r s) (cons_e s) = cons_ready s @ cons_line s"
    unfolding cons_ready_def cons_line_def by (rule ring_split [OF in_size(1)])
qed

lemma consputc_rub: "hart_ok (hw s) \<Longrightarrow> \<not> panicked s \<Longrightarrow> consputc BACKSPACE s = Some (s\<lparr>thr := thr s @ rub_out\<rparr>)"
  by (simp add: consputc_def uartputc_sync_def pop_push_off BACKSPACE_def rub_out_def)

lemma cons_line_last:
  assumes "cons_line s \<noteq> []"
  shows "cons_buf s (unat (cons_e s - 1) mod INPUT_BUF_SIZE) = last (cons_line s)"
    "cons_line (s\<lparr>cons_e := cons_e s - 1\<rparr>) = butlast (cons_line s)"
proof -
  have ne: "cons_e s \<noteq> cons_w s" using assms by (simp add: cons_line_def)
  then have k: "unat (cons_e s - cons_w s) \<noteq> 0" by (simp add: unat_eq_zero)
  define k where "k = unat (cons_e s - cons_w s) - 1"
  have e: "unat (cons_e s - cons_w s) = Suc k" using k by (simp add: k_def)
  have "cons_e s - cons_w s = of_nat (unat (cons_e s - cons_w s))" by simp
  then have "cons_e s - cons_w s = of_nat (Suc k)" by (simp only: e)
  then have "cons_e s - 1 = cons_w s + of_nat k" by (simp add: algebra_simps)
  then show "cons_buf s (unat (cons_e s - 1) mod INPUT_BUF_SIZE) = last (cons_line s)"
    unfolding cons_line_def ring_items_def e by simp
  show "cons_line (s\<lparr>cons_e := cons_e s - 1\<rparr>) = butlast (cons_line s)"
    using ring_unpush [OF ne] by (simp add: cons_line_def)
qed

text \<open>The loop of control-U ends: each turn takes a byte off the line.\<close>

lemma kill_line_ok:
  assumes "hart_ok (hw s)" "\<not> panicked s" "chr_byte (CHR 0x0A) \<notin> set (cons_line s)"
  shows "kill_line s = Some (s\<lparr>cons_e := cons_w s, thr := thr s @ concat (replicate (length (cons_line s)) rub_out)\<rparr>)"
  using assms
proof (induction "length (cons_line s)" arbitrary: s)
  case 0
  then have "cons_line s = []" by simp
  then have "cons_e s = cons_w s" by (simp add: cons_line_def)
  then show ?case by (subst kill_line.simps) (simp add: cons_line_def)
next
  case (Suc n)
  then have ne: "cons_line s \<noteq> []" "cons_e s \<noteq> cons_w s" by (auto simp: cons_line_def)
  let ?s1 = "s\<lparr>cons_e := cons_e s - 1, thr := thr s @ rub_out\<rparr>"
  have l1: "cons_line ?s1 = butlast (cons_line s)" using cons_line_last(2) [OF ne(1)] by (simp add: cons_line_def)
  have "last (cons_line s) \<noteq> chr_byte (CHR 0x0A)" using Suc.prems(3) ne(1) by (metis last_in_set)
  then have "kill_line s = kill_line ?s1"
    by (subst kill_line.simps) (use ne Suc.prems cons_line_last(1) [OF ne(1)] in \<open>simp add: consputc_rub\<close>)
  also have "\<dots> = Some (?s1\<lparr>cons_e := cons_w ?s1, thr := thr ?s1 @ concat (replicate (length (cons_line ?s1)) rub_out)\<rparr>)"
    by (rule Suc.hyps(1)) (use Suc.hyps(2) Suc.prems l1 in \<open>auto dest: in_set_butlastD\<close>)
  finally show ?case using Suc.hyps(2) [symmetric] l1 by simp
qed

lemma procdump_ok:
  assumes "hart_ok (hw s)" "lock_free Lk_pr (hw s)" "\<not> panicked s"
  shows "\<exists>xs. procdump s = Some (s\<lparr>thr := thr s @ xs\<rparr>)"
proof -
  let ?f = "''%d  %d  %d  %d  %d ''"
  let ?B = "\<lambda>p s. if p_state (procs s p) = UNUSED then Some s
       else if p_pid (procs s p) > 2 then do {
         s \<leftarrow> printf ?f [VInt (p_pid (procs s p)), VInt (p_queue (procs s p)),
               VInt (p_pqtct (procs s p)), VInt (p_wwpqtct (procs s p)), VInt (p_qnumber (procs s p))] s;
         printf [CHR 0x0A] [] s }
       else Some s"
  have r: "\<exists>cs. render ?f [VInt a, VInt b, VInt c, VInt d, VInt e] = Some cs" for a b c d e by simp
  have nl: "printf [CHR 0x0A] [] t = Some (t\<lparr>thr := thr t @ bytes_of [CHR 0x0A]\<rparr>)"
    if "hw t = hw s" "panicked t = panicked s" for t :: "'a proc_state_scheme"
    by (rule printf_ok) (use that assms in simp_all)
  have b: "\<exists>xs. ?B p t = Some (t\<lparr>thr := thr t @ xs\<rparr>)" if t: "hw t = hw s" "panicked t = panicked s" for p and t :: "'a proc_state_scheme"
  proof -
    obtain cs where cs: "render ?f [VInt (p_pid (procs t p)), VInt (p_queue (procs t p)),
               VInt (p_pqtct (procs t p)), VInt (p_wwpqtct (procs t p)), VInt (p_qnumber (procs t p))] = Some cs" using r by blast
    have "printf ?f [VInt (p_pid (procs t p)), VInt (p_queue (procs t p)), VInt (p_pqtct (procs t p)), VInt (p_wwpqtct (procs t p)),
        VInt (p_qnumber (procs t p))] t = Some (t\<lparr>thr := thr t @ bytes_of cs\<rparr>)"
      by (rule printf_ok) (use t assms cs in simp_all)
    then have "?B p t = (if p_state (procs t p) = UNUSED then Some t else if p_pid (procs t p) > 2
        then Some (t\<lparr>thr := thr t @ (bytes_of cs @ bytes_of [CHR 0x0A])\<rparr>) else Some t)"
      using nl t by simp
    moreover have "t = t\<lparr>thr := thr t @ []\<rparr>" by simp
    ultimately show ?thesis by metis
  qed
  have "\<exists>xs. for_n i n ?B t = Some (t\<lparr>thr := thr t @ xs\<rparr>)" if "hw t = hw s" "panicked t = panicked s" for i n and t :: "'a proc_state_scheme"
    using that
  proof (induction n arbitrary: i t)
    case 0
    then show ?case by (intro exI [of _ "[]"]) simp
  next
    case (Suc n)
    obtain xs where xs: "?B i t = Some (t\<lparr>thr := thr t @ xs\<rparr>)" using b Suc.prems by blast
    obtain ys where "for_n (Suc i) n ?B (t\<lparr>thr := thr t @ xs\<rparr>) = Some (t\<lparr>thr := thr t @ xs\<rparr>\<lparr>thr := thr (t\<lparr>thr := thr t @ xs\<rparr>) @ ys\<rparr>)"
      using Suc.IH [of "t\<lparr>thr := thr t @ xs\<rparr>" "Suc i"] Suc.prems by auto
    then show ?case unfolding for_n.simps xs by (intro exI [of _ "xs @ ys"]) simp
  qed
  from this [of "s\<lparr>thr := thr s @ bytes_of [CHR 0x0A]\<rparr>" 0 NPROC] show ?thesis
    using nl [of s] by (auto simp: procdump_def)
qed

lemma chars [simp]:
  "ctrl CHR ''P'' = 16" "ctrl CHR ''U'' = 21" "ctrl CHR ''H'' = 8" "ctrl CHR ''D'' = 4" "chr_int (CHR 0x0A) = 10" "chr_int (CHR 0x0D) = 13"
  "chr_byte (CHR 0x0A) = 10"
  by (simp_all add: ctrl_def chr_int_def chr_byte_def)

lemma consputc_byte:
  "hart_ok (hw s) \<Longrightarrow> \<not> panicked s \<Longrightarrow> 0 \<le> c \<Longrightarrow> c < 256 \<Longrightarrow> consputc c s = Some (s\<lparr>thr := thr s @ [word_of_int c]\<rparr>)"
  by (simp add: consputc_def uartputc_sync_def pop_push_off BACKSPACE_def)

lemma cons_put_ok:
  assumes l: "length (cons_ready s) + length (cons_line s) < INPUT_BUF_SIZE"
  shows "cons_line (cons_put c s) = cons_line s @ [c]" "cons_ready (cons_put c s) = cons_ready s"
proof -
  let ?s = "cons_put c s"
  have f: "cons_buf ?s = (cons_buf s)(unat (cons_e s) mod INPUT_BUF_SIZE := c)" "cons_e ?s = cons_e s + 1" "cons_r ?s = cons_r s" "cons_w ?s = cons_w s"
    by (simp_all add: cons_put_def)
  note w = cons_whole [OF less_imp_le [OF l]]
  have "unat (cons_e s - cons_w s) < INPUT_BUF_SIZE" using l by (simp add: cons_line_def cons_ready_def)
  then show line: "cons_line ?s = cons_line s @ [c]" using ring_push [OF in_size] by (simp add: cons_line_def f)
  have "unat (cons_e s - cons_r s) < INPUT_BUF_SIZE" using l w(2) by simp
  then have r: "ring_items INPUT_BUF_SIZE (cons_buf ?s) (cons_r ?s) (cons_e ?s) = cons_ready s @ cons_line s @ [c]"
    using w(1) by (simp add: f ring_push [OF in_size])
  have "unat (cons_w ?s - cons_r ?s) \<le> unat (cons_e ?s - cons_r ?s)"
    using arg_cong [OF r, of length] by (simp add: f cons_ready_def)
  from ring_split [OF in_size(1) this, of "cons_buf ?s"] r line show "cons_ready ?s = cons_ready s"
    by (simp add: cons_ready_def cons_line_def)
qed

lemma cons_upd [simp]:
  "cons_line (s\<lparr>thr := x\<rparr>) = cons_line s" "cons_ready (s\<lparr>thr := x\<rparr>) = cons_ready s" "cons_line (s\<lparr>hw := h\<rparr>) = cons_line s"
  "cons_ready (s\<lparr>hw := h\<rparr>) = cons_ready s" "cons_line (map_procs f s) = cons_line s" "cons_ready (map_procs f s) = cons_ready s"
  "cons_ready (s\<lparr>cons_e := e\<rparr>) = cons_ready s" "e = cons_w s \<Longrightarrow> cons_line (s\<lparr>cons_e := e\<rparr>) = []"
  "w = cons_e s \<Longrightarrow> cons_line (s\<lparr>cons_w := w\<rparr>) = []"
  by (simp_all add: cons_line_def cons_ready_def map_procs_def ring_items_def)

lemma thr_map_procs: "thr (map_procs f s) = thr s"
  by (simp add: map_procs_def)

lemma cons_publish:
  "length (cons_ready s) + length (cons_line s) \<le> INPUT_BUF_SIZE \<Longrightarrow> cons_ready (s\<lparr>cons_w := cons_e s\<rparr>) = cons_ready s @ cons_line s"
  using cons_whole(1) [of s] by (simp add: cons_ready_def)

text \<open>C17: The console interrupt handler implements line editing: for every character it returns, keeps the
  input buffer consistent, changes the bytes ready for readers and the line being typed as \<open>edit\<close> says and
  echoes what \<open>edit\<close> says; control-P leaves both alone.\<close>

theorem consoleintr_refines_edit:
  assumes r: "hart_ok (hw s)" "plocks_free (hw s)" "lock_free Lk_cons (hw s)" "lock_free Lk_pr (hw s)" "\<not> panicked s"
    and ok: "cons_ok s" and c: "0 \<le> c" "c < 256"
  shows "\<exists>s'. consoleintr c s = Some s' \<and> cons_ok s' \<and> hw s' = hw s \<and>
    (if c = ctrl CHR ''P'' then cons_ready s' = cons_ready s \<and> cons_line s' = cons_line s
     else ((cons_ready s', cons_line s'), thr s') =
       (let (v, echo) = edit c (cons_ready s, cons_line s) in (v, thr s @ echo)))"
proof -
  let ?s1 = "s\<lparr>hw := acq Lk_cons (hw s)\<rparr>" and ?n = "length (cons_ready s) + length (cons_line s)"
  have n: "?n \<le> INPUT_BUF_SIZE" "10 \<notin> set (cons_line s)" using ok by (simp_all add: cons_ok_def)
  have h1: "hart_ok (hw ?s1)" "plocks_free (hw ?s1)" "\<not> panicked ?s1" "lock_free Lk_pr (hw ?s1)" using r by simp_all
  have run: ?thesis if "hw s2 = acq Lk_cons (hw s)" "consoleintr c s = unlock Lk_cons s2" "cons_ok s2"
    "if c = ctrl CHR ''P'' then cons_ready s2 = cons_ready s \<and> cons_line s2 = cons_line s
     else ((cons_ready s2, cons_line s2), thr s2) = (let (v, echo) = edit c (cons_ready s, cons_line s) in (v, thr s @ echo))" for s2
    using that r(1,3) by (intro exI [of _ "s2\<lparr>hw := hw s\<rparr>"]) (auto simp: unlock_ok cons_ok_def split: if_splits)
  consider (P) "c = 16" | (U) "c = 21" | (H0) "c = 8 \<or> c = 127" "cons_line s = []" | (H1) "c = 8 \<or> c = 127" "cons_line s \<noteq> []"
    | (full) "c \<notin> {16, 21, 8, 127}" "c = 0 \<or> \<not> ?n < INPUT_BUF_SIZE" | (add) "c \<notin> {0, 16, 21, 8, 127}" "?n < INPUT_BUF_SIZE" by auto
  then show ?thesis
  proof cases
    case P
    obtain xs where "procdump ?s1 = Some (?s1\<lparr>thr := thr ?s1 @ xs\<rparr>)" using procdump_ok [OF h1(1,4,3)] by blast
    then show ?thesis by (intro run [of "?s1\<lparr>thr := thr ?s1 @ xs\<rparr>"]) (use P n r in \<open>simp_all add: consoleintr_def kstep cons_ok_def\<close>)
  next
    case U
    show ?thesis by (rule run [of "?s1\<lparr>cons_e := cons_w s, thr := thr s @ concat (replicate (length (cons_line s)) rub_out)\<rparr>"])
      (use U n r kill_line_ok [of ?s1] in \<open>simp_all add: consoleintr_def kstep cons_ok_def edit_def\<close>)
  next
    case H0
    then have "cons_e s = cons_w s" by (simp add: cons_line_def)
    then show ?thesis by (intro run [of ?s1]) (use H0 n r in \<open>auto simp: consoleintr_def kstep cons_ok_def edit_def\<close>)
  next
    case H1
    then have "cons_e s \<noteq> cons_w s" by (simp add: cons_line_def)
    moreover have "cons_line (?s1\<lparr>cons_e := cons_e s - 1\<rparr>) = butlast (cons_line s)" using cons_line_last(2) [of ?s1] H1(2) by simp
    ultimately show ?thesis by (intro run [of "?s1\<lparr>cons_e := cons_e s - 1, thr := thr s @ rub_out\<rparr>"])
      (use H1 n r in \<open>auto simp: consoleintr_def kstep cons_ok_def edit_def consputc_rub dest: in_set_butlastD\<close>)
  next
    case full
    have "c \<noteq> 0 \<Longrightarrow> \<not> cons_e s - cons_r s < of_nat INPUT_BUF_SIZE"
      using full cons_whole(2) [OF n(1)] by (simp add: word_less_nat_alt INPUT_BUF_SIZE_def)
    then show ?thesis by (intro run [of ?s1]) (use full n r in \<open>auto simp: consoleintr_def kstep cons_ok_def edit_def\<close>)
  next
    case add
    define d where "d = (if c = 13 then 10 else c)"
    define s2 where "s2 = cons_put (word_of_int d) (?s1\<lparr>thr := thr s @ [word_of_int d]\<rparr>)"
    let ?pub = "d = 10 \<or> d = 4 \<or> Suc ?n = INPUT_BUF_SIZE"
    have lt: "cons_e s - cons_r s < of_nat INPUT_BUF_SIZE"
      using add(2) cons_whole(2) [OF n(1)] by (simp add: word_less_nat_alt INPUT_BUF_SIZE_def)
    have p: "cons_line s2 = cons_line s @ [word_of_int d]" "cons_ready s2 = cons_ready s"
      using cons_put_ok [of "?s1\<lparr>thr := thr s @ [word_of_int d]\<rparr>"] add(2) by (simp_all add: s2_def)
    have s2: "hw s2 = acq Lk_cons (hw s)" "thr s2 = thr s @ [word_of_int d]" by (simp_all add: s2_def cons_put_def)
    have l2: "length (cons_ready s2) + length (cons_line s2) = Suc ?n" by (simp add: p)
    have full: "cons_e s2 - cons_r s2 = of_nat INPUT_BUF_SIZE \<longleftrightarrow> Suc ?n = INPUT_BUF_SIZE"
      using cons_whole(2) [of s2] l2 add(2) by (simp add: word_unat_eq_iff INPUT_BUF_SIZE_def)
    have d: "0 \<le> d" "d < 256" using c by (simp_all add: d_def)
    have step: "consoleintr c s = (if ?pub then wakeup (Some Ch_cons_r) (s2\<lparr>cons_w := cons_e s2\<rparr>) else Some s2) \<bind> unlock Lk_cons"
    proof (cases "c = 13")
      case True
      then have "d = 10" by (simp add: d_def)
      then show ?thesis using True r lt full consputc_byte [of ?s1 d] by (simp add: consoleintr_def kstep s2_def Let_def)
    next
      case False
      then have "d = c" by (simp add: d_def)
      then show ?thesis using False add r lt full consputc_byte [of ?s1 d] c by (auto simp: consoleintr_def kstep s2_def Let_def)
    qed
    show ?thesis
    proof (cases ?pub)
      case True
      let ?s3 = "map_procs (wake (cproc (mycpu (hw s))) (Some Ch_cons_r)) (s2\<lparr>cons_w := cons_e s2\<rparr>)"
      have "consoleintr c s = unlock Lk_cons ?s3" unfolding step using True wakeup_ok [of "s2\<lparr>cons_w := cons_e s2\<rparr>"] s2 r h1 by simp
      moreover have "edit c (cons_ready s, cons_line s) = ((cons_ready s @ cons_line s @ [word_of_int d], []), [word_of_int d])"
        using True add by (auto simp: edit_def Let_def d_def)
      moreover have "cons_ready ?s3 = cons_ready s @ cons_line s @ [word_of_int d]" "cons_line ?s3 = []" "thr ?s3 = thr s2" "hw ?s3 = hw s2"
        using cons_publish [of s2] l2 add(2) p by (simp_all add: thr_map_procs)
      ultimately show ?thesis using add s2 by (intro run [of ?s3]) (simp_all add: cons_ok_def)
    next
      case False
      then have "consoleintr c s = unlock Lk_cons s2" unfolding step by simp
      moreover have "uint (word_of_int d :: u8) = d" using d by (simp add: unsigned_of_int take_bit_int_eq_self)
      then have "word_of_int d \<noteq> (10 :: u8)" using False by auto
      moreover have "edit c (cons_ready s, cons_line s) = ((cons_ready s, cons_line s @ [word_of_int d]), [word_of_int d])"
        using False add by (auto simp: edit_def Let_def d_def)
      ultimately show ?thesis using add n s2 p by (intro run [of s2]) (simp_all add: cons_ok_def)
    qed
  qed
qed

text \<open>C31: Writing to the console while its output buffer has room returns the number of bytes, and the bytes come
  after everything sent or pending, in order, whatever the transmitter's status register says in between.\<close>

theorem consolewrite_stream:
  assumes "hart_ok (hw s)" "plocks_free (hw s)" "lock_free Lk_uart (hw s)" "\<not> panicked s"
    and "length (tx_items s) + length bs \<le> UART_TX_BUF_SIZE"
  shows "\<exists>s'. consolewrite sw (Kobj bs) (int (length bs)) s = Some (int (length bs), s') \<and>
    thr s' @ tx_items s' = thr s @ tx_items s @ bs \<and> length (tx_items s') \<le> UART_TX_BUF_SIZE \<and> hw s' = hw s"
proof -
  obtain s' where "consolewrite_loop sw (length bs) (Kobj bs) 0 s = Some (int (length bs), s')" "thr s' @ tx_items s' = thr s @ tx_items s @ bs"
      "hw s' = hw s" "length (tx_items s') \<le> length (tx_items s) + length bs"
    using consolewrite_loop_ok [OF assms(1-5) order_refl, of sw 0] by auto
  then show ?thesis using assms(5) by (intro exI [of _ s']) (simp add: consolewrite_def)
qed

section \<open>Concrete consoles\<close>

definition tty0 :: tty_state where
  "tty0 = fs_state.extend (fs_state.truncate fs1) (tty_state.fields (\<lambda>_. 0) 0 0 0 (\<lambda>_. 0) 0 0 [] (\<lambda>n. n = 0) 0 [] (\<lambda>_. \<lparr>d_read = None, d_write = None\<rparr>))"

lemma tty0_ok: "running 1 (hw tty0)" "\<not> panicked tty0" "tx_items tty0 = []" "cons_ready tty0 = []" "cons_line tty0 = []"
proof -
  have "running 1 (hw fs1)" "\<not> panicked fs1" using fs_ok_running [OF fs1_ok(1)] fs1_ok(1) by (simp_all add: fs_ok_def)
  then show "running 1 (hw tty0)" "\<not> panicked tty0" "tx_items tty0 = []" "cons_ready tty0 = []" "cons_line tty0 = []"
    by (simp_all add: tty0_def tty_state.defs fs_state.defs tx_items_def cons_ready_def cons_line_def ring_items_def)
qed

text \<open>The transmitter takes one byte and is then busy.\<close>

theorem consolewrite_stream_witness:
  "\<exists>s'. consolewrite sw_disk (Kobj [104, 105]) 2 tty0 = Some (2, s') \<and> thr s' @ tx_items s' = thr tty0 @ [104, 105]"
  using consolewrite_stream [of tty0 "[104, 105]" sw_disk] tty0_ok runningD [OF tty0_ok(1)] by (auto simp: UART_TX_BUF_SIZE_def)

theorem consoleintr_refines_edit_witness:
  "\<exists>s'. consoleintr 97 tty0 = Some s' \<and> cons_line s' = [97] \<and> cons_ready s' = [] \<and> thr s' = thr tty0 @ [97]"
proof -
  have "cons_ok tty0" using tty0_ok by (simp add: cons_ok_def)
  then show ?thesis using consoleintr_refines_edit [of tty0 97] tty0_ok runningD [OF tty0_ok(1)] by (auto simp: edit_def Let_def INPUT_BUF_SIZE_def)
qed

end
