(* ===== verification/Vmcopy.thy ===== *)
theory Vmcopy
  imports Vm
begin

unbundle bit_operations_syntax

text \<open>
  What copyin and copyout of kernel/vm.c do to user memory.

  \<open>user_addr\<close> translates a user virtual address to the physical one the page table in memory gives it.
\<close>

definition user_addr :: "u64 \<Rightarrow> mem \<Rightarrow> u64 \<Rightarrow> u64 option" where
  "user_addr pt m va = (let p = user_pa pt (PGROUNDDOWN va) m in if p = 0 then None else Some (p + (va - PGROUNDDOWN va)))"

section \<open>Addresses within a page\<close>

lemma page_off: "unat (va - PGROUNDDOWN va) = unat va mod 4096"
proof -
  have "unat (va - PGROUNDDOWN va) = unat va - unat (PGROUNDDOWN va)"
    by (rule unat_sub) (simp add: word_le_nat_alt PGROUNDDOWN_unat)
  then show ?thesis by (simp add: PGROUNDDOWN_unat minus_div_mult_eq_mod)
qed

lemma chunk_eq: "chunk va len = min (4096 - unat va mod 4096) len"
  by (simp add: chunk_def page_off)

lemma same_page:
  assumes "unat va mod 4096 + i < 4096"
  shows "PGROUNDDOWN (va + of_nat i) = PGROUNDDOWN va" "va + of_nat i - PGROUNDDOWN va = (va - PGROUNDDOWN va) + of_nat i"
proof -
  define q where "q = unat va div 4096"
  have v: "unat va = 4096 * q + unat va mod 4096" by (simp add: q_def)
  have "unat va < 2 ^ 64" using unat_bound [of va] by simp
  then have "q < 2 ^ 52" by (simp add: q_def div_less_iff_less_mult)
  then have lt: "unat va + i < 2 ^ 64" using v assms by simp
  have u: "unat (va + of_nat i) = unat va + i" using lt by (simp add: unat_word_ariths unat_of_nat)
  have "unat va + i = 4096 * q + (unat va mod 4096 + i)" using v by simp
  then have "(unat va + i) div 4096 = q" using assms by simp
  then show "PGROUNDDOWN (va + of_nat i) = PGROUNDDOWN va" by (simp add: word_unat_eq_iff PGROUNDDOWN_unat u q_def)
qed simp

lemma user_addr_same_page:
  "unat va mod 4096 + i < 4096 \<Longrightarrow> user_addr pt m (va + of_nat i) = map_option (\<lambda>a. a + of_nat i) (user_addr pt m va)"
  using same_page [of va i] by (simp add: user_addr_def Let_def add.assoc)

text \<open>The next page starts where this one's part of the range ends.\<close>

lemma next_page: "chunk va len < len \<Longrightarrow> PGROUNDDOWN va + PGSIZE = va + of_nat (chunk va len)"
proof -
  assume "chunk va len < len"
  then have c: "chunk va len = 4096 - unat va mod 4096" by (simp add: chunk_eq)
  have "va - PGROUNDDOWN va = of_nat (unat (va - PGROUNDDOWN va))" by simp
  then have o: "va - PGROUNDDOWN va = of_nat (unat va mod 4096)" by (simp only: page_off)
  have "of_nat (unat va mod 4096) + of_nat (chunk va len) = (of_nat 4096 :: u64)"
    unfolding c by (simp only: of_nat_add [symmetric]) simp
  then have "PGROUNDDOWN va + of_nat 4096 = PGROUNDDOWN va + (va - PGROUNDDOWN va) + of_nat (chunk va len)" unfolding o by (simp only: add.assoc)
  then show ?thesis by (simp add: PGSIZE_def)
qed

lemma map_upt_split: "n \<le> m \<Longrightarrow> map f [0..<n] @ map (\<lambda>i. f (n + i)) [0..<m - n] = map f [0..<m]"
  by (rule nth_equalityI) (auto simp: nth_append)

lemma all_shift: "(\<forall>i<m - n. P (n + i)) \<longleftrightarrow> (\<forall>i. n \<le> i \<longrightarrow> i < m \<longrightarrow> P i)" for m n :: nat
proof (intro iffI allI impI)
  fix i assume "\<forall>i<m - n. P (n + i)" "n \<le> i" "i < m"
  moreover from this have "i - n < m - n" "n + (i - n) = i" by simp_all
  ultimately show "P i" by metis
qed simp

section \<open>copyin\<close>

lemma copyin_ok:
  "\<forall>i<len. user_addr pt (ram s) (va + of_nat i) \<noteq> None \<Longrightarrow>
    copyin pt va len s = Some (0, map (\<lambda>i. ram s (the (user_addr pt (ram s) (va + of_nat i)))) [0..<len], s)"
proof (induction pt va len s rule: copyin.induct)
  case (1 pt va len s)
  show ?case
  proof (cases "len = 0")
    case True
    then show ?thesis by (simp add: copyin.simps)
  next
    case False
    let ?p = "user_pa pt (PGROUNDDOWN va) (ram s)" and ?n = "chunk va len" and ?A = "\<lambda>i. user_addr pt (ram s) (va + of_nat i)"
    have "?A 0 \<noteq> None" using "1.prems" False by blast
    then have p: "?p \<noteq> 0" "user_addr pt (ram s) va = Some (?p + (va - PGROUNDDOWN va))" by (auto simp: user_addr_def Let_def split: if_splits)
    have bs: "get_bytes (?p + (va - PGROUNDDOWN va)) ?n (ram s) = map (\<lambda>i. ram s (the (?A i))) [0..<?n]"
      using p(2) by (auto simp: get_bytes_def user_addr_same_page chunk_eq)
    have le: "?n \<le> len" by (simp add: chunk_eq)
    have "copyin pt (PGROUNDDOWN va + PGSIZE) (len - ?n) s = Some (0, map (\<lambda>i. ram s (the (?A (?n + i)))) [0..<len - ?n], s)"
    proof (cases "?n < len")
      case True
      have "\<forall>i<len - ?n. user_addr pt (ram s) (PGROUNDDOWN va + PGSIZE + of_nat i) \<noteq> None"
        using "1.prems" unfolding next_page [OF True] by (simp add: add.assoc flip: of_nat_add)
      from "1.IH" [OF False refl walkaddr_eq refl p(1) refl refl this]
      show ?thesis unfolding next_page [OF True] by (simp add: add.assoc)
    qed (use le in \<open>simp add: copyin.simps\<close>)
    then show ?thesis using False p bs map_upt_split [OF le, of "\<lambda>i. ram s (the (?A i))"] by (subst copyin.simps) (simp add: Let_def)
  qed
qed

lemma copyin_bad:
  "i < len \<Longrightarrow> user_addr pt (ram s) (va + of_nat i) = None \<Longrightarrow> \<exists>bs. copyin pt va len s = Some (-1, bs, s)"
proof (induction pt va len s arbitrary: i rule: copyin.induct)
  case (1 pt va len s)
  let ?p = "user_pa pt (PGROUNDDOWN va) (ram s)" and ?n = "chunk va len"
  have ne: "len \<noteq> 0" using "1.prems" by simp
  show ?case
  proof (cases "?p = 0")
    case True
    then show ?thesis using ne by (subst copyin.simps) (simp add: Let_def)
  next
    case False
    have "?n \<le> i"
    proof (rule ccontr)
      assume "\<not> ?n \<le> i"
      then have "unat va mod 4096 + i < 4096" by (simp add: chunk_eq)
      then have "user_addr pt (ram s) va = None" using user_addr_same_page "1.prems"(2) by fastforce
      then show False using False by (simp add: user_addr_def Let_def)
    qed
    then have lt: "?n < len" and i: "va + of_nat i = PGROUNDDOWN va + PGSIZE + of_nat (i - ?n)"
      using "1.prems"(1) next_page [of va len] by (simp_all add: add.assoc flip: of_nat_add)
    have "i - ?n < len - ?n" using lt "1.prems"(1) \<open>?n \<le> i\<close> by simp
    from "1.IH" [OF ne refl walkaddr_eq refl False refl refl this] "1.prems"(2) i obtain bs where
      "copyin pt (PGROUNDDOWN va + PGSIZE) (len - ?n) s = Some (-1, bs, s)" by auto
    then show ?thesis using ne False by (subst copyin.simps) (simp add: Let_def)
  qed
qed

section \<open>copyout\<close>

text \<open>The bytes of page-table entries that translating an address reads.\<close>

definition entry_bytes :: "u64 \<Rightarrow> u64 set" where
  "entry_bytes a = {a + of_nat i | i. i < 8}"

primrec walk_bytes :: "nat \<Rightarrow> u64 \<Rightarrow> u64 \<Rightarrow> mem \<Rightarrow> u64 set" where
  "walk_bytes 0 pt va m = entry_bytes (slot pt (PX 0 va))"
| "walk_bytes (Suc l) pt va m = entry_bytes (slot pt (PX (Suc l) va)) \<union>
    walk_bytes l (PTE2PA (load m (slot pt (PX (Suc l) va)))) va m"

lemma load_entry_cong: "(\<And>a. a \<in> entry_bytes p \<Longrightarrow> m' a = m a) \<Longrightarrow> (load m' p :: u64) = load m p"
  by (rule load_cong) (auto simp: entry_bytes_def)

lemma walk_ram_cong: "(\<And>a. a \<in> walk_bytes l pt va m \<Longrightarrow> m' a = m a) \<Longrightarrow> walk_ram l pt va m' = walk_ram l pt va m"
proof (induction l arbitrary: pt)
  case (Suc l)
  have "(load m' (slot pt (PX (Suc l) va)) :: u64) = load m (slot pt (PX (Suc l) va))"
    by (rule load_entry_cong) (use Suc.prems in auto)
  then show ?case using Suc.IH [of "PTE2PA (load m (slot pt (PX (Suc l) va)))"] Suc.prems by (simp add: Let_def)
qed simp

lemma walk_ram_in: "walk_ram l pt va m \<noteq> 0 \<Longrightarrow> entry_bytes (walk_ram l pt va m) \<subseteq> walk_bytes l pt va m"
  by (induction l arbitrary: pt) (auto simp: Let_def split: if_splits)

lemma user_pa_cong:
  assumes "\<And>a. a \<in> walk_bytes 2 pt va m \<Longrightarrow> m' a = m a"
  shows "user_pa pt va m' = user_pa pt va m"
proof -
  have w: "walk_ram 2 pt va m' = walk_ram 2 pt va m" by (rule walk_ram_cong) (rule assms)
  have "walk_ram 2 pt va m \<noteq> 0 \<Longrightarrow> (load m' (walk_ram 2 pt va m) :: u64) = load m (walk_ram 2 pt va m)"
    by (rule load_entry_cong) (use assms walk_ram_in in blast)
  then show ?thesis unfolding user_pa_def w by (cases "walk_ram 2 pt va m = 0") (simp_all add: Let_def)
qed

text \<open>A range of user addresses that is mapped, one byte of memory to each address, none of them in a page-table
  entry that the translation reads.\<close>

definition user_range :: "u64 \<Rightarrow> mem \<Rightarrow> u64 \<Rightarrow> nat \<Rightarrow> bool" where
  "user_range pt m va n \<longleftrightarrow> (\<forall>i<n. user_addr pt m (va + of_nat i) \<noteq> None) \<and>
     inj_on (\<lambda>i. user_addr pt m (va + of_nat i)) {..<n} \<and>
     (\<forall>i<n. \<forall>j<n. the (user_addr pt m (va + of_nat i)) \<notin> walk_bytes 2 pt (PGROUNDDOWN (va + of_nat j)) m)"

lemma walk_bytes_cong: "(\<And>a. a \<in> walk_bytes l pt va m \<Longrightarrow> m' a = m a) \<Longrightarrow> walk_bytes l pt va m' = walk_bytes l pt va m"
proof (induction l arbitrary: pt)
  case (Suc l)
  have "(load m' (slot pt (PX (Suc l) va)) :: u64) = load m (slot pt (PX (Suc l) va))"
    by (rule load_entry_cong) (use Suc.prems in auto)
  then show ?case using Suc.IH [of "PTE2PA (load m (slot pt (PX (Suc l) va)))"] Suc.prems by simp
qed simp

lemma user_range_write:
  assumes r: "user_range pt m va n" and w: "\<And>a. (\<forall>i<n. user_addr pt m (va + of_nat i) \<noteq> Some a) \<Longrightarrow> m' a = m a"
  shows "i < n \<Longrightarrow> user_addr pt m' (va + of_nat i) = user_addr pt m (va + of_nat i)" "user_range pt m' va n"
proof -
  have e: "m' a = m a" if "a \<in> walk_bytes 2 pt (PGROUNDDOWN (va + of_nat i)) m" "i < n" for a i
  proof (rule w)
    show "\<forall>k<n. user_addr pt m (va + of_nat k) \<noteq> Some a" using r that unfolding user_range_def by (metis option.sel)
  qed
  have u: "user_addr pt m' (va + of_nat i) = user_addr pt m (va + of_nat i)" if "i < n" for i
    using user_pa_cong [OF e [OF _ that]] by (simp add: user_addr_def)
  then show "i < n \<Longrightarrow> user_addr pt m' (va + of_nat i) = user_addr pt m (va + of_nat i)" .
  have "walk_bytes 2 pt (PGROUNDDOWN (va + of_nat j)) m' = walk_bytes 2 pt (PGROUNDDOWN (va + of_nat j)) m" if "j < n" for j
    by (rule walk_bytes_cong) (rule e [OF _ that])
  moreover have "inj_on (\<lambda>i. user_addr pt m' (va + of_nat i)) {..<n} = inj_on (\<lambda>i. user_addr pt m (va + of_nat i)) {..<n}"
    by (rule inj_on_cong) (use u in simp)
  ultimately show "user_range pt m' va n" using r u unfolding user_range_def by simp
qed

lemma user_range_drop:
  assumes "user_range pt m va n" "k \<le> n"
  shows "user_range pt m (va + of_nat k) (n - k)"
proof -
  have e: "va + of_nat k + of_nat i = va + of_nat (k + i)" for i by (simp add: add.assoc)
  have "inj_on (\<lambda>i. user_addr pt m (va + of_nat (k + i))) {..<n - k}"
    using assms unfolding user_range_def inj_on_def by (metis add_left_cancel lessThan_iff less_diff_conv add.commute)
  moreover have "k + i < n" if "i < n - k" for i using that by simp
  ultimately show ?thesis using assms(1) unfolding user_range_def e by blast
qed

lemma user_range_take: "user_range pt m va n \<Longrightarrow> k \<le> n \<Longrightarrow> user_range pt m va k"
proof -
  assume a: "user_range pt m va n" "k \<le> n"
  then have lt: "i < n" if "i < k" for i using that by simp
  have "inj_on (\<lambda>i. user_addr pt m (va + of_nat i)) {..<k}"
    by (rule inj_on_subset [of _ "{..<n}"]) (use a in \<open>auto simp: user_range_def\<close>)
  then show ?thesis using a(1) lt by (simp add: user_range_def)
qed

lemma copyout_ok:
  "user_range pt (ram s) va (length src) \<Longrightarrow> length src < 2 ^ 64 \<Longrightarrow>
    \<exists>m'. copyout pt va src s = Some (0, s\<lparr>ram := m'\<rparr>) \<and> (\<forall>i<length src. m' (the (user_addr pt (ram s) (va + of_nat i))) = src ! i) \<and>
      (\<forall>a. (\<forall>i<length src. user_addr pt (ram s) (va + of_nat i) \<noteq> Some a) \<longrightarrow> m' a = ram s a)"
proof (induction pt va src s rule: copyout.induct)
  case (1 pt va src s)
  let ?A = "\<lambda>i. user_addr pt (ram s) (va + of_nat i)" and ?len = "length src"
  show ?case
  proof (cases "src = []")
    case True
    then show ?thesis by (intro exI [of _ "ram s"]) (simp add: copyout.simps)
  next
    case False
    let ?p = "user_pa pt (PGROUNDDOWN va) (ram s)" and ?n = "chunk va ?len"
    let ?a = "?p + (va - PGROUNDDOWN va)" and ?m1 = "put_bytes (?p + (va - PGROUNDDOWN va)) (take ?n src) (ram s)"
    have A: "\<And>i. i < ?len \<Longrightarrow> ?A i \<noteq> None" "inj_on ?A {..<?len}" using "1.prems"(1) by (auto simp: user_range_def)
    have p: "?p \<noteq> 0" "user_addr pt (ram s) va = Some ?a" using A(1) [of 0] False by (auto simp: user_addr_def Let_def split: if_splits)
    have le: "?n \<le> ?len" "0 < ?n" "unat va mod 4096 + ?n \<le> 4096"
      using False mod_less_divisor [of 4096 "unat va"] by (auto simp: chunk_eq)
    have Ai: "?A i = Some (?a + of_nat i)" if "i < ?n" for i using that p(2) le(3) by (simp add: user_addr_same_page)
    have m1: "?m1 (?a + of_nat i) = src ! i" if "i < ?n" for i
      using that le by (simp add: put_bytes_apply unat_of_nat)
    have m1': "?m1 a = ram s a" if a: "\<forall>i<?n. ?A i \<noteq> Some a" for a
    proof -
      have "a = ?a + of_nat (unat (a - ?a))" by simp
      then have "\<not> unat (a - ?a) < ?n" using a Ai by metis
      then show ?thesis using le by (subst put_bytes_apply) simp_all
    qed
    have w1: "?m1 a = ram s a" if "\<forall>i<?len. ?A i \<noteq> Some a" for a using m1' that le(1) by simp
    note W = user_range_write [OF "1.prems"(1), of ?m1, OF w1]
    have "\<exists>m'. copyout pt (PGROUNDDOWN va + PGSIZE) (drop ?n src) (s\<lparr>ram := ?m1\<rparr>) = Some (0, s\<lparr>ram := m'\<rparr>) \<and>
        (\<forall>i. ?n \<le> i \<longrightarrow> i < ?len \<longrightarrow> m' (the (?A i)) = src ! i) \<and> (\<forall>a. (\<forall>i. ?n \<le> i \<longrightarrow> i < ?len \<longrightarrow> ?A i \<noteq> Some a) \<longrightarrow> m' a = ?m1 a)"
    proof (cases "?n < ?len")
      case True
      note nx = next_page [OF True]
      have sh: "va + of_nat ?n + of_nat i = va + of_nat (?n + i)" for i by (simp add: add.assoc)
      have r2: "user_range pt (ram (s\<lparr>ram := ?m1\<rparr>)) (PGROUNDDOWN va + PGSIZE) (length (drop ?n src))"
        using user_range_drop [OF W(2) le(1)] unfolding nx by simp
      have l2: "length (drop ?n src) < 2 ^ 64" using "1.prems"(2) by simp
      have "user_addr pt ?m1 (va + of_nat (?n + i)) = ?A (?n + i)" if "i < ?len - ?n" for i
      proof -
        have "?n + i < ?len" using that by linarith
        then show ?thesis by (rule W(1) [rotated]) 
      qed
      then have sf: "user_addr pt ?m1 (PGROUNDDOWN va + PGSIZE + of_nat i) = ?A (?n + i)" if "i < ?len - ?n" for i
        using that unfolding nx sh by blast
      obtain m' where "copyout pt (PGROUNDDOWN va + PGSIZE) (drop ?n src) (s\<lparr>ram := ?m1\<rparr>) = Some (0, s\<lparr>ram := m'\<rparr>)"
          "\<forall>i<?len - ?n. m' (the (?A (?n + i))) = src ! (?n + i)" "\<forall>a. (\<forall>i<?len - ?n. ?A (?n + i) \<noteq> Some a) \<longrightarrow> m' a = ?m1 a"
        using "1.IH" [OF False refl walkaddr_eq refl p(1) refl refl r2 l2] sf by (auto simp del: of_nat_add)
      then show ?thesis unfolding all_shift [of ?len ?n "\<lambda>i. m' (the (?A i)) = src ! i"] all_shift [of ?len ?n "\<lambda>i. ?A i \<noteq> Some _"] by blast
    qed (use le in \<open>auto simp: copyout.simps intro!: exI [of _ ?m1]\<close>)
    then obtain m' where m': "copyout pt (PGROUNDDOWN va + PGSIZE) (drop ?n src) (s\<lparr>ram := ?m1\<rparr>) = Some (0, s\<lparr>ram := m'\<rparr>)"
        "\<And>i. ?n \<le> i \<Longrightarrow> i < ?len \<Longrightarrow> m' (the (?A i)) = src ! i" "\<And>a. \<forall>i. ?n \<le> i \<longrightarrow> i < ?len \<longrightarrow> ?A i \<noteq> Some a \<Longrightarrow> m' a = ?m1 a"
      by blast
    have "m' (the (?A i)) = src ! i" if i: "i < ?len" for i
    proof (cases "i < ?n")
      case True
      have "?A j \<noteq> Some (the (?A i))" if j: "?n \<le> j" "j < ?len" for j
      proof
        assume "?A j = Some (the (?A i))"
        then have "?A j = ?A i" using A(1) [OF i] by simp
        then have "j = i" using inj_onD [OF A(2)] i j(2) by simp
        then show False using True j(1) by simp
      qed
      then have "m' (the (?A i)) = ?m1 (the (?A i))" using m'(3) by blast
      then show ?thesis using m'(3) m1 [OF True] Ai [OF True] by simp
    qed (use m'(2) i in simp)
    moreover have "m' a = ram s a" if "\<forall>i<?len. ?A i \<noteq> Some a" for a using m'(3) w1 that by simp
    moreover have "copyout pt va src s = Some (0, s\<lparr>ram := m'\<rparr>)"
      using m'(1) False p(1) by (subst copyout.simps) (simp add: Let_def)
    ultimately show ?thesis by blast
  qed
qed

section \<open>Properties\<close>

text \<open>C29: copyin succeeds exactly when every address of the range is mapped for the user, and then returns the
  bytes there; otherwise it returns -1. It never changes the state.\<close>

theorem copyin_error_exact:
  "\<exists>bs. copyin pt va len s = Some (if \<forall>i<len. user_addr pt (ram s) (va + of_nat i) \<noteq> None then 0 else -1, bs, s) \<and>
    ((\<forall>i<len. user_addr pt (ram s) (va + of_nat i) \<noteq> None) \<longrightarrow>
      bs = map (\<lambda>i. ram s (the (user_addr pt (ram s) (va + of_nat i)))) [0..<len])"
proof (cases "\<forall>i<len. user_addr pt (ram s) (va + of_nat i) \<noteq> None")
  case True
  from copyin_ok [OF this] True show ?thesis by simp
next
  case False
  then show ?thesis using copyin_bad [of _ len pt s va] by (auto simp del: not_None_eq)
qed

text \<open>C8: What copyout writes to a mapped range of user memory copyin reads back, and no other byte of memory changes.\<close>

theorem copyout_copyin_roundtrip:
  assumes "user_range pt (ram s) va (length src)" "length src < 2 ^ 64"
  shows "\<exists>s'. copyout pt va src s = Some (0, s') \<and> copyin pt va (length src) s' = Some (0, src, s') \<and>
    (\<forall>a. (\<forall>i<length src. user_addr pt (ram s) (va + of_nat i) \<noteq> Some a) \<longrightarrow> ram s' a = ram s a)"
proof -
  obtain m' where m': "copyout pt va src s = Some (0, s\<lparr>ram := m'\<rparr>)" "\<forall>i<length src. m' (the (user_addr pt (ram s) (va + of_nat i))) = src ! i"
      "\<forall>a. (\<forall>i<length src. user_addr pt (ram s) (va + of_nat i) \<noteq> Some a) \<longrightarrow> m' a = ram s a"
    using copyout_ok [OF assms] by blast
  have u: "user_addr pt m' (va + of_nat i) = user_addr pt (ram s) (va + of_nat i)" if "i < length src" for i
    by (rule user_range_write(1) [OF assms(1) _ that]) (use m'(3) in blast)
  then have "\<forall>i<length src. user_addr pt (ram (s\<lparr>ram := m'\<rparr>)) (va + of_nat i) \<noteq> None" using assms(1) by (simp add: user_range_def)
  from copyin_ok [OF this] have "copyin pt va (length src) (s\<lparr>ram := m'\<rparr>) = Some (0, src, s\<lparr>ram := m'\<rparr>)"
    using m'(2) u by (auto intro!: nth_equalityI)
  then show ?thesis using m' by (intro exI [of _ "s\<lparr>ram := m'\<rparr>"]) simp
qed

text \<open>A page table at 0x80001000 that maps the first page to 0x80004000.\<close>

definition umem0 :: mem where
  "umem0 = store 0x80001000 (0x20000801 :: u64) (store 0x80002000 (0x20000c01 :: u64) (store 0x80003000 (0x20001017 :: u64) (\<lambda>_. 0)))"

lemma umem0_load: "load umem0 0x80001000 = (0x20000801 :: u64)" "load umem0 0x80002000 = (0x20000c01 :: u64)" "load umem0 0x80003000 = (0x20001017 :: u64)"
  by (simp_all add: umem0_def load_store_same load_store_other)

lemma umem0_zero: "PX l 0 = 0" "PGROUNDDOWN 0 = 0" "slot pt 0 = pt" by (simp_all add: PX_def PGROUNDDOWN_def slot_def)

lemma umem0_pte:
  "PTE2PA 0x20000801 = 0x80002000" "PTE2PA 0x20000c01 = 0x80003000" "PTE2PA 0x20001017 = 0x80004000" "0x20000801 AND PTE_V \<noteq> 0"
  "0x20000c01 AND PTE_V \<noteq> 0" "0x20001017 AND PTE_V \<noteq> 0" "0x20001017 AND PTE_U \<noteq> 0"
  by (simp_all add: PTE2PA_def PTE_V_def PTE_U_def)

lemma umem0_walk: "walk_ram 2 0x80001000 0 umem0 = 0x80003000" "walk_bytes 2 0x80001000 0 umem0 =
    entry_bytes 0x80001000 \<union> (entry_bytes 0x80002000 \<union> entry_bytes 0x80003000)"
  unfolding numeral_2_eq_2 by (simp_all add: umem0_zero umem0_load umem0_pte)

lemma umem0_addr: "i < 4096 \<Longrightarrow> user_addr 0x80001000 umem0 (of_nat i) = Some (0x80004000 + of_nat i)" "i < 4096 \<Longrightarrow> PGROUNDDOWN (of_nat i) = 0"
proof -
  have "user_pa 0x80001000 0 umem0 = 0x80004000"
    by (simp add: user_pa_def umem0_walk umem0_load umem0_pte Let_def MAXVA_def)
  then have "user_addr 0x80001000 umem0 0 = Some 0x80004000" by (simp add: user_addr_def umem0_zero)
  then show "i < 4096 \<Longrightarrow> user_addr 0x80001000 umem0 (of_nat i) = Some (0x80004000 + of_nat i)"
    using user_addr_same_page [of 0 i "0x80001000" umem0] by simp
  show "i < 4096 \<Longrightarrow> PGROUNDDOWN (of_nat i) = 0" using same_page(1) [of 0 i] by (simp add: umem0_zero)
qed

lemma umem0_range: "n \<le> 4096 \<Longrightarrow> user_range 0x80001000 umem0 0 n"
proof -
  assume n: "n \<le> 4096"
  have u: "unat (0x80004000 + of_nat i :: u64) = 0x80004000 + i" if "i < n" for i using that n by (simp add: unat_word_ariths unat_of_nat)
  have e: "0x80004000 + of_nat i \<notin> entry_bytes a" if "i < n" "unat a + 8 \<le> 0x80004000" for i a
  proof
    assume "0x80004000 + of_nat i \<in> entry_bytes a"
    then obtain j where "j < 8" "0x80004000 + of_nat i = a + of_nat j" by (auto simp: entry_bytes_def)
    moreover from this have "unat (a + of_nat j) = unat a + j" using that by (simp add: unat_word_ariths unat_of_nat)
    ultimately show False using u [OF that(1)] that(2) by simp
  qed
  have "inj_on (\<lambda>i. user_addr 0x80001000 umem0 (of_nat i)) {..<n}"
  proof (rule inj_onI)
    fix i j assume ij: "i \<in> {..<n}" "j \<in> {..<n}" and e: "user_addr 0x80001000 umem0 (of_nat i) = user_addr 0x80001000 umem0 (of_nat j)"
    have "i < 4096" "j < 4096" using ij n by auto
    then have "(0x80004000 + of_nat i :: u64) = 0x80004000 + of_nat j" using e by (simp only: umem0_addr(1) option.inject)
    then have "0x80004000 + i = 0x80004000 + j" using u ij by (metis lessThan_iff)
    then show "i = j" by simp
  qed
  then show ?thesis using n e by (simp add: user_range_def umem0_addr umem0_walk)
qed

definition umem_st :: kmem_state where
  "umem_st = \<lparr>hw = hart0, ram = umem0, freelist = 0, kend = 0x8004cb20\<rparr>"

theorem copyout_copyin_roundtrip_witness:
  "\<exists>s'. copyout 0x80001000 100 [1, 2, 3] umem_st = Some (0, s') \<and> copyin 0x80001000 100 3 s' = Some (0, [1, 2, 3], s')"
proof -
  have "user_range 0x80001000 (ram umem_st) 100 3"
    using user_range_drop [OF umem0_range [of 103], of 100] by (simp add: umem_st_def)
  then show ?thesis using copyout_copyin_roundtrip [of "0x80001000" umem_st 100 "[1, 2, 3]"] by (auto simp: numeral_3_eq_3)
qed

theorem copyin_error_exact_witness:
  "copyin 0x80001000 5 1 umem_st = Some (0, [umem0 0x80004005], umem_st)"
  using copyin_error_exact [of "0x80001000" 5 1 umem_st] umem0_addr(1) [of 5] by (simp add: umem_st_def)

end
