(* ===== verification/File.thy ===== *)
theory File
  imports Console Vmcopy
begin

text \<open>
  Open files and pipes (kernel/file.c and kernel/pipe.c).

  A pointer to a file structure is an index into \<open>ftable\<close>. A pipe lives in a page from kalloc and is named
  by the page's address; its fields are the entry of \<open>pipes\<close> at that address. The fields readable, writable,
  readopen and writeopen are truth values.
\<close>

section \<open>State\<close>

datatype fdtype = FD_NONE | FD_PIPE | FD_INODE | FD_DEVICE

record struct_file =
  f_type :: fdtype
  f_ref :: int
  f_readable :: bool
  f_writable :: bool
  f_pipe :: u64
  f_ip :: "nat option"
  f_off :: u32
  f_major :: int

record pipe =
  pi_data :: "nat \<Rightarrow> u8"
  pi_nread :: u32
  pi_nwrite :: u32
  pi_readopen :: bool
  pi_writeopen :: bool

record file_state = tty_state +
  ftable :: "nat \<Rightarrow> struct_file"
  pipes :: "u64 \<Rightarrow> pipe"

definition NFILE :: nat where "NFILE = 100"
definition PIPESIZE :: nat where "PIPESIZE = 512"

definition upd_file :: "nat \<Rightarrow> (struct_file \<Rightarrow> struct_file) \<Rightarrow> 'z file_state_scheme \<Rightarrow> 'z file_state_scheme" where
  "upd_file f u s = s\<lparr>ftable := (ftable s)(f := u (ftable s f))\<rparr>"

definition upd_pipe :: "u64 \<Rightarrow> (pipe \<Rightarrow> pipe) \<Rightarrow> 'z file_state_scheme \<Rightarrow> 'z file_state_scheme" where
  "upd_pipe pi u s = s\<lparr>pipes := (pipes s)(pi := u (pipes s pi))\<rparr>"

section \<open>Pipes\<close>

definition pipeclose :: "u64 \<Rightarrow> bool \<Rightarrow> 'z file_state_scheme \<Rightarrow> 'z file_state_scheme option" where
  "pipeclose pi writable s = do {
     s \<leftarrow> lock (Lk_pipe pi) s;
     s \<leftarrow> (if writable then wakeup (Some (Ch_pipe_nread pi)) (upd_pipe pi (\<lambda>x. x\<lparr>pi_writeopen := False\<rparr>) s)
           else wakeup (Some (Ch_pipe_nwrite pi)) (upd_pipe pi (\<lambda>x. x\<lparr>pi_readopen := False\<rparr>) s));
     if \<not> pi_readopen (pipes s pi) \<and> \<not> pi_writeopen (pipes s pi) then do {
       s \<leftarrow> unlock (Lk_pipe pi) s;
       kfree pi s }
     else unlock (Lk_pipe pi) s }"

definition pipe_put :: "u8 \<Rightarrow> pipe \<Rightarrow> pipe" where
  "pipe_put ch x = x\<lparr>pi_data := (pi_data x)(unat (pi_nwrite x) mod PIPESIZE := ch), pi_nwrite := pi_nwrite x + 1\<rparr>"

definition pipe_get :: "pipe \<Rightarrow> u8 \<times> pipe" where
  "pipe_get x = (pi_data x (unat (pi_nread x) mod PIPESIZE), x\<lparr>pi_nread := pi_nread x + 1\<rparr>)"

text \<open>The loop of pipewrite; None when it returns -1 from inside, with the lock released.\<close>

partial_function (option) pipewrite_loop :: "('z file_state_scheme \<Rightarrow> 'z file_state_scheme option) \<Rightarrow> nat \<Rightarrow> u64 \<Rightarrow> u64 \<Rightarrow> int \<Rightarrow> int
    \<Rightarrow> 'z file_state_scheme \<Rightarrow> (int option \<times> 'z file_state_scheme) option" where
  "pipewrite_loop sw pr pi addr n i s =
    (if i < n then do {
       (k, s) \<leftarrow> (if \<not> pi_readopen (pipes s pi) then Some (1, s) else killed pr s);
       if k \<noteq> 0 then do { s \<leftarrow> unlock (Lk_pipe pi) s; Some (None, s) }
       else if pi_nwrite (pipes s pi) = pi_nread (pipes s pi) + of_nat PIPESIZE then do {
         s \<leftarrow> wakeup (Some (Ch_pipe_nread pi)) s;
         s \<leftarrow> sleep sw (Ch_pipe_nwrite pi) (Lk_pipe pi) s;
         pipewrite_loop sw pr pi addr n i s }
       else do {
         (r, bs, s) \<leftarrow> copyin (p_pagetable (procs s pr)) (addr + word_of_int i) 1 s;
         if r = -1 then Some (Some i, s)
         else pipewrite_loop sw pr pi addr n (i + 1) (upd_pipe pi (pipe_put (hd bs)) s) } }
     else Some (Some i, s))"

definition pipewrite :: "('z file_state_scheme \<Rightarrow> 'z file_state_scheme option) \<Rightarrow> u64 \<Rightarrow> u64 \<Rightarrow> int \<Rightarrow> 'z file_state_scheme
    \<Rightarrow> (int \<times> 'z file_state_scheme) option" where
  "pipewrite sw pi addr n s = do {
     (pr, s) \<leftarrow> myp s;
     s \<leftarrow> lock (Lk_pipe pi) s;
     (r, s) \<leftarrow> pipewrite_loop sw pr pi addr n 0 s;
     case r of
       None \<Rightarrow> Some (-1, s)
     | Some i \<Rightarrow> do {
         s \<leftarrow> wakeup (Some (Ch_pipe_nread pi)) s;
         s \<leftarrow> unlock (Lk_pipe pi) s;
         Some (i, s) } }"

text \<open>The wait at the start of piperead; False when the process was killed, with the lock released.\<close>

partial_function (option) piperead_wait :: "('z file_state_scheme \<Rightarrow> 'z file_state_scheme option) \<Rightarrow> nat \<Rightarrow> u64
    \<Rightarrow> 'z file_state_scheme \<Rightarrow> (bool \<times> 'z file_state_scheme) option" where
  "piperead_wait sw pr pi s =
    (if pi_nread (pipes s pi) = pi_nwrite (pipes s pi) \<and> pi_writeopen (pipes s pi) then do {
       (k, s) \<leftarrow> killed pr s;
       if k \<noteq> 0 then do { s \<leftarrow> unlock (Lk_pipe pi) s; Some (False, s) }
       else do {
         s \<leftarrow> sleep sw (Ch_pipe_nread pi) (Lk_pipe pi) s;
         piperead_wait sw pr pi s } }
     else Some (True, s))"

primrec piperead_loop :: "nat \<Rightarrow> u64 \<Rightarrow> u64 \<Rightarrow> nat \<Rightarrow> int \<Rightarrow> 'z file_state_scheme \<Rightarrow> (int \<times> 'z file_state_scheme) option" where
  "piperead_loop pr pi addr 0 i s = Some (i, s)"
| "piperead_loop pr pi addr (Suc k) i s =
    (if pi_nread (pipes s pi) = pi_nwrite (pipes s pi) then Some (i, s)
     else do {
       let (ch, x) = pipe_get (pipes s pi);
       let s = upd_pipe pi (\<lambda>_. x) s;
       (r, s) \<leftarrow> copyout (p_pagetable (procs s pr)) (addr + word_of_int i) [ch] s;
       if r = -1 then Some (i, s)
       else piperead_loop pr pi addr k (i + 1) s })"

definition piperead :: "('z file_state_scheme \<Rightarrow> 'z file_state_scheme option) \<Rightarrow> u64 \<Rightarrow> u64 \<Rightarrow> int \<Rightarrow> 'z file_state_scheme
    \<Rightarrow> (int \<times> 'z file_state_scheme) option" where
  "piperead sw pi addr n s = do {
     (pr, s) \<leftarrow> myp s;
     s \<leftarrow> lock (Lk_pipe pi) s;
     (go, s) \<leftarrow> piperead_wait sw pr pi s;
     if \<not> go then Some (-1, s)
     else do {
       (i, s) \<leftarrow> piperead_loop pr pi addr (nat n) 0 s;
       s \<leftarrow> wakeup (Some (Ch_pipe_nwrite pi)) s;
       s \<leftarrow> unlock (Lk_pipe pi) s;
       Some (i, s) } }"

section \<open>The file table\<close>

definition fileinit :: "'z file_state_scheme \<Rightarrow> 'z file_state_scheme" where
  "fileinit s = s\<lparr>hw := initlock Lk_ftable ''ftable'' (hw s)\<rparr>"

definition filealloc :: "'z file_state_scheme \<Rightarrow> (nat option \<times> 'z file_state_scheme) option" where
  "filealloc s = do {
     s \<leftarrow> lock Lk_ftable s;
     (r, s) \<leftarrow> search_n 0 NFILE (\<lambda>f s.
       if f_ref (ftable s f) = 0 then do {
         let s = upd_file f (\<lambda>x. x\<lparr>f_ref := 1\<rparr>) s;
         s \<leftarrow> unlock Lk_ftable s;
         Some (Some f, s) }
       else Some (None, s)) s;
     case r of
       Some f \<Rightarrow> Some (Some f, s)
     | None \<Rightarrow> do {
         s \<leftarrow> unlock Lk_ftable s;
         Some (None, s) } }"

definition filedup :: "nat \<Rightarrow> 'z file_state_scheme \<Rightarrow> (nat \<times> 'z file_state_scheme) option" where
  "filedup f s = do {
     s \<leftarrow> lock Lk_ftable s;
     if f_ref (ftable s f) < 1 then None
     else do {
       let s = upd_file f (\<lambda>x. x\<lparr>f_ref := f_ref x + 1\<rparr>) s;
       s \<leftarrow> unlock Lk_ftable s;
       Some (f, s) } }"

definition fileclose :: "('z file_state_scheme \<Rightarrow> 'z file_state_scheme option) \<Rightarrow> nat \<Rightarrow> 'z file_state_scheme
    \<Rightarrow> 'z file_state_scheme option" where
  "fileclose sw f s = do {
     s \<leftarrow> lock Lk_ftable s;
     if f_ref (ftable s f) < 1 then None
     else do {
       let s = upd_file f (\<lambda>x. x\<lparr>f_ref := f_ref x - 1\<rparr>) s;
       if f_ref (ftable s f) > 0 then unlock Lk_ftable s
       else do {
         let ff = ftable s f;
         let s = upd_file f (\<lambda>x. x\<lparr>f_ref := 0, f_type := FD_NONE\<rparr>) s;
         s \<leftarrow> unlock Lk_ftable s;
         if f_type ff = FD_PIPE then pipeclose (f_pipe ff) (f_writable ff) s
         else if f_type ff = FD_INODE \<or> f_type ff = FD_DEVICE then do {
           s \<leftarrow> begin_op sw s;
           ip \<leftarrow> f_ip ff;
           s \<leftarrow> iput sw ip s;
           end_op sw s }
         else Some s } } }"

text \<open>struct stat in memory; \<open>pad\<close> is what the four bytes between nlink and size hold, which the code never sets.\<close>

definition stat_bytes :: "u8 list \<Rightarrow> stat \<Rightarrow> u8 list" where
  "stat_bytes pad st = int_bytes (st_dev st) @ map (byte_of (st_ino st)) [0..<4] @ map (byte_of (st_type st)) [0..<2] @
     map (byte_of (st_nlink st)) [0..<2] @ pad @ map (byte_of (st_size st)) [0..<8]"

definition filestat :: "('z file_state_scheme \<Rightarrow> 'z file_state_scheme option) \<Rightarrow> u8 list \<Rightarrow> nat \<Rightarrow> u64 \<Rightarrow> 'z file_state_scheme
    \<Rightarrow> (int \<times> 'z file_state_scheme) option" where
  "filestat sw pad f addr s = do {
     (p, s) \<leftarrow> myp s;
     if f_type (ftable s f) = FD_INODE \<or> f_type (ftable s f) = FD_DEVICE then do {
       s \<leftarrow> ilock sw (f_ip (ftable s f)) s;
       ip \<leftarrow> f_ip (ftable s f);
       let st = stati ip s;
       s \<leftarrow> iunlock (f_ip (ftable s f)) s;
       (r, s) \<leftarrow> copyout (p_pagetable (procs s p)) addr (stat_bytes pad st) s;
       Some (if r < 0 then -1 else 0, s) }
     else Some (-1, s) }"

text \<open>A call through the device switch.\<close>

definition call_dev :: "devfn \<Rightarrow> ('z file_state_scheme \<Rightarrow> 'z file_state_scheme option) \<Rightarrow> kplace \<Rightarrow> int \<Rightarrow> 'z file_state_scheme
    \<Rightarrow> (int \<times> 'z file_state_scheme) option" where
  "call_dev fn sw a n s = (case fn of Consoleread \<Rightarrow> consoleread sw a n s | Consolewrite \<Rightarrow> consolewrite sw a n s)"

definition fileread :: "('z file_state_scheme \<Rightarrow> 'z file_state_scheme option) \<Rightarrow> nat \<Rightarrow> u64 \<Rightarrow> int \<Rightarrow> 'z file_state_scheme
    \<Rightarrow> (int \<times> 'z file_state_scheme) option" where
  "fileread sw f addr n s =
    (let x = ftable s f in
     if \<not> f_readable x then Some (-1, s)
     else case f_type x of
       FD_PIPE \<Rightarrow> piperead sw (f_pipe x) addr n s
     | FD_DEVICE \<Rightarrow>
         if f_major x < 0 \<or> int NDEV \<le> f_major x then Some (-1, s)
         else (case d_read (devsw s (nat (f_major x))) of
             None \<Rightarrow> Some (-1, s)
           | Some fn \<Rightarrow> call_dev fn sw (User addr) n s)
     | FD_INODE \<Rightarrow> do {
         s \<leftarrow> ilock sw (f_ip x) s;
         ip \<leftarrow> f_ip (ftable s f);
         (r, out, s) \<leftarrow> readi sw ip (User addr) (f_off (ftable s f)) (word_of_int n) s;
         let s = (if r > 0 then upd_file f (\<lambda>x. x\<lparr>f_off := f_off x + word_of_int r\<rparr>) s else s);
         s \<leftarrow> iunlock (f_ip (ftable s f)) s;
         Some (r, s) }
     | FD_NONE \<Rightarrow> None)"

definition filewrite_max :: int where
  "filewrite_max = int (((MAXOPBLOCKS - 1 - 1 - 2) div 2) * BSIZE)"

partial_function (option) filewrite_loop :: "('z file_state_scheme \<Rightarrow> 'z file_state_scheme option) \<Rightarrow> nat \<Rightarrow> u64 \<Rightarrow> int \<Rightarrow> int
    \<Rightarrow> 'z file_state_scheme \<Rightarrow> (int \<times> 'z file_state_scheme) option" where
  "filewrite_loop sw f addr n i s =
    (if i < n then do {
       let n1 = (if n - i > filewrite_max then filewrite_max else n - i);
       s \<leftarrow> begin_op sw s;
       s \<leftarrow> ilock sw (f_ip (ftable s f)) s;
       ip \<leftarrow> f_ip (ftable s f);
       (r, s) \<leftarrow> writei sw ip (User (addr + word_of_int i)) (f_off (ftable s f)) (word_of_int n1) s;
       let s = (if r > 0 then upd_file f (\<lambda>x. x\<lparr>f_off := f_off x + word_of_int r\<rparr>) s else s);
       s \<leftarrow> iunlock (f_ip (ftable s f)) s;
       s \<leftarrow> end_op sw s;
       if r \<noteq> n1 then Some (i, s)
       else filewrite_loop sw f addr n (i + r) s }
     else Some (i, s))"

definition filewrite :: "('z file_state_scheme \<Rightarrow> 'z file_state_scheme option) \<Rightarrow> nat \<Rightarrow> u64 \<Rightarrow> int \<Rightarrow> 'z file_state_scheme
    \<Rightarrow> (int \<times> 'z file_state_scheme) option" where
  "filewrite sw f addr n s =
    (let x = ftable s f in
     if \<not> f_writable x then Some (-1, s)
     else case f_type x of
       FD_PIPE \<Rightarrow> pipewrite sw (f_pipe x) addr n s
     | FD_DEVICE \<Rightarrow>
         if f_major x < 0 \<or> int NDEV \<le> f_major x then Some (-1, s)
         else (case d_write (devsw s (nat (f_major x))) of
             None \<Rightarrow> Some (-1, s)
           | Some fn \<Rightarrow> call_dev fn sw (User addr) n s)
     | FD_INODE \<Rightarrow> do {
         (i, s) \<leftarrow> filewrite_loop sw f addr n 0 s;
         Some (if i = n then n else -1, s) }
     | FD_NONE \<Rightarrow> None)"

section \<open>Making a pipe\<close>

text \<open>The clean-up at the label bad, for the pointers that were set.\<close>

definition pipe_bad :: "('z file_state_scheme \<Rightarrow> 'z file_state_scheme option) \<Rightarrow> nat option \<Rightarrow> nat option \<Rightarrow> 'z file_state_scheme
    \<Rightarrow> ((int \<times> nat option \<times> nat option) \<times> 'z file_state_scheme) option" where
  "pipe_bad sw f0 f1 s = do {
     s \<leftarrow> (case f0 of Some f \<Rightarrow> fileclose sw f s | None \<Rightarrow> Some s);
     s \<leftarrow> (case f1 of Some f \<Rightarrow> fileclose sw f s | None \<Rightarrow> Some s);
     Some ((-1, f0, f1), s) }"

definition pipealloc :: "('z file_state_scheme \<Rightarrow> 'z file_state_scheme option) \<Rightarrow> 'z file_state_scheme
    \<Rightarrow> ((int \<times> nat option \<times> nat option) \<times> 'z file_state_scheme) option" where
  "pipealloc sw s = do {
     (f0, s) \<leftarrow> filealloc s;
     case f0 of None \<Rightarrow> pipe_bad sw None None s
     | Some a \<Rightarrow> do {
       (f1, s) \<leftarrow> filealloc s;
       case f1 of None \<Rightarrow> pipe_bad sw f0 None s
       | Some b \<Rightarrow> do {
         (pi, s) \<leftarrow> kalloc s;
         if pi = 0 then pipe_bad sw f0 f1 s
         else do {
           let s = upd_pipe pi (\<lambda>x. x\<lparr>pi_readopen := True, pi_writeopen := True, pi_nwrite := 0, pi_nread := 0\<rparr>) s;
           let s = s\<lparr>hw := initlock (Lk_pipe pi) ''pipe'' (hw s)\<rparr>;
           let s = upd_file a (\<lambda>x. x\<lparr>f_type := FD_PIPE, f_readable := True, f_writable := False, f_pipe := pi\<rparr>) s;
           let s = upd_file b (\<lambda>x. x\<lparr>f_type := FD_PIPE, f_readable := False, f_writable := True, f_pipe := pi\<rparr>) s;
           Some ((0, f0, f1), s) } } } }"

section \<open>The bytes in a pipe\<close>

definition pipe_items :: "pipe \<Rightarrow> u8 list" where
  "pipe_items x = ring_items PIPESIZE (pi_data x) (pi_nread x) (pi_nwrite x)"

lemma pipe_size: "PIPESIZE dvd 2 ^ LENGTH(32)" "PIPESIZE < 2 ^ LENGTH(32)"
  by (simp_all add: PIPESIZE_def)

interpretation pq: fifo pipe_items PIPESIZE pipe_put pipe_get
proof unfold_locales
  fix s x
  show "length (pipe_items s) < PIPESIZE \<Longrightarrow> pipe_items (pipe_put x s) = pipe_items s @ [x]"
    by (simp add: pipe_items_def pipe_put_def ring_push [OF pipe_size])
  show "pipe_items s \<noteq> [] \<Longrightarrow> pipe_items s = fst (pipe_get s) # pipe_items (snd (pipe_get s))"
    by (simp add: pipe_items_def pipe_get_def ring_pop [OF pipe_size(1)])
qed

lemma pipe_full: "pi_nwrite x = pi_nread x + of_nat PIPESIZE \<longleftrightarrow> length (pipe_items x) = PIPESIZE"
proof -
  have "pi_nwrite x = pi_nread x + of_nat PIPESIZE \<longleftrightarrow> pi_nwrite x - pi_nread x = of_nat PIPESIZE"
    by (auto simp: algebra_simps)
  then show ?thesis by (simp add: pipe_items_def PIPESIZE_def word_unat_eq_iff)
qed

lemma pipe_empty: "pi_nread x = pi_nwrite x \<longleftrightarrow> pipe_items x = []"
  by (auto simp: pipe_items_def)

lemma pipe_puts:
  "length (pipe_items x) + length bs \<le> PIPESIZE \<Longrightarrow> pipe_items (fold pipe_put bs x) = pipe_items x @ bs"
  by (induction bs arbitrary: x) (simp_all add: pq.items_enq)

lemma upd_pipe_simps [simp]:
  "hw (upd_pipe pi f s) = hw s" "procs (upd_pipe pi f s) = procs s" "ram (upd_pipe pi f s) = ram s"
  "pipes (upd_pipe pi f s) = (pipes s)(pi := f (pipes s pi))" "upd_pipe pi f (upd_pipe pi g s) = upd_pipe pi (\<lambda>x. f (g x)) s"
  "(upd_pipe pi f s)\<lparr>hw := h\<rparr> = upd_pipe pi f (s\<lparr>hw := h\<rparr>)"
  by (simp_all add: upd_pipe_def)

lemma pipe_flags [simp]: "pi_readopen (pipe_put c x) = pi_readopen x" "pi_writeopen (pipe_put c x) = pi_writeopen x"
  by (simp_all add: pipe_put_def)

section \<open>Writing\<close>

definition user_bytes :: "u64 \<Rightarrow> mem \<Rightarrow> u64 \<Rightarrow> nat \<Rightarrow> u8 list" where
  "user_bytes pt m va n = map (\<lambda>i. m (the (user_addr pt m (va + of_nat i)))) [0..<n]"

lemma user_bytes_Suc: "user_bytes pt m va (Suc n) = m (the (user_addr pt m va)) # user_bytes pt m (va + 1) n"
proof -
  have "[0..<Suc n] = 0 # map Suc [0..<n]" by (simp only: map_Suc_upt upt_conv_Cons)
  then show ?thesis by (simp add: user_bytes_def add.assoc del: upt_Suc)
qed

lemma pipewrite_loop_ok:
  assumes h: "hart_ok h" "lock_free (Lk_proc pr) h"
  shows "hw s = acq (Lk_pipe pi) h \<Longrightarrow> p_killed (procs s pr) = 0 \<Longrightarrow> pi_readopen (pipes s pi) \<Longrightarrow> length (pipe_items (pipes s pi)) + k \<le> PIPESIZE \<Longrightarrow>
    \<forall>j<k. user_addr (p_pagetable (procs s pr)) (ram s) (addr + of_nat (i + j)) \<noteq> None \<Longrightarrow>
    pipewrite_loop sw pr pi addr (int (i + k)) (int i) s =
      Some (Some (int (i + k)), upd_pipe pi (fold pipe_put (user_bytes (p_pagetable (procs s pr)) (ram s) (addr + of_nat i) k)) s)"
proof (induction k arbitrary: i s)
  case 0
  then show ?case by (subst pipewrite_loop.simps) (simp add: user_bytes_def upd_pipe_def)
next
  case (Suc k)
  let ?pt = "p_pagetable (procs s pr)" and ?va = "addr + of_nat i"
  let ?b = "ram s (the (user_addr ?pt (ram s) ?va))"
  have "user_addr ?pt (ram s) ?va \<noteq> None" using Suc.prems(5) [rule_format, of 0] by simp
  then have c: "copyin ?pt ?va 1 s = Some (0, [?b], s)" using copyin_ok [of 1 ?pt s ?va] by simp
  have nf: "pi_nwrite (pipes s pi) \<noteq> pi_nread (pipes s pi) + of_nat PIPESIZE" using Suc.prems(4) pipe_full [of "pipes s pi"] by simp
  have kl: "killed pr s = Some (0, s)" using h Suc.prems(1,2) by (simp add: killed_ok)
  let ?s1 = "upd_pipe pi (pipe_put ?b) s"
  have "pipewrite_loop sw pr pi addr (int (i + Suc k)) (int i) s = pipewrite_loop sw pr pi addr (int (Suc i + k)) (int (Suc i)) ?s1"
    by (subst pipewrite_loop.simps) (use c nf kl Suc.prems(3) in \<open>simp add: add.commute\<close>)
  also have "\<dots> = Some (Some (int (Suc i + k)), upd_pipe pi (fold pipe_put (user_bytes (p_pagetable (procs ?s1 pr)) (ram ?s1) (addr + of_nat (Suc i)) k)) ?s1)"
  proof (rule Suc.IH)
    show "\<forall>j<k. user_addr (p_pagetable (procs ?s1 pr)) (ram ?s1) (addr + of_nat (Suc i + j)) \<noteq> None"
      using Suc.prems(5) by (metis Suc_less_eq add_Suc_shift upd_pipe_simps(2,3))
  qed (use Suc.prems in \<open>simp_all add: pq.items_enq\<close>)
  finally show ?case by (simp add: user_bytes_Suc ac_simps comp_def)
qed

lemma pipewrite_ok:
  assumes r: "running pr (hw s)" and k: "p_killed (procs s pr) = 0" and o: "pi_readopen (pipes s pi)"
    and n: "length (pipe_items (pipes s pi)) + n \<le> PIPESIZE"
    and m: "\<forall>j<n. user_addr (p_pagetable (procs s pr)) (ram s) (addr + of_nat j) \<noteq> None"
  shows "pipewrite sw pi addr (int n) s = Some (int n, map_procs (wake (Some pr) (Some (Ch_pipe_nread pi)))
     (upd_pipe pi (fold pipe_put (user_bytes (p_pagetable (procs s pr)) (ram s) addr n)) s))"
proof -
  let ?s1 = "s\<lparr>hw := acq (Lk_pipe pi) (hw s)\<rparr>" and ?bs = "user_bytes (p_pagetable (procs s pr)) (ram s) addr n"
  have l: "pipewrite_loop sw pr pi addr (int n) 0 ?s1 = Some (Some (int n), upd_pipe pi (fold pipe_put ?bs) ?s1)"
    using pipewrite_loop_ok [OF runningD(1,5) [OF r], where s = ?s1 and k = n and i = 0 and addr = addr and pi = pi and sw = sw] k o n m
    by simp
  have w: "wakeup (Some (Ch_pipe_nread pi)) (upd_pipe pi (fold pipe_put ?bs) ?s1) =
      Some (map_procs (wake (Some pr) (Some (Ch_pipe_nread pi))) (upd_pipe pi (fold pipe_put ?bs) ?s1))"
    by (subst wakeup_ok) (use r in simp_all)
  show ?thesis using r l w by (simp add: pipewrite_def kstep)
qed

section \<open>Reading\<close>

lemma piperead_loop_ok:
  assumes "user_range (p_pagetable (procs s pr)) (ram s) addr N" "i + k \<le> N" "N < 2 ^ 64"
  shows "\<exists>m' x'. piperead_loop pr pi addr k (int i) s = Some (int (i + length (take k (pipe_items (pipes s pi)))), (upd_pipe pi (\<lambda>_. x') s)\<lparr>ram := m'\<rparr>) \<and>
    pipe_items x' = drop k (pipe_items (pipes s pi)) \<and> pi_readopen x' = pi_readopen (pipes s pi) \<and> pi_writeopen x' = pi_writeopen (pipes s pi) \<and>
    (\<forall>j<length (take k (pipe_items (pipes s pi))). m' (the (user_addr (p_pagetable (procs s pr)) (ram s) (addr + of_nat (i + j)))) = pipe_items (pipes s pi) ! j) \<and>
    (\<forall>a. (\<forall>j<length (take k (pipe_items (pipes s pi))). user_addr (p_pagetable (procs s pr)) (ram s) (addr + of_nat (i + j)) \<noteq> Some a) \<longrightarrow> m' a = ram s a)"
  using assms
proof (induction k arbitrary: i s)
  case 0
  then show ?case by (intro exI [of _ "ram s"] exI [of _ "pipes s pi"]) (simp add: upd_pipe_def)
next
  case (Suc k)
  let ?pt = "p_pagetable (procs s pr)" and ?x = "pipes s pi"
  let ?A = "\<lambda>j. user_addr ?pt (ram s) (addr + of_nat j)"
  show ?case
  proof (cases "pipe_items ?x")
    case Nil
    then show ?thesis by (intro exI [of _ "ram s"] exI [of _ ?x]) (simp add: upd_pipe_def pipe_empty)
  next
    case (Cons c cs)
    obtain ch x1 where g: "pipe_get ?x = (ch, x1)" by (cases "pipe_get ?x") auto
    have x1: "ch = c" "pipe_items x1 = cs" using pq.items_deq [of ?x] g Cons by auto
    have fl: "pi_readopen x1 = pi_readopen ?x" "pi_writeopen x1 = pi_writeopen ?x" using g by (auto simp: pipe_get_def)
    have ne: "pi_nread ?x \<noteq> pi_nwrite ?x" using pipe_empty [of ?x] Cons by simp
    have i: "i < N" using Suc.prems(2) by simp
    have "user_range ?pt (ram s) (addr + of_nat i) (N - i)" by (rule user_range_drop [OF Suc.prems(1)]) (use i in simp)
    then have "user_range ?pt (ram s) (addr + of_nat i) 1" by (rule user_range_take) (use i in simp)
    then obtain m1 where m1: "copyout ?pt (addr + of_nat i) [c] (upd_pipe pi (\<lambda>_. x1) s) = Some (0, (upd_pipe pi (\<lambda>_. x1) s)\<lparr>ram := m1\<rparr>)"
        "m1 (the (?A i)) = c" "\<And>a. ?A i \<noteq> Some a \<Longrightarrow> m1 a = ram s a"
      using copyout_ok [of ?pt "upd_pipe pi (\<lambda>_. x1) s" "addr + of_nat i" "[c]"] by auto
    let ?s1 = "(upd_pipe pi (\<lambda>_. x1) s)\<lparr>ram := m1\<rparr>" and ?n = "length (take k cs)"
    have w1: "m1 a = ram s a" if "\<forall>j<N. ?A j \<noteq> Some a" for a using m1(3) that i by blast
    note W = user_range_write [OF Suc.prems(1), of m1, OF w1]
    have st: "piperead_loop pr pi addr (Suc k) (int i) s = piperead_loop pr pi addr k (int (Suc i)) ?s1"
      using ne g m1(1) x1(1) by (simp add: add.commute)
    have B: "user_addr ?pt m1 (addr + of_nat j) = ?A j" if "j < N" for j by (rule W(1) [OF _ that])
    obtain m' x' where I: "piperead_loop pr pi addr k (int (Suc i)) ?s1 = Some (int (Suc i + ?n), (upd_pipe pi (\<lambda>_. x') ?s1)\<lparr>ram := m'\<rparr>)"
        "pipe_items x' = drop k cs" "pi_readopen x' = pi_readopen x1" "pi_writeopen x' = pi_writeopen x1"
        "\<forall>j<?n. m' (the (user_addr ?pt m1 (addr + of_nat (Suc i + j)))) = cs ! j"
        "\<forall>a. (\<forall>j<?n. user_addr ?pt m1 (addr + of_nat (Suc i + j)) \<noteq> Some a) \<longrightarrow> m' a = m1 a"
      using Suc.IH [of ?s1 "Suc i"] W(2) Suc.prems(2,3) x1(2) by (auto simp del: of_nat_add of_nat_Suc)
    have e: "(upd_pipe pi (\<lambda>_. x') ?s1)\<lparr>ram := m'\<rparr> = (upd_pipe pi (\<lambda>_. x') s)\<lparr>ram := m'\<rparr>" by (simp add: upd_pipe_def)
    have lt: "Suc i + j < N" if "j < ?n" for j using that Suc.prems(2) by simp
    have I5: "m' (the (?A (Suc i + j))) = cs ! j" if "j < ?n" for j using I(5) [rule_format, OF that] unfolding B [OF lt [OF that]] .
    have I6: "m' a = m1 a" if "\<forall>j<?n. ?A (Suc i + j) \<noteq> Some a" for a 
      by (rule I(6) [rule_format]) (use that B [OF lt] in metis)
    have inj: "?A (Suc i + j) \<noteq> ?A i" if "j < ?n" for j
      using Suc.prems(1) lt [OF that] i unfolding user_range_def inj_on_def by (metis add_Suc less_add_Suc1 lessThan_iff nat_neq_iff)
    have Ai: "?A i = Some (the (?A i))" using Suc.prems(1) i by (simp add: user_range_def)
    have a: "m' (the (?A (i + j))) = pipe_items ?x ! j" if "j < Suc ?n" for j
    proof (cases j)
      case 0
      have "m' (the (?A i)) = m1 (the (?A i))" by (rule I6) (use inj Ai in metis)
      then show ?thesis using 0 m1(2) Cons by simp
    next
      case (Suc j')
      then show ?thesis using I5 [of j'] that Cons by simp
    qed
    have b: "m' a = ram s a" if "\<forall>j<Suc ?n. ?A (i + j) \<noteq> Some a" for a
    proof -
      have "?A (Suc i + j) \<noteq> Some a" if "j < ?n" for j using \<open>\<forall>j<Suc ?n. ?A (i + j) \<noteq> Some a\<close> [rule_format, of "Suc j"] that by simp
      moreover have "?A i \<noteq> Some a" using that [rule_format, of 0] by simp
      ultimately show ?thesis using I6 m1(3) by simp
    qed
    have tk: "length (take (Suc k) (pipe_items ?x)) = Suc ?n" using Cons by simp
    show ?thesis unfolding tk using st I(1-4) e a b fl Cons by (intro exI [of _ m'] exI [of _ x']) (simp del: of_nat_add of_nat_Suc)
  qed
qed

lemma piperead_ok:
  assumes r: "running pr (hw s)" and o: "pipe_items (pipes s pi) \<noteq> [] \<or> \<not> pi_writeopen (pipes s pi)"
    and m: "user_range (p_pagetable (procs s pr)) (ram s) addr n" "n < 2 ^ 64"
  obtains m' x' where "piperead sw pi addr (int n) s = Some (int (length (take n (pipe_items (pipes s pi)))),
      map_procs (wake (Some pr) (Some (Ch_pipe_nwrite pi))) ((upd_pipe pi (\<lambda>_. x') s)\<lparr>ram := m'\<rparr>))"
    "pipe_items x' = drop n (pipe_items (pipes s pi))"
    "\<And>j. j < length (take n (pipe_items (pipes s pi))) \<Longrightarrow>
      m' (the (user_addr (p_pagetable (procs s pr)) (ram s) (addr + of_nat j))) = pipe_items (pipes s pi) ! j"
    "\<And>a. \<forall>j<n. user_addr (p_pagetable (procs s pr)) (ram s) (addr + of_nat j) \<noteq> Some a \<Longrightarrow> m' a = ram s a"
proof -
  let ?s1 = "s\<lparr>hw := acq (Lk_pipe pi) (hw s)\<rparr>" and ?k = "length (take n (pipe_items (pipes s pi)))"
  obtain m' x' where l: "piperead_loop pr pi addr n 0 ?s1 = Some (int ?k, (upd_pipe pi (\<lambda>_. x') ?s1)\<lparr>ram := m'\<rparr>)"
    "pipe_items x' = drop n (pipe_items (pipes s pi))"
    "\<forall>j<?k. m' (the (user_addr (p_pagetable (procs s pr)) (ram s) (addr + of_nat j))) = pipe_items (pipes s pi) ! j"
    "\<forall>a. (\<forall>j<?k. user_addr (p_pagetable (procs s pr)) (ram s) (addr + of_nat j) \<noteq> Some a) \<longrightarrow> m' a = ram s a"
    using piperead_loop_ok [of ?s1 pr addr n 0 n pi] m by auto
  have w: "piperead_wait sw pr pi ?s1 = Some (True, ?s1)"
    by (subst piperead_wait.simps) (use o pipe_empty [of "pipes s pi"] in auto)
  let ?s2 = "(upd_pipe pi (\<lambda>_. x') ?s1)\<lparr>ram := m'\<rparr>"
  have k: "wakeup (Some (Ch_pipe_nwrite pi)) ?s2 = Some (map_procs (wake (Some pr) (Some (Ch_pipe_nwrite pi))) ?s2)"
    by (subst wakeup_ok) (use r in simp_all)
  have e: "?s2\<lparr>hw := hw s\<rparr> = (upd_pipe pi (\<lambda>_. x') s)\<lparr>ram := m'\<rparr>" by (simp add: upd_pipe_def)
  have "piperead sw pi addr (int n) s = Some (int ?k, map_procs (wake (Some pr) (Some (Ch_pipe_nwrite pi))) (?s2\<lparr>hw := hw s\<rparr>))"
    using r l(1) w k by (simp add: piperead_def kstep)
  then show ?thesis using l(2-4) unfolding e by (intro that [of m' x']) auto
qed

section \<open>Properties\<close>


definition pipe0 :: pipe where
  "pipe0 = \<lparr>pi_data = (\<lambda>_. 0), pi_nread = -1, pi_nwrite = -1, pi_readopen = True, pi_writeopen = True\<rparr>"

lemma pipe0_items: "pipe_items pipe0 = []"
  by (simp add: pipe0_def pipe_items_def ring_items_def)


text \<open>C9: What one process writes to an empty pipe another one reads from it: the bytes of the writer's memory
  arrive in the reader's memory, and the pipe is empty again.\<close>

theorem pipe_carries_bytes:
  assumes w: "running p (hw s)" "p_killed (procs s p) = 0" "pi_readopen (pipes s pi)" "pipe_items (pipes s pi) = []" "0 < n" "n \<le> PIPESIZE"
      "\<forall>j<n. user_addr (p_pagetable (procs s p)) (ram s) (src + of_nat j) \<noteq> None"
    and r: "running q (hw t)" "user_range (p_pagetable (procs t q)) (ram t) dst n"
  shows "\<exists>s'. pipewrite sw pi src (int n) s = Some (int n, s') \<and> (pipes t pi = pipes s' pi \<longrightarrow>
    (\<exists>t'. piperead sw' pi dst (int n) t = Some (int n, t') \<and> pipe_items (pipes t' pi) = [] \<and>
      user_bytes (p_pagetable (procs t q)) (ram t') dst n = user_bytes (p_pagetable (procs s p)) (ram s) src n))"
proof -
  let ?bs = "user_bytes (p_pagetable (procs s p)) (ram s) src n" and ?pt = "p_pagetable (procs t q)"
  let ?s' = "map_procs (wake (Some p) (Some (Ch_pipe_nread pi))) (upd_pipe pi (fold pipe_put ?bs) s)"
  have lb: "length ?bs = n" by (simp add: user_bytes_def)
  have wr: "pipewrite sw pi src (int n) s = Some (int n, ?s')" by (rule pipewrite_ok) (use w in simp_all)
  have it: "pipe_items (pipes ?s' pi) = ?bs" using pipe_puts [of "pipes s pi" ?bs] w(4,6) lb by (simp add: map_procs_def)
  have "\<exists>t'. piperead sw' pi dst (int n) t = Some (int n, t') \<and> pipe_items (pipes t' pi) = [] \<and> user_bytes ?pt (ram t') dst n = ?bs"
    if t: "pipes t pi = pipes ?s' pi"
  proof -
    have items: "pipe_items (pipes t pi) = ?bs" using it t by simp
    have n64: "n < 2 ^ 64" using w(6) by (simp add: PIPESIZE_def)
    have "?bs \<noteq> []" using w(5) by (simp add: user_bytes_def)
    then have o: "pipe_items (pipes t pi) \<noteq> [] \<or> \<not> pi_writeopen (pipes t pi)" by (simp add: items)
    obtain m' x' where R: "piperead sw' pi dst (int n) t = Some (int (length (take n ?bs)),
        map_procs (wake (Some q) (Some (Ch_pipe_nwrite pi))) ((upd_pipe pi (\<lambda>_. x') t)\<lparr>ram := m'\<rparr>))"
      "pipe_items x' = drop n ?bs"
      "\<And>j. j < length (take n ?bs) \<Longrightarrow> m' (the (user_addr ?pt (ram t) (dst + of_nat j))) = ?bs ! j"
      "\<And>a. \<forall>j<n. user_addr ?pt (ram t) (dst + of_nat j) \<noteq> Some a \<Longrightarrow> m' a = ram t a"
      using piperead_ok [OF r(1) o r(2) n64, of sw'] unfolding items by metis
    have "user_addr ?pt m' (dst + of_nat j) = user_addr ?pt (ram t) (dst + of_nat j)" if "j < n" for j
      by (rule user_range_write(1) [OF r(2) _ that]) (rule R(4))
    then have "user_bytes ?pt m' dst n = ?bs" using R(3) lb by (intro nth_equalityI) (simp_all add: user_bytes_def)
    then show ?thesis using R(1,2) lb by (simp add: map_procs_def)
  qed
  then show ?thesis using wr by blast
qed

text \<open>C30: Writing to a pipe whose read end is closed, or in a process that has been killed, returns -1 at once and
  leaves the pipe and everything else as it was.\<close>

theorem pipewrite_error:
  assumes "running p (hw s)" "\<not> pi_readopen (pipes s pi) \<or> p_killed (procs s p) \<noteq> 0" "0 < n"
  shows "pipewrite sw pi addr n s = Some (-1, s)"
proof -
  let ?s1 = "s\<lparr>hw := acq (Lk_pipe pi) (hw s)\<rparr>"
  have "pipewrite_loop sw p pi addr n 0 ?s1 = Some (None, s)"
    by (subst pipewrite_loop.simps) (use assms in \<open>auto simp: kstep\<close>)
  then show ?thesis using assms(1) by (simp add: pipewrite_def kstep)
qed

section \<open>A concrete kernel\<close>

text \<open>Process 1 runs with the page table of \<open>umem0\<close>; the pipe at 0x80005000 is empty with both ends open.\<close>

definition file0 :: file_state where
  "file0 = (tty_state.extend (tty_state.truncate tty0) (file_state.fields
     (\<lambda>_. \<lparr>f_type = FD_NONE, f_ref = 0, f_readable = False, f_writable = False, f_pipe = 0, f_ip = None, f_off = 0, f_major = 0\<rparr>)
     (\<lambda>_. pipe0)))\<lparr>ram := umem0, procs := (\<lambda>i. (procs tty0 i)\<lparr>p_pagetable := 0x80001000, p_killed := 0\<rparr>)\<rparr>"

lemma file0_ok: "running 1 (hw file0)" "ram file0 = umem0" "p_pagetable (procs file0 1) = 0x80001000" "p_killed (procs file0 1) = 0" "pipes file0 pi = pipe0"
  using tty0_ok(1) by (simp_all add: file0_def file_state.defs tty_state.defs)

theorem pipe_carries_bytes_witness:
  "\<exists>s'. pipewrite sw_disk 0x80005000 16 2 file0 = Some (2, s') \<and> (\<exists>t'. piperead sw_disk 0x80005000 300 2 (file0\<lparr>pipes := pipes s'\<rparr>) = Some (2, t') \<and>
    user_bytes 0x80001000 (ram t') 300 2 = user_bytes 0x80001000 umem0 16 2)"
proof -
  have s: "user_range 0x80001000 umem0 16 2" "user_range 0x80001000 umem0 300 2"
    using user_range_take [OF user_range_drop [OF umem0_range [of 4096], of 16], of 2]
      user_range_take [OF user_range_drop [OF umem0_range [of 4096], of 300], of 2] by simp_all
  let ?t = "\<lambda>s'. file0\<lparr>pipes := pipes (s' :: file_state)\<rparr>"
  have "\<exists>s'. pipewrite sw_disk 0x80005000 16 (int 2) file0 = Some (int 2, s') \<and> (pipes (?t u) 0x80005000 = pipes s' 0x80005000 \<longrightarrow>
    (\<exists>t'. piperead sw_disk 0x80005000 300 (int 2) (?t u) = Some (int 2, t') \<and> pipe_items (pipes t' 0x80005000) = [] \<and>
      user_bytes (p_pagetable (procs (?t u) 1)) (ram t') 300 2 = user_bytes (p_pagetable (procs file0 1)) (ram file0) 16 2))" for u
    by (rule pipe_carries_bytes [where p = 1 and q = 1])
      (use s file0_ok pipe0_items in \<open>auto simp: user_range_def pipe0_def PIPESIZE_def simp del: One_nat_def\<close>)
  note F = this
  obtain s1 where s1: "pipewrite sw_disk 0x80005000 16 2 file0 = Some (2, s1)" using F [of file0] by auto
  with F [of s1] file0_ok show ?thesis by (intro exI [of _ s1]) auto
qed

theorem pipewrite_error_witness:
  "pipewrite sw_disk 0x80005000 16 2 (file0\<lparr>pipes := (\<lambda>_. pipe0\<lparr>pi_readopen := False\<rparr>)\<rparr>) = Some (-1, file0\<lparr>pipes := (\<lambda>_. pipe0\<lparr>pi_readopen := False\<rparr>)\<rparr>)"
  by (rule pipewrite_error [where p = 1]) (use file0_ok in simp_all)

end
