(* ===== verification/Life.thy ===== *)
theory Life
  imports File
begin

text \<open>
  Creating and ending processes (userinit, fork and exit of kernel/proc.c).

  exit does not return. \<open>exit_switch\<close> is its run up to the call of sched, the last thing the process does;
  the call of the scheduler that never comes back follows in \<open>exit\<close>.
\<close>

definition initcode :: "u8 list" where
  "initcode = [
     0x17, 0x05, 0x00, 0x00, 0x13, 0x05, 0x45, 0x02,
     0x97, 0x05, 0x00, 0x00, 0x93, 0x85, 0x35, 0x02,
     0x93, 0x08, 0x70, 0x00, 0x73, 0x00, 0x00, 0x00,
     0x93, 0x08, 0x20, 0x00, 0x73, 0x00, 0x00, 0x00,
     0xef, 0xf0, 0x9f, 0xff, 0x2f, 0x69, 0x6e, 0x69,
     0x74, 0x00, 0x00, 0x24, 0x00, 0x00, 0x00, 0x00,
     0x00, 0x00, 0x00, 0x00]"

definition userinit :: "('z file_state_scheme \<Rightarrow> 'z file_state_scheme option) \<Rightarrow> 'z file_state_scheme \<Rightarrow> 'z file_state_scheme option" where
  "userinit sw s = do {
     (p, s) \<leftarrow> allocproc s;
     let s = s\<lparr>initproc := p\<rparr>;
     p \<leftarrow> p;
     s \<leftarrow> uvmfirst (p_pagetable (procs s p)) initcode s;
     let s = upd_proc p (\<lambda>x. x\<lparr>p_sz := PGSIZE\<rparr>) s;
     let s = tf_set (p_trapframe (procs s p)) TF_epc 0 s;
     let s = tf_set (p_trapframe (procs s p)) TF_sp PGSIZE s;
     let s = upd_proc p (\<lambda>x. x\<lparr>p_name := safestrcpy_arr (p_name x) (bytes_of ''initcode'' @ [0]) 16\<rparr>) s;
     (cwd, s) \<leftarrow> namei sw (bytes_of ''/'' @ [0]) s;
     let s = upd_proc p (\<lambda>x. x\<lparr>p_cwd := cwd\<rparr>) s;
     let s = upd_proc p (\<lambda>x. x\<lparr>p_state := RUNNABLE\<rparr>) s;
     unlock (Lk_proc p) s }"

text \<open>The loop over the open files, one descriptor.\<close>

definition fork_dup :: "nat \<Rightarrow> nat \<Rightarrow> nat \<Rightarrow> 'z file_state_scheme \<Rightarrow> 'z file_state_scheme option" where
  "fork_dup p np i s = (case p_ofile (procs s p) ! i of
     None \<Rightarrow> Some s
   | Some f \<Rightarrow> do {
       (g, s) \<leftarrow> filedup f s;
       Some (upd_proc np (\<lambda>x. x\<lparr>p_ofile := (p_ofile x)[i := Some g]\<rparr>) s) })"

definition fork :: "'z file_state_scheme \<Rightarrow> (int \<times> 'z file_state_scheme) option" where
  "fork s = do {
     (p, s) \<leftarrow> myp s;
     (np, s) \<leftarrow> allocproc s;
     case np of
       None \<Rightarrow> Some (-1, s)
     | Some np \<Rightarrow> do {
         (r, s) \<leftarrow> uvmcopy (p_pagetable (procs s p)) (p_pagetable (procs s np)) (p_sz (procs s p)) s;
         if r < 0 then do {
           s \<leftarrow> freeproc np s;
           s \<leftarrow> unlock (Lk_proc np) s;
           Some (-1, s) }
         else do {
           let s = upd_proc np (\<lambda>x. x\<lparr>p_sz := p_sz (procs s p)\<rparr>) s;
           let s = s\<lparr>ram := put_bytes (p_trapframe (procs s np)) (get_bytes (p_trapframe (procs s p)) (unat tf_size) (ram s)) (ram s)\<rparr>;
           let s = upd_proc np (\<lambda>x. x\<lparr>p_s1 := p_s1 (procs s p)\<rparr>) s;
           let s = tf_set (p_trapframe (procs s np)) TF_a0 0 s;
           s \<leftarrow> for_n 0 NOFILE (fork_dup p np) s;
           cwd \<leftarrow> p_cwd (procs s p);
           (cwd, s) \<leftarrow> idup cwd s;
           let s = upd_proc np (\<lambda>x. x\<lparr>p_cwd := Some cwd\<rparr>) s;
           let s = upd_proc np (\<lambda>x. x\<lparr>p_name := safestrcpy_arr (p_name x) (p_name (procs s p)) 16\<rparr>) s;
           let pid = p_pid (procs s np);
           s \<leftarrow> unlock (Lk_proc np) s;
           s \<leftarrow> lock Lk_wait s;
           let s = upd_proc np (\<lambda>x. x\<lparr>p_parent := Some p\<rparr>) s;
           let s = upd_proc np (\<lambda>x. x\<lparr>p_tickets := p_tickets (procs s p)\<rparr>) s;
           s \<leftarrow> unlock Lk_wait s;
           s \<leftarrow> lock (Lk_proc np) s;
           let s = upd_proc np (\<lambda>x. x\<lparr>p_state := RUNNABLE\<rparr>) s;
           s \<leftarrow> unlock (Lk_proc np) s;
           Some (pid, s) } } }"

definition exit_close :: "('z file_state_scheme \<Rightarrow> 'z file_state_scheme option) \<Rightarrow> nat \<Rightarrow> nat \<Rightarrow> 'z file_state_scheme
    \<Rightarrow> 'z file_state_scheme option" where
  "exit_close sw p fd s = (case p_ofile (procs s p) ! fd of
     None \<Rightarrow> Some s
   | Some f \<Rightarrow> do {
       s \<leftarrow> fileclose sw f s;
       Some (upd_proc p (\<lambda>x. x\<lparr>p_ofile := (p_ofile x)[fd := None]\<rparr>) s) })"

text \<open>From taking wait_lock to giving it back, with the process's own lock held.\<close>

definition exit_zombie :: "nat \<Rightarrow> int \<Rightarrow> 'z file_state_scheme \<Rightarrow> 'z file_state_scheme option" where
  "exit_zombie p status s = do {
     s \<leftarrow> lock Lk_wait s;
     s \<leftarrow> reparent p s;
     s \<leftarrow> wakeup (map_option Ch_proc (p_parent (procs s p))) s;
     s \<leftarrow> lock (Lk_proc p) s;
     let s = upd_proc p (\<lambda>x. x\<lparr>p_xstate := status, p_state := ZOMBIE, p_etime := ticks s\<rparr>) s;
     unlock Lk_wait s }"

definition exit_switch :: "('z file_state_scheme \<Rightarrow> 'z file_state_scheme option) \<Rightarrow> int \<Rightarrow> 'z file_state_scheme
    \<Rightarrow> 'z file_state_scheme option" where
  "exit_switch sw status s = do {
     (p, s) \<leftarrow> myp s;
     if Some p = initproc s then None
     else do {
       s \<leftarrow> for_n 0 NOFILE (exit_close sw p) s;
       s \<leftarrow> begin_op sw s;
       cwd \<leftarrow> p_cwd (procs s p);
       s \<leftarrow> iput sw cwd s;
       s \<leftarrow> end_op sw s;
       let s = upd_proc p (\<lambda>x. x\<lparr>p_cwd := None\<rparr>) s;
       exit_zombie p status s } }"

definition exit :: "('z file_state_scheme \<Rightarrow> 'z file_state_scheme option) \<Rightarrow> int \<Rightarrow> 'z file_state_scheme
    \<Rightarrow> 'z file_state_scheme option" where
  "exit sw status s = do {
     s \<leftarrow> exit_switch sw status s;
     s \<leftarrow> sched sw s;
     None }"

section \<open>The end of a process\<close>

text \<open>What exit does to the process table once its files are closed.\<close>

definition after_exit :: "nat \<Rightarrow> int \<Rightarrow> 'z proc_state_scheme \<Rightarrow> nat \<Rightarrow> proc" where
  "after_exit p status s i =
    (if i < NPROC then
       let wk = (\<lambda>c. wake (Some p) c i);
           x = adopt p (initproc s) (if has_kids p NPROC (procs s) then wk (map_option Ch_proc (initproc s)) (procs s i) else procs s i);
           x = wk (map_option Ch_proc (p_parent (procs s p))) x
       in if i = p then x\<lparr>p_xstate := status, p_state := ZOMBIE, p_etime := ticks s\<rparr> else x
     else procs s i)"

lemma wake_self [simp]: "wake (Some p) c p x = x"
  by (simp add: wake_def)

lemma exit_zombie_ok:
  assumes r: "running p (hw s)" and q: "p_parent (procs s p) \<noteq> Some p"
  shows "exit_zombie p status s = Some (s\<lparr>hw := acq (Lk_proc p) (hw s), procs := after_exit p status s\<rparr>)"
proof -
  let ?wk = "wake (Some p)" and ?s1 = "s\<lparr>hw := acq Lk_wait (hw s)\<rparr>"
  let ?f = "\<lambda>i x. adopt p (initproc s) (if has_kids p NPROC (procs s) then ?wk (map_option Ch_proc (initproc s)) i x else x)"
  have rp: "reparent p ?s1 = Some (map_procs ?f ?s1)" by (subst reparent_ok) (use r in \<open>simp_all cong: if_cong\<close>)
  have pp: "p_parent (procs (map_procs ?f ?s1) p) = p_parent (procs s p)" using r q by (simp add: adopt_def)
  have wu: "wakeup c (map_procs ?f ?s1) = Some (map_procs (?wk c) (map_procs ?f ?s1))" for c
    by (subst wakeup_ok) (use r in simp_all)
  let ?s2 = "map_procs (?wk (map_option Ch_proc (p_parent (procs s p)))) (map_procs ?f ?s1)"
  have un: "unlock Lk_wait t = Some (t\<lparr>hw := acq (Lk_proc p) (hw s)\<rparr>)" if "hw t = acq (Lk_proc p) (acq Lk_wait (hw s))" for t :: "'a file_state_scheme"
    using unlock_swap [of "hw s" Lk_wait "Lk_proc p" t] r that by (simp add: unlock_def)
  have tk: "ticks (map_procs g t) = ticks t" for g and t :: "'a file_state_scheme" by (simp add: map_procs_def)
  have "exit_zombie p status s = Some ((upd_proc p (\<lambda>x. x\<lparr>p_xstate := status, p_state := ZOMBIE, p_etime := ticks s\<rparr>) ?s2)\<lparr>hw := acq (Lk_proc p) (hw s)\<rparr>)"
    using r rp wu pp by (simp add: exit_zombie_def kstep un tk)
  also have "(upd_proc p (\<lambda>x. x\<lparr>p_xstate := status, p_state := ZOMBIE, p_etime := ticks s\<rparr>) ?s2)\<lparr>hw := acq (Lk_proc p) (hw s)\<rparr> =
      s\<lparr>hw := acq (Lk_proc p) (hw s), procs := after_exit p status s\<rparr>"
    using runningD(4) [OF r] by (auto simp: upd_proc_def map_procs_def after_exit_def Let_def fun_eq_iff intro!: arg_cong [where f = "\<lambda>f. s\<lparr>hw := acq (Lk_proc p) (hw s), procs := f\<rparr>"])
  finally show ?thesis .
qed

text \<open>C27: When a process exits, it becomes a zombie that still names its parent and holds the exit status, its children
  get init as their parent, a parent that sleeps in wait for its children is made runnable, and the final call
  of sched passes all of its checks: it hands the hart to the scheduler.\<close>

theorem exit_hands_over:
  assumes r: "running p (hw s)" and q: "p_parent (procs s p) = Some q" "q \<noteq> p" "q < NPROC"
  shows "\<exists>s'. exit_zombie p status s = Some s' \<and>
    (let x = procs s' p in p_state x = ZOMBIE \<and> p_xstate x = status \<and> p_parent x = Some q \<and> p_etime x = ticks s) \<and>
    (\<forall>i<NPROC. p_parent (procs s i) = Some p \<longrightarrow> p_parent (procs s' i) = initproc s) \<and>
    (p_state (procs s q) = SLEEPING \<and> p_chan (procs s q) = Some (Ch_proc q) \<longrightarrow> p_state (procs s' q) = RUNNABLE) \<and>
    (sched sw s' = None \<longleftrightarrow> sw s' = None)"
proof -
  let ?s' = "s\<lparr>hw := acq (Lk_proc p) (hw s), procs := after_exit p status s\<rparr>"
  have e: "exit_zombie p status s = Some ?s'" by (rule exit_zombie_ok) (use r q in simp_all)
  note p = runningD(4) [OF r]
  have z: "p_state (procs ?s' p) = ZOMBIE" using p by (simp add: after_exit_def Let_def)
  have "sched sw ?s' = Option.bind (sw ?s') (\<lambda>t. Some (t\<lparr>hw := upd_cpu (\<lambda>c. c\<lparr>intena := intena (mycpu (hw ?s'))\<rparr>) (hw t)\<rparr>))"
    by (rule sched_eq [where h = "hw s" and p = p]) (use r z in simp_all)
  then have "sched sw ?s' = None \<longleftrightarrow> sw ?s' = None" by (cases "sw ?s'") simp_all
  moreover have "p_parent (procs ?s' i) = initproc s" if "i < NPROC" "p_parent (procs s i) = Some p" for i
    using that q by (auto simp: after_exit_def Let_def adopt_def wake_def)
  moreover have "p_state (procs ?s' q) = RUNNABLE" if "p_state (procs s q) = SLEEPING" "p_chan (procs s q) = Some (Ch_proc q)"
    using that q by (auto simp: after_exit_def Let_def adopt_def wake_def)
  ultimately show ?thesis using e z p q by (intro exI [of _ ?s']) (simp add: after_exit_def Let_def adopt_def)
qed

theorem exit_hands_over_witness:
  "\<exists>s'. exit_zombie 1 7 (upd_proc 1 (\<lambda>x. x\<lparr>p_parent := Some 2\<rparr>) (upd_proc 2 (\<lambda>x. x\<lparr>p_state := SLEEPING, p_chan := Some (Ch_proc 2)\<rparr>) file0)) = Some s' \<and>
    p_xstate (procs s' 1) = 7 \<and> p_state (procs s' 2) = RUNNABLE"
  using exit_hands_over [of 1 "upd_proc 1 (\<lambda>x. x\<lparr>p_parent := Some 2\<rparr>) (upd_proc 2 (\<lambda>x. x\<lparr>p_state := SLEEPING, p_chan := Some (Ch_proc 2)\<rparr>) file0)" 2 7 sw_disk]
    file0_ok(1) by (auto simp: Let_def NPROC_def)

end
