(* ===== verification/Exec.thy ===== *)
theory Exec
  imports Life
begin

unbundle bit_operations_syntax

text \<open>
  Replacing the program of a process (kernel/exec.c, kernel/elf.h).

  The ELF structures are decoded from the bytes readi returns. argv is the list of the pointers before the
  terminating null pointer; the strings are in kernel memory. A \<open>goto bad\<close> is a call of \<open>exec_bad\<close> with
  the values that pagetable, sz and ip have at that point.
\<close>

section \<open>ELF files\<close>

definition ELF_MAGIC :: u32 where "ELF_MAGIC = 0x464C457F"
definition ELF_PROG_LOAD :: u32 where "ELF_PROG_LOAD = 1"
definition MAXARG :: nat where "MAXARG = 32"

record elfhdr =
  elf_magic :: u32
  elf_entry :: u64
  elf_phoff :: u64
  elf_phnum :: u16

definition get_elfhdr :: "u8 list \<Rightarrow> elfhdr" where
  "get_elfhdr bs = \<lparr>elf_magic = get_w 0 bs, elf_entry = get_w 24 bs, elf_phoff = get_w 32 bs, elf_phnum = get_w 56 bs\<rparr>"

record proghdr =
  ph_type :: u32
  ph_flags :: u32
  ph_off :: u64
  ph_vaddr :: u64
  ph_filesz :: u64
  ph_memsz :: u64

definition get_proghdr :: "u8 list \<Rightarrow> proghdr" where
  "get_proghdr bs = \<lparr>ph_type = get_w 0 bs, ph_flags = get_w 4 bs, ph_off = get_w 8 bs, ph_vaddr = get_w 16 bs,
     ph_filesz = get_w 32 bs, ph_memsz = get_w 40 bs\<rparr>"

section \<open>exec\<close>

definition flags2perm :: "u32 \<Rightarrow> u64" where
  "flags2perm flags =
    (let perm = 0;
         perm = (if flags AND 0x1 \<noteq> 0 then PTE_X else perm)
     in if flags AND 0x2 \<noteq> 0 then perm OR PTE_W else perm)"

partial_function (option) loadseg_loop :: "('z file_state_scheme \<Rightarrow> 'z file_state_scheme option) \<Rightarrow> u64 \<Rightarrow> u64 \<Rightarrow> nat \<Rightarrow> u32 \<Rightarrow> u32 \<Rightarrow> u32
    \<Rightarrow> 'z file_state_scheme \<Rightarrow> (int \<times> 'z file_state_scheme) option" where
  "loadseg_loop sw pagetable va ip offset sz i s =
    (if i < sz then do {
       (pa, s) \<leftarrow> walkaddr pagetable (va + ucast i) s;
       if pa = 0 then None
       else do {
         let n = (if sz - i < 4096 then sz - i else 4096);
         (r, bs, s) \<leftarrow> readi sw ip (Kmem pa) (offset + i) n s;
         if word_of_int r \<noteq> n then Some (-1, s)
         else loadseg_loop sw pagetable va ip offset sz (i + 4096) s } }
     else Some (0, s))"

definition loadseg :: "('z file_state_scheme \<Rightarrow> 'z file_state_scheme option) \<Rightarrow> u64 \<Rightarrow> u64 \<Rightarrow> nat \<Rightarrow> u32 \<Rightarrow> u32
    \<Rightarrow> 'z file_state_scheme \<Rightarrow> (int \<times> 'z file_state_scheme) option" where
  "loadseg sw pagetable va ip offset sz s = loadseg_loop sw pagetable va ip offset sz 0 s"

text \<open>The loop over the program headers: whether it went through, and sz when it ended.\<close>

primrec exec_load :: "nat \<Rightarrow> ('z file_state_scheme \<Rightarrow> 'z file_state_scheme option) \<Rightarrow> nat \<Rightarrow> u64 \<Rightarrow> u32 \<Rightarrow> u64 \<Rightarrow> 'z file_state_scheme
    \<Rightarrow> (bool \<times> u64 \<times> 'z file_state_scheme) option" where
  "exec_load 0 sw ip pagetable offs sz s = Some (True, sz, s)"
| "exec_load (Suc k) sw ip pagetable offs sz s = do {
     (r, bs, s) \<leftarrow> readi sw ip (Kobj []) offs 56 s;
     if r \<noteq> 56 then Some (False, sz, s)
     else do {
       let ph = get_proghdr bs;
       if ph_type ph \<noteq> ELF_PROG_LOAD then exec_load k sw ip pagetable (offs + 56) sz s
       else if ph_memsz ph < ph_filesz ph then Some (False, sz, s)
       else if ph_vaddr ph + ph_memsz ph < ph_vaddr ph then Some (False, sz, s)
       else if ph_vaddr ph mod PGSIZE \<noteq> 0 then Some (False, sz, s)
       else do {
         (sz1, s) \<leftarrow> uvmalloc pagetable sz (ph_vaddr ph + ph_memsz ph) (flags2perm (ph_flags ph)) s;
         if sz1 = 0 then Some (False, sz, s)
         else do {
           let sz = sz1;
           (r, s) \<leftarrow> loadseg sw pagetable (ph_vaddr ph) ip (ucast (ph_off ph)) (ucast (ph_filesz ph)) s;
           if r < 0 then Some (False, sz, s)
           else exec_load k sw ip pagetable (offs + 56) sz s } } } }"

definition exec_bad :: "('z file_state_scheme \<Rightarrow> 'z file_state_scheme option) \<Rightarrow> u64 \<Rightarrow> u64 \<Rightarrow> nat option \<Rightarrow> 'z file_state_scheme
    \<Rightarrow> (int \<times> 'z file_state_scheme) option" where
  "exec_bad sw pagetable sz ip s = do {
     s \<leftarrow> (if pagetable \<noteq> 0 then proc_freepagetable pagetable sz s else Some s);
     s \<leftarrow> (case ip of None \<Rightarrow> Some s | Some ip \<Rightarrow> do { s \<leftarrow> iunlockput sw ip s; end_op sw s });
     Some (-1, s) }"

text \<open>The loop that pushes the argument strings: None for \<open>goto bad\<close>, else the stack pointer and ustack.\<close>

primrec exec_args :: "u64 list \<Rightarrow> u64 \<Rightarrow> u64 \<Rightarrow> u64 \<Rightarrow> u64 list \<Rightarrow> 'z file_state_scheme
    \<Rightarrow> ((u64 \<times> u64 list) option \<times> 'z file_state_scheme) option" where
  "exec_args [] pagetable stackbase sp ustack s = Some (Some (sp, ustack), s)"
| "exec_args (a # argv) pagetable stackbase sp ustack s =
    (if length ustack \<ge> MAXARG then Some (None, s)
     else do {
       len \<leftarrow> strlen a (ram s);
       let sp = sp - (of_nat len + 1);
       let sp = sp - sp mod 16;
       if sp < stackbase then Some (None, s)
       else do {
         (r, s) \<leftarrow> copyout pagetable sp (get_bytes a (len + 1) (ram s)) s;
         if r < 0 then Some (None, s)
         else exec_args argv pagetable stackbase sp (ustack @ [sp]) s } })"

text \<open>The part of the path after its last slash.\<close>

primrec exec_name :: "u8 list \<Rightarrow> u8 list \<Rightarrow> u8 list" where
  "exec_name [] lst = lst"
| "exec_name (c # cs) lst = exec_name cs (if c = chr_byte CHR ''/'' then cs else lst)"

text \<open>After the program is loaded: the stack, the arguments and the switch to the new image.\<close>

definition exec_commit :: "('z file_state_scheme \<Rightarrow> 'z file_state_scheme option) \<Rightarrow> u8 list \<Rightarrow> u64 list \<Rightarrow> elfhdr \<Rightarrow> u64 \<Rightarrow> u64
    \<Rightarrow> 'z file_state_scheme \<Rightarrow> (int \<times> 'z file_state_scheme) option" where
  "exec_commit sw path argv elf pagetable sz s = do {
     (p, s) \<leftarrow> myp s;
     let oldsz = p_sz (procs s p);
     let sz = PGROUNDUP sz;
     (sz1, s) \<leftarrow> uvmalloc pagetable sz (sz + 2 * PGSIZE) PTE_W s;
     if sz1 = 0 then exec_bad sw pagetable sz None s
     else do {
       let sz = sz1;
       s \<leftarrow> uvmclear pagetable (sz - 2 * PGSIZE) s;
       let stackbase = sz - PGSIZE;
       (r, s) \<leftarrow> exec_args argv pagetable stackbase sz [] s;
       case r of
         None \<Rightarrow> exec_bad sw pagetable sz None s
       | Some (sp, ustack) \<Rightarrow> do {
           let argc = length ustack;
           let sp = sp - (of_nat argc + 1) * 8;
           let sp = sp - sp mod 16;
           if sp < stackbase then exec_bad sw pagetable sz None s
           else do {
             (r, s) \<leftarrow> copyout pagetable sp (concat (map (\<lambda>w. map (byte_of w) [0..<8]) (ustack @ [0]))) s;
             if r < 0 then exec_bad sw pagetable sz None s
             else do {
               let s = tf_set (p_trapframe (procs s p)) TF_a1 sp s;
               let s = upd_proc p (\<lambda>x. x\<lparr>p_name := safestrcpy_arr (p_name x) (exec_name path path @ [0]) 16\<rparr>) s;
               let oldpagetable = p_pagetable (procs s p);
               let s = upd_proc p (\<lambda>x. x\<lparr>p_pagetable := pagetable, p_sz := sz\<rparr>) s;
               let s = tf_set (p_trapframe (procs s p)) TF_epc (elf_entry elf) s;
               let s = tf_set (p_trapframe (procs s p)) TF_sp sp s;
               s \<leftarrow> proc_freepagetable oldpagetable oldsz s;
               Some (int argc, s) } } } } }"

definition exec :: "('z file_state_scheme \<Rightarrow> 'z file_state_scheme option) \<Rightarrow> u8 list \<Rightarrow> u64 list \<Rightarrow> 'z file_state_scheme
    \<Rightarrow> (int \<times> 'z file_state_scheme) option" where
  "exec sw path argv s = do {
     (p, s) \<leftarrow> myp s;
     s \<leftarrow> begin_op sw s;
     (ip, s) \<leftarrow> namei sw path s;
     case ip of
       None \<Rightarrow> do { s \<leftarrow> end_op sw s; Some (-1, s) }
     | Some ip \<Rightarrow> do {
         s \<leftarrow> ilock sw (Some ip) s;
         (r, bs, s) \<leftarrow> readi sw ip (Kobj []) 0 64 s;
         if r \<noteq> 64 then exec_bad sw 0 0 (Some ip) s
         else do {
           let elf = get_elfhdr bs;
           if elf_magic elf \<noteq> ELF_MAGIC then exec_bad sw 0 0 (Some ip) s
           else do {
             (pagetable, s) \<leftarrow> proc_pagetable (p_trapframe (procs s p)) s;
             if pagetable = 0 then exec_bad sw 0 0 (Some ip) s
             else do {
               (ok, sz, s) \<leftarrow> exec_load (unat (elf_phnum elf)) sw ip pagetable (ucast (elf_phoff elf)) 0 s;
               if \<not> ok then exec_bad sw pagetable sz (Some ip) s
               else do {
                 s \<leftarrow> iunlockput sw ip s;
                 s \<leftarrow> end_op sw s;
                 exec_commit sw path argv elf pagetable sz s } } } } } }"

end
