(* ===== verification/Sysproc.thy ===== *)
theory Sysproc
  imports Exec
begin

unbundle bit_operations_syntax

text \<open>
  System call arguments (the first part of kernel/syscall.c) and the system calls on processes
  (kernel/sysproc.c).

  A system call returns a uint64; an int it returns is sign-extended to that width. A string fetched from user
  memory is its bytes before the NUL. The strings and words copied in are results of the fetch functions.
\<close>

section \<open>Arguments\<close>

definition fetchaddr :: "u64 \<Rightarrow> 'z proc_state_scheme \<Rightarrow> (int \<times> u64 \<times> 'z proc_state_scheme) option" where
  "fetchaddr addr s = do {
     (p, s) \<leftarrow> myp s;
     if addr \<ge> p_sz (procs s p) \<or> addr + 8 > p_sz (procs s p) then Some (-1, 0, s)
     else do {
       (r, bs, s) \<leftarrow> copyin (p_pagetable (procs s p)) addr 8 s;
       if r \<noteq> 0 then Some (-1, 0, s) else Some (0, get_w 0 bs, s) } }"

text \<open>The bytes copied in are returned with their NUL, as they stand in the buffer; with -1, what was copied
  before the failure.\<close>

definition fetchstr :: "u64 \<Rightarrow> nat \<Rightarrow> 'z proc_state_scheme \<Rightarrow> (int \<times> u8 list \<times> 'z proc_state_scheme) option" where
  "fetchstr addr mx s = do {
     (p, s) \<leftarrow> myp s;
     (r, bs, s) \<leftarrow> copyinstr (p_pagetable (procs s p)) addr mx s;
     if r < 0 then Some (-1, bs, s)
     else Some (int (length (takeWhile (\<lambda>c. c \<noteq> 0) bs)), bs, s) }"

definition argraw :: "nat \<Rightarrow> 'z proc_state_scheme \<Rightarrow> (u64 \<times> 'z proc_state_scheme) option" where
  "argraw n s = do {
     (p, s) \<leftarrow> myp s;
     let tf = p_trapframe (procs s p);
     if n = 0 then Some (tf_get tf TF_a0 s, s)
     else if n = 1 then Some (tf_get tf TF_a1 s, s)
     else if n = 2 then Some (tf_get tf TF_a2 s, s)
     else if n = 3 then Some (tf_get tf TF_a3 s, s)
     else if n = 4 then Some (tf_get tf TF_a4 s, s)
     else if n = 5 then Some (tf_get tf TF_a5 s, s)
     else None }"

definition argint :: "nat \<Rightarrow> 'z proc_state_scheme \<Rightarrow> (int \<times> 'z proc_state_scheme) option" where
  "argint n s = do {
     (x, s) \<leftarrow> argraw n s;
     Some (sint (ucast x :: u32), s) }"

definition argaddr :: "nat \<Rightarrow> 'z proc_state_scheme \<Rightarrow> (u64 \<times> 'z proc_state_scheme) option" where
  "argaddr n s = argraw n s"

definition argstr :: "nat \<Rightarrow> nat \<Rightarrow> 'z proc_state_scheme \<Rightarrow> (int \<times> u8 list \<times> 'z proc_state_scheme) option" where
  "argstr n mx s = do {
     (addr, s) \<leftarrow> argaddr n s;
     fetchstr addr mx s }"

section \<open>System calls\<close>

definition sys_printlog :: "'z proc_state_scheme \<Rightarrow> (u64 \<times> 'z proc_state_scheme) option" where
  "sys_printlog s = do { s \<leftarrow> print_logg s; Some (0, s) }"

definition sys_sigalarm :: "'z proc_state_scheme \<Rightarrow> (u64 \<times> 'z proc_state_scheme) option" where
  "sys_sigalarm s = do {
     (intervalj, s) \<leftarrow> argint 0 s;
     (handlerj, s) \<leftarrow> argaddr 1 s;
     (p, s) \<leftarrow> myp s;
     Some (0, upd_proc p (\<lambda>x. x\<lparr>p_ticks := intervalj, p_handler := handlerj, p_alarm_act := 1\<rparr>) s) }"

definition sys_sigreturn :: "'z proc_state_scheme \<Rightarrow> (u64 \<times> 'z proc_state_scheme) option" where
  "sys_sigreturn s = do {
     (p, s) \<leftarrow> myp s;
     let s = s\<lparr>ram := memmove (p_trapframe (procs s p)) (p_alarm_tf (procs s p)) 4096 (ram s)\<rparr>;
     s \<leftarrow> kfree (p_alarm_tf (procs s p)) s;
     let s = upd_proc p (\<lambda>x. x\<lparr>p_hlp := 1\<rparr>) s;
     (p, s) \<leftarrow> myp s;
     Some (tf_get (p_trapframe (procs s p)) TF_a0 s, s) }"

definition sys_settickets :: "'z proc_state_scheme \<Rightarrow> (u64 \<times> 'z proc_state_scheme) option" where
  "sys_settickets s = do {
     (n, s) \<leftarrow> argint 0 s;
     if n < 1 then Some (-1, s)
     else do {
       (p, s) \<leftarrow> myp s;
       Some (0, upd_proc p (\<lambda>x. x\<lparr>p_tickets := n\<rparr>) s) } }"

definition sys_getSysCount :: "'z proc_state_scheme \<Rightarrow> (u64 \<times> 'z proc_state_scheme) option" where
  "sys_getSysCount s = do {
     (msk, s) \<leftarrow> argint 0 s;
     (p, s) \<leftarrow> myp s;
     let s = upd_proc p (\<lambda>x. x\<lparr>p_s1 := msk\<rparr>) s;
     (r, s) \<leftarrow> getSysCount msk s;
     Some (word_of_int r, s) }"

definition sys_exit :: "('z file_state_scheme \<Rightarrow> 'z file_state_scheme option) \<Rightarrow> 'z file_state_scheme \<Rightarrow> (u64 \<times> 'z file_state_scheme) option" where
  "sys_exit sw s = do {
     (n, s) \<leftarrow> argint 0 s;
     s \<leftarrow> exit sw n s;
     Some (0, s) }"

definition sys_getpid :: "'z proc_state_scheme \<Rightarrow> (u64 \<times> 'z proc_state_scheme) option" where
  "sys_getpid s = do {
     (p, s) \<leftarrow> myp s;
     Some (word_of_int (p_pid (procs s p)), s) }"

definition sys_fork :: "'z file_state_scheme \<Rightarrow> (u64 \<times> 'z file_state_scheme) option" where
  "sys_fork s = do { (r, s) \<leftarrow> fork s; Some (word_of_int r, s) }"

definition sys_wait :: "('z proc_state_scheme \<Rightarrow> 'z proc_state_scheme option) \<Rightarrow> 'z proc_state_scheme \<Rightarrow> (u64 \<times> 'z proc_state_scheme) option" where
  "sys_wait sw s = do {
     (p, s) \<leftarrow> argaddr 0 s;
     (r, s) \<leftarrow> wait sw p s;
     Some (word_of_int r, s) }"

definition sys_sbrk :: "'z proc_state_scheme \<Rightarrow> (u64 \<times> 'z proc_state_scheme) option" where
  "sys_sbrk s = do {
     (n, s) \<leftarrow> argint 0 s;
     (p, s) \<leftarrow> myp s;
     let addr = p_sz (procs s p);
     (r, s) \<leftarrow> growproc n s;
     if r < 0 then Some (-1, s) else Some (addr, s) }"

text \<open>The comparison of the elapsed ticks with n is between unsigned ints.\<close>

partial_function (option) sys_sleep_loop :: "('z proc_state_scheme \<Rightarrow> 'z proc_state_scheme option) \<Rightarrow> u32 \<Rightarrow> int \<Rightarrow> 'z proc_state_scheme
    \<Rightarrow> (u64 \<times> 'z proc_state_scheme) option" where
  "sys_sleep_loop sw ticks0 n s =
    (if ticks s - ticks0 < word_of_int n then do {
       (p, s) \<leftarrow> myp s;
       (k, s) \<leftarrow> killed p s;
       if k \<noteq> 0 then do { s \<leftarrow> unlock Lk_ticks s; Some (-1, s) }
       else do {
         s \<leftarrow> sleep sw Ch_ticks Lk_ticks s;
         sys_sleep_loop sw ticks0 n s } }
     else do { s \<leftarrow> unlock Lk_ticks s; Some (0, s) })"

definition sys_sleep :: "('z proc_state_scheme \<Rightarrow> 'z proc_state_scheme option) \<Rightarrow> 'z proc_state_scheme \<Rightarrow> (u64 \<times> 'z proc_state_scheme) option" where
  "sys_sleep sw s = do {
     (n, s) \<leftarrow> argint 0 s;
     s \<leftarrow> lock Lk_ticks s;
     sys_sleep_loop sw (ticks s) n s }"

definition sys_kill :: "'z proc_state_scheme \<Rightarrow> (u64 \<times> 'z proc_state_scheme) option" where
  "sys_kill s = do {
     (pid, s) \<leftarrow> argint 0 s;
     (r, s) \<leftarrow> kill pid s;
     Some (word_of_int r, s) }"

definition sys_uptime :: "'z proc_state_scheme \<Rightarrow> (u64 \<times> 'z proc_state_scheme) option" where
  "sys_uptime s = do {
     s \<leftarrow> lock Lk_ticks s;
     let xticks = ticks s;
     s \<leftarrow> unlock Lk_ticks s;
     Some (ucast xticks, s) }"

text \<open>\<open>junk\<close> is what the local variables wtime and rtime hold before the call, which waitx sets only for a child
  it finds.\<close>

definition sys_waitx :: "('z proc_state_scheme \<Rightarrow> 'z proc_state_scheme option) \<Rightarrow> u32 \<times> u32 \<Rightarrow> 'z proc_state_scheme \<Rightarrow> (u64 \<times> 'z proc_state_scheme) option" where
  "sys_waitx sw junk s = do {
     (addr, s) \<leftarrow> argaddr 0 s;
     (addr1, s) \<leftarrow> argaddr 1 s;
     (addr2, s) \<leftarrow> argaddr 2 s;
     (ret, (wtime, rtime), s) \<leftarrow> waitx sw addr junk s;
     (p, s) \<leftarrow> myp s;
     (r, s) \<leftarrow> copyout (p_pagetable (procs s p)) addr1 (map (byte_of wtime) [0..<4]) s;
     if r < 0 then Some (-1, s)
     else do {
       (r, s) \<leftarrow> copyout (p_pagetable (procs s p)) addr2 (map (byte_of rtime) [0..<4]) s;
       if r < 0 then Some (-1, s) else Some (word_of_int ret, s) } }"

end
