(* ===== verification/Sysfile.thy ===== *)
theory Sysfile
  imports Sysproc
begin

unbundle bit_operations_syntax

text \<open>
  The system calls on files (kernel/sysfile.c).

  A file descriptor is an index into the open files of the process. A path is its bytes before the NUL; the buffer
  for the last element of a path is a local variable which nameiparent fills before anything reads it.
\<close>

definition MAXPATH :: nat where "MAXPATH = 128"
definition O_RDONLY :: int where "O_RDONLY = 0"
definition O_WRONLY :: int where "O_WRONLY = 1"
definition O_RDWR :: int where "O_RDWR = 2"
definition O_CREATE :: int where "O_CREATE = 0x200"
definition O_TRUNC :: int where "O_TRUNC = 0x400"

abbreviation cstr :: "u8 list \<Rightarrow> u8 list" where
  "cstr bs \<equiv> takeWhile (\<lambda>c. c \<noteq> 0) bs"

section \<open>Descriptors\<close>

text \<open>None is the result -1.\<close>

definition argfd :: "nat \<Rightarrow> 'z file_state_scheme \<Rightarrow> ((nat \<times> nat) option \<times> 'z file_state_scheme) option" where
  "argfd n s = do {
     (fd, s) \<leftarrow> argint n s;
     if fd < 0 \<or> fd \<ge> int NOFILE then Some (None, s)
     else do {
       (p, s) \<leftarrow> myp s;
       case p_ofile (procs s p) ! nat fd of
         None \<Rightarrow> Some (None, s)
       | Some f \<Rightarrow> Some (Some (nat fd, f), s) } }"

definition set_fd :: "nat \<Rightarrow> nat \<Rightarrow> nat option \<Rightarrow> 'z proc_state_scheme \<Rightarrow> 'z proc_state_scheme" where
  "set_fd p fd v s = upd_proc p (\<lambda>x. x\<lparr>p_ofile := (p_ofile x)[fd := v]\<rparr>) s"

definition fdalloc :: "nat \<Rightarrow> 'z file_state_scheme \<Rightarrow> (int \<times> 'z file_state_scheme) option" where
  "fdalloc f s = do {
     (p, s) \<leftarrow> myp s;
     case find (\<lambda>fd. p_ofile (procs s p) ! fd = None) [0..<NOFILE] of
       None \<Rightarrow> Some (-1, s)
     | Some fd \<Rightarrow> Some (int fd, set_fd p fd (Some f) s) }"

definition sys_dup :: "'z file_state_scheme \<Rightarrow> (u64 \<times> 'z file_state_scheme) option" where
  "sys_dup s = do {
     (r, s) \<leftarrow> argfd 0 s;
     case r of
       None \<Rightarrow> Some (-1, s)
     | Some (_, f) \<Rightarrow> do {
         (fd, s) \<leftarrow> fdalloc f s;
         if fd < 0 then Some (-1, s)
         else do {
           (_, s) \<leftarrow> filedup f s;
           Some (word_of_int fd, s) } } }"

definition sys_read :: "('z file_state_scheme \<Rightarrow> 'z file_state_scheme option) \<Rightarrow> 'z file_state_scheme \<Rightarrow> (u64 \<times> 'z file_state_scheme) option" where
  "sys_read sw s = do {
     (p, s) \<leftarrow> argaddr 1 s;
     (n, s) \<leftarrow> argint 2 s;
     (r, s) \<leftarrow> argfd 0 s;
     case r of
       None \<Rightarrow> Some (-1, s)
     | Some (_, f) \<Rightarrow> do { (r, s) \<leftarrow> fileread sw f p n s; Some (word_of_int r, s) } }"

definition sys_write :: "('z file_state_scheme \<Rightarrow> 'z file_state_scheme option) \<Rightarrow> 'z file_state_scheme \<Rightarrow> (u64 \<times> 'z file_state_scheme) option" where
  "sys_write sw s = do {
     (p, s) \<leftarrow> argaddr 1 s;
     (n, s) \<leftarrow> argint 2 s;
     (r, s) \<leftarrow> argfd 0 s;
     case r of
       None \<Rightarrow> Some (-1, s)
     | Some (_, f) \<Rightarrow> do { (r, s) \<leftarrow> filewrite sw f p n s; Some (word_of_int r, s) } }"

definition sys_close :: "('z file_state_scheme \<Rightarrow> 'z file_state_scheme option) \<Rightarrow> 'z file_state_scheme \<Rightarrow> (u64 \<times> 'z file_state_scheme) option" where
  "sys_close sw s = do {
     (r, s) \<leftarrow> argfd 0 s;
     case r of
       None \<Rightarrow> Some (-1, s)
     | Some (fd, f) \<Rightarrow> do {
         (p, s) \<leftarrow> myp s;
         s \<leftarrow> fileclose sw f (set_fd p fd None s);
         Some (0, s) } }"

text \<open>\<open>pad\<close> is what the padding of the local struct stat holds.\<close>

definition sys_fstat :: "('z file_state_scheme \<Rightarrow> 'z file_state_scheme option) \<Rightarrow> u8 list \<Rightarrow> 'z file_state_scheme \<Rightarrow> (u64 \<times> 'z file_state_scheme) option" where
  "sys_fstat sw pad s = do {
     (st, s) \<leftarrow> argaddr 1 s;
     (r, s) \<leftarrow> argfd 0 s;
     case r of
       None \<Rightarrow> Some (-1, s)
     | Some (_, f) \<Rightarrow> do { (r, s) \<leftarrow> filestat sw pad f st s; Some (word_of_int r, s) } }"

section \<open>Links\<close>

abbreviation add_nlink :: "nat \<Rightarrow> u16 \<Rightarrow> 'z fs_state_scheme \<Rightarrow> 'z fs_state_scheme" where
  "add_nlink ip d \<equiv> upd_inode ip (\<lambda>x. x\<lparr>i_nlink := i_nlink x + d\<rparr>)"

text \<open>The label bad of sys_link.\<close>

definition link_bad :: "('z file_state_scheme \<Rightarrow> 'z file_state_scheme option) \<Rightarrow> nat \<Rightarrow> 'z file_state_scheme \<Rightarrow> (u64 \<times> 'z file_state_scheme) option" where
  "link_bad sw ip s = do {
     s \<leftarrow> ilock sw (Some ip) s;
     s \<leftarrow> iupdate sw ip (add_nlink ip (-1) s);
     s \<leftarrow> iunlockput sw ip s;
     s \<leftarrow> end_op sw s;
     Some (-1, s) }"

definition sys_link :: "('z file_state_scheme \<Rightarrow> 'z file_state_scheme option) \<Rightarrow> 'z file_state_scheme \<Rightarrow> (u64 \<times> 'z file_state_scheme) option" where
  "sys_link sw s = do {
     (r, old, s) \<leftarrow> argstr 0 MAXPATH s;
     if r < 0 then Some (-1, s)
     else do {
       (r, new, s) \<leftarrow> argstr 1 MAXPATH s;
       if r < 0 then Some (-1, s)
       else do {
         s \<leftarrow> begin_op sw s;
         (ip, s) \<leftarrow> namei sw (cstr old) s;
         case ip of
           None \<Rightarrow> do { s \<leftarrow> end_op sw s; Some (-1, s) }
         | Some ip \<Rightarrow> do {
             s \<leftarrow> ilock sw (Some ip) s;
             if i_type (itable s ip) = T_DIR then do {
               s \<leftarrow> iunlockput sw ip s;
               s \<leftarrow> end_op sw s;
               Some (-1, s) }
             else do {
               s \<leftarrow> iupdate sw ip (add_nlink ip 1 s);
               s \<leftarrow> iunlock (Some ip) s;
               (dp, name, s) \<leftarrow> nameiparent sw (cstr new) (replicate DIRSIZ 0) s;
               case dp of
                 None \<Rightarrow> link_bad sw ip s
               | Some dp \<Rightarrow> do {
                   s \<leftarrow> ilock sw (Some dp) s;
                   (r, s) \<leftarrow> (if i_dev (itable s dp) \<noteq> i_dev (itable s ip) then Some (-1, s)
                             else dirlink sw dp name (i_inum (itable s ip)) s);
                   s \<leftarrow> iunlockput sw dp s;
                   if r < 0 then link_bad sw ip s
                   else do {
                     s \<leftarrow> iput sw ip s;
                     s \<leftarrow> end_op sw s;
                     Some (0, s) } } } } } } }"

partial_function (option) isdirempty_loop :: "('z file_state_scheme \<Rightarrow> 'z file_state_scheme option) \<Rightarrow> nat \<Rightarrow> u32 \<Rightarrow> 'z file_state_scheme
    \<Rightarrow> (bool \<times> 'z file_state_scheme) option" where
  "isdirempty_loop sw dp offs s =
    (if offs < i_size (itable s dp) then do {
       (de, s) \<leftarrow> read_dirent sw dp offs s;
       if de_inum de \<noteq> 0 then Some (False, s) else isdirempty_loop sw dp (offs + 16) s }
     else Some (True, s))"

definition isdirempty :: "('z file_state_scheme \<Rightarrow> 'z file_state_scheme option) \<Rightarrow> nat \<Rightarrow> 'z file_state_scheme
    \<Rightarrow> (bool \<times> 'z file_state_scheme) option" where
  "isdirempty sw dp s = isdirempty_loop sw dp (2 * 16) s"

text \<open>The label bad of sys_unlink, and its part from the entry found to the end.\<close>

definition unlink_bad :: "('z file_state_scheme \<Rightarrow> 'z file_state_scheme option) \<Rightarrow> nat \<Rightarrow> 'z file_state_scheme \<Rightarrow> (u64 \<times> 'z file_state_scheme) option" where
  "unlink_bad sw dp s = do {
     s \<leftarrow> iunlockput sw dp s;
     s \<leftarrow> end_op sw s;
     Some (-1, s) }"

definition unlink_entry :: "('z file_state_scheme \<Rightarrow> 'z file_state_scheme option) \<Rightarrow> nat \<Rightarrow> nat \<Rightarrow> u32 \<Rightarrow> 'z file_state_scheme
    \<Rightarrow> (u64 \<times> 'z file_state_scheme) option" where
  "unlink_entry sw dp ip offs s = do {
     s \<leftarrow> ilock sw (Some ip) s;
     if sint (i_nlink (itable s ip)) < 1 then None
     else do {
       (keep, s) \<leftarrow> (if i_type (itable s ip) = T_DIR
                     then do { (e, s) \<leftarrow> isdirempty sw ip s; Some (\<not> e, s) } else Some (False, s));
       if keep then do {
         s \<leftarrow> iunlockput sw ip s;
         unlink_bad sw dp s }
       else do {
         (r, s) \<leftarrow> writei sw dp (Kobj (replicate 16 0)) offs 16 s;
         if r \<noteq> 16 then None
         else do {
           s \<leftarrow> (if i_type (itable s ip) = T_DIR then iupdate sw dp (add_nlink dp (-1) s) else Some s);
           s \<leftarrow> iunlockput sw dp s;
           s \<leftarrow> iupdate sw ip (add_nlink ip (-1) s);
           s \<leftarrow> iunlockput sw ip s;
           s \<leftarrow> end_op sw s;
           Some (0, s) } } } }"

definition sys_unlink :: "('z file_state_scheme \<Rightarrow> 'z file_state_scheme option) \<Rightarrow> 'z file_state_scheme \<Rightarrow> (u64 \<times> 'z file_state_scheme) option" where
  "sys_unlink sw s = do {
     (r, path, s) \<leftarrow> argstr 0 MAXPATH s;
     if r < 0 then Some (-1, s)
     else do {
       s \<leftarrow> begin_op sw s;
       (dp, name, s) \<leftarrow> nameiparent sw (cstr path) (replicate DIRSIZ 0) s;
       case dp of
         None \<Rightarrow> do { s \<leftarrow> end_op sw s; Some (-1, s) }
       | Some dp \<Rightarrow> do {
           s \<leftarrow> ilock sw (Some dp) s;
           if namecmp name [46] = 0 \<or> namecmp name [46, 46] = 0 then unlink_bad sw dp s
           else do {
             (r, s) \<leftarrow> dirlookup sw dp name s;
             case r of
               None \<Rightarrow> unlink_bad sw dp s
             | Some (ip, offs) \<Rightarrow> unlink_entry sw dp ip offs s } } } }"

section \<open>Creating and opening\<close>

text \<open>The label fail of create, and its part after the inode is allocated.\<close>

definition create_fail :: "('z file_state_scheme \<Rightarrow> 'z file_state_scheme option) \<Rightarrow> nat \<Rightarrow> nat \<Rightarrow> 'z file_state_scheme
    \<Rightarrow> (nat option \<times> 'z file_state_scheme) option" where
  "create_fail sw dp ip s = do {
     s \<leftarrow> iupdate sw ip (upd_inode ip (\<lambda>x. x\<lparr>i_nlink := 0\<rparr>) s);
     s \<leftarrow> iunlockput sw ip s;
     s \<leftarrow> iunlockput sw dp s;
     Some (None, s) }"

definition create_new :: "('z file_state_scheme \<Rightarrow> 'z file_state_scheme option) \<Rightarrow> nat \<Rightarrow> u8 list \<Rightarrow> nat \<Rightarrow> u16 \<Rightarrow> u16 \<Rightarrow> u16
    \<Rightarrow> 'z file_state_scheme \<Rightarrow> (nat option \<times> 'z file_state_scheme) option" where
  "create_new sw dp name ip type major minor s = do {
     s \<leftarrow> ilock sw (Some ip) s;
     s \<leftarrow> iupdate sw ip (upd_inode ip (\<lambda>x. x\<lparr>i_major := major, i_minor := minor, i_nlink := 1\<rparr>) s);
     (r, s) \<leftarrow> (if type = T_DIR then do {
         (r, s) \<leftarrow> dirlink sw ip [46] (i_inum (itable s ip)) s;
         if r < 0 then Some (r, s) else dirlink sw ip [46, 46] (i_inum (itable s dp)) s }
       else Some (0, s));
     if r < 0 then create_fail sw dp ip s
     else do {
       (r, s) \<leftarrow> dirlink sw dp name (i_inum (itable s ip)) s;
       if r < 0 then create_fail sw dp ip s
       else do {
         s \<leftarrow> (if type = T_DIR then iupdate sw dp (add_nlink dp 1 s) else Some s);
         s \<leftarrow> iunlockput sw dp s;
         Some (Some ip, s) } } }"

definition create :: "('z file_state_scheme \<Rightarrow> 'z file_state_scheme option) \<Rightarrow> u8 list \<Rightarrow> u16 \<Rightarrow> u16 \<Rightarrow> u16
    \<Rightarrow> 'z file_state_scheme \<Rightarrow> (nat option \<times> 'z file_state_scheme) option" where
  "create sw path type major minor s = do {
     (dp, name, s) \<leftarrow> nameiparent sw path (replicate DIRSIZ 0) s;
     case dp of
       None \<Rightarrow> Some (None, s)
     | Some dp \<Rightarrow> do {
         s \<leftarrow> ilock sw (Some dp) s;
         (r, s) \<leftarrow> dirlookup sw dp name s;
         case r of
           Some (ip, _) \<Rightarrow> do {
             s \<leftarrow> iunlockput sw dp s;
             s \<leftarrow> ilock sw (Some ip) s;
             if type = T_FILE \<and> (i_type (itable s ip) = T_FILE \<or> i_type (itable s ip) = T_DEVICE)
             then Some (Some ip, s)
             else do {
               s \<leftarrow> iunlockput sw ip s;
               Some (None, s) } }
         | None \<Rightarrow> do {
             (r, s) \<leftarrow> ialloc sw (i_dev (itable s dp)) type s;
             case r of
               None \<Rightarrow> do { s \<leftarrow> iunlockput sw dp s; Some (None, s) }
             | Some ip \<Rightarrow> create_new sw dp name ip type major minor s } } }"

text \<open>The part of sys_open that gives up on the inode, and the part that opens it.\<close>

definition open_bad :: "('z file_state_scheme \<Rightarrow> 'z file_state_scheme option) \<Rightarrow> nat \<Rightarrow> 'z file_state_scheme \<Rightarrow> (u64 \<times> 'z file_state_scheme) option" where
  "open_bad sw ip s = do {
     s \<leftarrow> iunlockput sw ip s;
     s \<leftarrow> end_op sw s;
     Some (-1, s) }"

definition open_file :: "int \<Rightarrow> inode \<Rightarrow> nat \<Rightarrow> struct_file \<Rightarrow> struct_file" where
  "open_file omode x ip f =
    (if i_type x = T_DEVICE then f\<lparr>f_type := FD_DEVICE, f_major := sint (i_major x)\<rparr>
     else f\<lparr>f_type := FD_INODE, f_off := 0\<rparr>)
    \<lparr>f_ip := Some ip, f_readable := omode AND O_WRONLY = 0,
     f_writable := omode AND O_WRONLY \<noteq> 0 \<or> omode AND O_RDWR \<noteq> 0\<rparr>"

definition open_inode :: "('z file_state_scheme \<Rightarrow> 'z file_state_scheme option) \<Rightarrow> int \<Rightarrow> nat \<Rightarrow> 'z file_state_scheme \<Rightarrow> (u64 \<times> 'z file_state_scheme) option" where
  "open_inode sw omode ip s =
    (if i_type (itable s ip) = T_DEVICE \<and> (sint (i_major (itable s ip)) < 0 \<or> sint (i_major (itable s ip)) \<ge> int NDEV)
     then open_bad sw ip s
     else do {
       (f, s) \<leftarrow> filealloc s;
       case f of
         None \<Rightarrow> open_bad sw ip s
       | Some f \<Rightarrow> do {
           (fd, s) \<leftarrow> fdalloc f s;
           if fd < 0 then do { s \<leftarrow> fileclose sw f s; open_bad sw ip s }
           else do {
             let s = upd_file f (open_file omode (itable s ip) ip) s;
             s \<leftarrow> (if omode AND O_TRUNC \<noteq> 0 \<and> i_type (itable s ip) = T_FILE then itrunc sw ip s else Some s);
             s \<leftarrow> iunlock (Some ip) s;
             s \<leftarrow> end_op sw s;
             Some (word_of_int fd, s) } } })"

definition sys_open :: "('z file_state_scheme \<Rightarrow> 'z file_state_scheme option) \<Rightarrow> 'z file_state_scheme \<Rightarrow> (u64 \<times> 'z file_state_scheme) option" where
  "sys_open sw s = do {
     (omode, s) \<leftarrow> argint 1 s;
     (r, path, s) \<leftarrow> argstr 0 MAXPATH s;
     if r < 0 then Some (-1, s)
     else do {
       s \<leftarrow> begin_op sw s;
       if omode AND O_CREATE \<noteq> 0 then do {
         (ip, s) \<leftarrow> create sw (cstr path) T_FILE 0 0 s;
         case ip of
           None \<Rightarrow> do { s \<leftarrow> end_op sw s; Some (-1, s) }
         | Some ip \<Rightarrow> open_inode sw omode ip s }
       else do {
         (ip, s) \<leftarrow> namei sw (cstr path) s;
         case ip of
           None \<Rightarrow> do { s \<leftarrow> end_op sw s; Some (-1, s) }
         | Some ip \<Rightarrow> do {
             s \<leftarrow> ilock sw (Some ip) s;
             if i_type (itable s ip) = T_DIR \<and> omode \<noteq> O_RDONLY then open_bad sw ip s
             else open_inode sw omode ip s } } } }"

definition sys_mkdir :: "('z file_state_scheme \<Rightarrow> 'z file_state_scheme option) \<Rightarrow> 'z file_state_scheme \<Rightarrow> (u64 \<times> 'z file_state_scheme) option" where
  "sys_mkdir sw s = do {
     s \<leftarrow> begin_op sw s;
     (r, path, s) \<leftarrow> argstr 0 MAXPATH s;
     (ip, s) \<leftarrow> (if r < 0 then Some (None, s) else create sw (cstr path) T_DIR 0 0 s);
     case ip of
       None \<Rightarrow> do { s \<leftarrow> end_op sw s; Some (-1, s) }
     | Some ip \<Rightarrow> do {
         s \<leftarrow> iunlockput sw ip s;
         s \<leftarrow> end_op sw s;
         Some (0, s) } }"

definition sys_mknod :: "('z file_state_scheme \<Rightarrow> 'z file_state_scheme option) \<Rightarrow> 'z file_state_scheme \<Rightarrow> (u64 \<times> 'z file_state_scheme) option" where
  "sys_mknod sw s = do {
     s \<leftarrow> begin_op sw s;
     (major, s) \<leftarrow> argint 1 s;
     (minor, s) \<leftarrow> argint 2 s;
     (r, path, s) \<leftarrow> argstr 0 MAXPATH s;
     (ip, s) \<leftarrow> (if r < 0 then Some (None, s)
                else create sw (cstr path) T_DEVICE (word_of_int major) (word_of_int minor) s);
     case ip of
       None \<Rightarrow> do { s \<leftarrow> end_op sw s; Some (-1, s) }
     | Some ip \<Rightarrow> do {
         s \<leftarrow> iunlockput sw ip s;
         s \<leftarrow> end_op sw s;
         Some (0, s) } }"

definition sys_chdir :: "('z file_state_scheme \<Rightarrow> 'z file_state_scheme option) \<Rightarrow> 'z file_state_scheme \<Rightarrow> (u64 \<times> 'z file_state_scheme) option" where
  "sys_chdir sw s = do {
     (p, s) \<leftarrow> myp s;
     s \<leftarrow> begin_op sw s;
     (r, path, s) \<leftarrow> argstr 0 MAXPATH s;
     (ip, s) \<leftarrow> (if r < 0 then Some (None, s) else namei sw (cstr path) s);
     case ip of
       None \<Rightarrow> do { s \<leftarrow> end_op sw s; Some (-1, s) }
     | Some ip \<Rightarrow> do {
         s \<leftarrow> ilock sw (Some ip) s;
         if i_type (itable s ip) \<noteq> T_DIR then do {
           s \<leftarrow> iunlockput sw ip s;
           s \<leftarrow> end_op sw s;
           Some (-1, s) }
         else do {
           s \<leftarrow> iunlock (Some ip) s;
           cwd \<leftarrow> p_cwd (procs s p);
           s \<leftarrow> iput sw cwd s;
           s \<leftarrow> end_op sw s;
           Some (0, upd_proc p (\<lambda>x. x\<lparr>p_cwd := Some ip\<rparr>) s) } } }"

section \<open>Exec and pipes\<close>

text \<open>The loop over the arguments runs while i < 32 = NELEM(argv); its first argument is what is left of it. The
  strings go to pages of the kernel, whose addresses, in argv, are the result; the flag says that the loop was left
  at the null argument.\<close>

primrec exec_argv :: "nat \<Rightarrow> u64 \<Rightarrow> u64 list \<Rightarrow> 'z file_state_scheme \<Rightarrow> ((bool \<times> u64 list) \<times> 'z file_state_scheme) option" where
  "exec_argv 0 uargv argv s = Some ((False, argv), s)"
| "exec_argv (Suc k) uargv argv s = do {
     (r, uarg, s) \<leftarrow> fetchaddr (uargv + 8 * of_nat (length argv)) s;
     if r < 0 then Some ((False, argv), s)
     else if uarg = 0 then Some ((True, argv), s)
     else do {
       (pa, s) \<leftarrow> kalloc s;
       if pa = 0 then Some ((False, argv), s)
       else do {
         (r, bs, s) \<leftarrow> fetchstr uarg 4096 s;
         let s = s\<lparr>ram := put_bytes pa bs (ram s)\<rparr>;
         if r < 0 then Some ((False, argv @ [pa]), s)
         else exec_argv k uargv (argv @ [pa]) s } } }"

primrec free_argv :: "u64 list \<Rightarrow> 'z file_state_scheme \<Rightarrow> 'z file_state_scheme option" where
  "free_argv [] s = Some s"
| "free_argv (pa # argv) s = do { s \<leftarrow> kfree pa s; free_argv argv s }"

definition sys_exec :: "('z file_state_scheme \<Rightarrow> 'z file_state_scheme option) \<Rightarrow> 'z file_state_scheme \<Rightarrow> (u64 \<times> 'z file_state_scheme) option" where
  "sys_exec sw s = do {
     (uargv, s) \<leftarrow> argaddr 1 s;
     (r, path, s) \<leftarrow> argstr 0 MAXPATH s;
     if r < 0 then Some (-1, s)
     else do {
       ((ok, argv), s) \<leftarrow> exec_argv MAXARG uargv [] s;
       if \<not> ok then do { s \<leftarrow> free_argv argv s; Some (-1, s) }
       else do {
         (ret, s) \<leftarrow> exec sw (cstr path) argv s;
         s \<leftarrow> free_argv argv s;
         Some (word_of_int ret, s) } } }"

text \<open>The part of sys_pipe that closes both ends.\<close>

definition pipe_undo :: "('z file_state_scheme \<Rightarrow> 'z file_state_scheme option) \<Rightarrow> nat \<Rightarrow> nat \<Rightarrow> 'z file_state_scheme \<Rightarrow> (u64 \<times> 'z file_state_scheme) option" where
  "pipe_undo sw rf wrf s = do {
     s \<leftarrow> fileclose sw rf s;
     s \<leftarrow> fileclose sw wrf s;
     Some (-1, s) }"

definition sys_pipe :: "('z file_state_scheme \<Rightarrow> 'z file_state_scheme option) \<Rightarrow> 'z file_state_scheme \<Rightarrow> (u64 \<times> 'z file_state_scheme) option" where
  "sys_pipe sw s = do {
     (p, s) \<leftarrow> myp s;
     (fdarray, s) \<leftarrow> argaddr 0 s;
     ((r, f0, f1), s) \<leftarrow> pipealloc sw s;
     if r < 0 then Some (-1, s)
     else do {
       rf \<leftarrow> f0;
       wrf \<leftarrow> f1;
       (fd0, s) \<leftarrow> fdalloc rf s;
       if fd0 < 0 then pipe_undo sw rf wrf s
       else do {
         (fd1, s) \<leftarrow> fdalloc wrf s;
         if fd1 < 0 then pipe_undo sw rf wrf (set_fd p (nat fd0) None s)
         else do {
           (r, s) \<leftarrow> copyout (p_pagetable (procs s p)) fdarray (int_bytes fd0) s;
           (r, s) \<leftarrow> (if r < 0 then Some (r, s) else copyout (p_pagetable (procs s p)) (fdarray + 4) (int_bytes fd1) s);
           if r < 0 then pipe_undo sw rf wrf (set_fd p (nat fd1) None (set_fd p (nat fd0) None s))
           else Some (0, s) } } } }"

end
