(* ===== verification/Trap.thy ===== *)
theory Trap
  imports Sysfile
begin

unbundle bit_operations_syntax

text \<open>
  The system call dispatcher (syscall of kernel/syscall.c), the interrupt controller (kernel/plic.c), traps
  (kernel/trap.c) and forkret (kernel/proc.c).

  Each hart has its control and status registers; of sstatus the bits SPP and SPIE are kept here and SIE is in the
  hart. The interrupt controller answers a claim with the next number of \<open>plic_pending\<close>, 0 if there is none; the
  other registers hold what was written. The addresses of the trap vectors and of usertrap come from the linker.
  usertrapret does not return: its result is the address in the trampoline it jumps to and the argument it passes,
  with the state at that moment.
\<close>

record csr =
  stvec :: u64
  sepc :: u64
  scause :: u64
  stval :: u64
  sip :: u64
  spp :: bool
  spie :: bool

record trap_state = file_state +
  csrs :: "nat \<Rightarrow> csr"
  plic_reg :: "u64 \<Rightarrow> u32"
  plic_pending :: "nat \<Rightarrow> u32 list"
  plic_completed :: "nat \<Rightarrow> u32 list"
  forkret_first :: bool
  uservec :: u64
  userret :: u64
  kernelvec :: u64
  usertrap_pc :: u64

definition mycsr :: "'z trap_state_scheme \<Rightarrow> csr" where
  "mycsr s = csrs s (tp (hw s))"

definition upd_csr :: "(csr \<Rightarrow> csr) \<Rightarrow> 'z trap_state_scheme \<Rightarrow> 'z trap_state_scheme" where
  "upd_csr f s = s\<lparr>csrs := (csrs s)(tp (hw s) := f (mycsr s))\<rparr>"

section \<open>System calls\<close>

text \<open>The table syscalls, by the numbers of syscall.h. \<open>junk\<close> and \<open>pad\<close> are the contents of uninitialised local
  variables of sys_waitx and filestat.\<close>

definition syscalls :: "('z file_state_scheme \<Rightarrow> 'z file_state_scheme option) \<Rightarrow> u32 \<times> u32 \<Rightarrow> u8 list
    \<Rightarrow> ('z file_state_scheme \<Rightarrow> (u64 \<times> 'z file_state_scheme) option) list" where
  "syscalls sw junk pad = [\<lambda>_. None,
     sys_fork, sys_exit sw, sys_wait sw, sys_pipe sw, sys_read sw, sys_kill, sys_exec sw, sys_fstat sw pad,
     sys_chdir sw, sys_dup, sys_getpid, sys_sbrk, sys_sleep sw, sys_uptime, sys_open sw, sys_write sw,
     sys_mknod sw, sys_unlink sw, sys_link sw, sys_mkdir sw, sys_close sw, sys_waitx sw junk, sys_getSysCount,
     sys_sigalarm, sys_sigreturn, sys_settickets, sys_printlog]"

text \<open>The call counts against the caller's parent.\<close>

definition count_call :: "nat \<Rightarrow> nat \<Rightarrow> 'z proc_state_scheme \<Rightarrow> 'z proc_state_scheme" where
  "count_call p num s = (case p_parent (procs s p) of
     None \<Rightarrow> s
   | Some pp \<Rightarrow> upd_proc pp (\<lambda>x. x\<lparr>p_syscall_count := (p_syscall_count x)(num := p_syscall_count x num + 1)\<rparr>) s)"

definition syscall :: "('z file_state_scheme \<Rightarrow> 'z file_state_scheme option) \<Rightarrow> u32 \<times> u32 \<Rightarrow> u8 list \<Rightarrow> 'z file_state_scheme
    \<Rightarrow> 'z file_state_scheme option" where
  "syscall sw junk pad s = do {
     (p, s) \<leftarrow> myp s;
     let num = sint (ucast (tf_get (p_trapframe (procs s p)) TF_a7 s) :: u32);
     if num > 0 \<and> num < int (length (syscalls sw junk pad)) then do {
       (r, s) \<leftarrow> (syscalls sw junk pad ! nat num) (count_call p (nat num) s);
       Some (tf_set (p_trapframe (procs s p)) TF_a0 r s) }
     else do {
       s \<leftarrow> printf (''%d %s: unknown sys call %d'' @ [CHR 0x0A])
             [VInt (p_pid (procs s p)), VStr (Some (map (\<lambda>c. char_of (unat c)) (cstr (p_name (procs s p))))), VInt num] s;
       Some (tf_set (p_trapframe (procs s p)) TF_a0 (-1) s) } }"

section \<open>The interrupt controller\<close>

definition UART0_IRQ :: nat where "UART0_IRQ = 10"
definition VIRTIO0_IRQ :: nat where "VIRTIO0_IRQ = 1"

definition PLIC_SENABLE :: "nat \<Rightarrow> u64" where
  "PLIC_SENABLE h = PLIC + 0x2080 + of_nat h * 0x100"

definition PLIC_SPRIORITY :: "nat \<Rightarrow> u64" where
  "PLIC_SPRIORITY h = PLIC + 0x201000 + of_nat h * 0x2000"

definition plicinit :: "'z trap_state_scheme \<Rightarrow> 'z trap_state_scheme" where
  "plicinit s = s\<lparr>plic_reg := (plic_reg s)(PLIC + of_nat (UART0_IRQ * 4) := 1, PLIC + of_nat (VIRTIO0_IRQ * 4) := 1)\<rparr>"

definition plicinithart :: "'z trap_state_scheme \<Rightarrow> 'z trap_state_scheme" where
  "plicinithart s = s\<lparr>plic_reg := (plic_reg s)(
     PLIC_SENABLE (cpuid (hw s)) := push_bit UART0_IRQ 1 OR push_bit VIRTIO0_IRQ 1,
     PLIC_SPRIORITY (cpuid (hw s)) := 0)\<rparr>"

definition plic_claim :: "'z trap_state_scheme \<Rightarrow> int \<times> 'z trap_state_scheme" where
  "plic_claim s = (case plic_pending s (cpuid (hw s)) of
     [] \<Rightarrow> (0, s)
   | irq # irqs \<Rightarrow> (sint irq, s\<lparr>plic_pending := (plic_pending s)(cpuid (hw s) := irqs)\<rparr>))"

definition plic_complete :: "int \<Rightarrow> 'z trap_state_scheme \<Rightarrow> 'z trap_state_scheme" where
  "plic_complete irq s = s\<lparr>plic_completed := (plic_completed s)(cpuid (hw s) :=
     plic_completed s (cpuid (hw s)) @ [word_of_int irq])\<rparr>"

section \<open>Traps\<close>

definition trapinit :: "'z trap_state_scheme \<Rightarrow> 'z trap_state_scheme" where
  "trapinit s = s\<lparr>hw := initlock Lk_ticks ''time'' (hw s)\<rparr>"

definition trapinithart :: "'z trap_state_scheme \<Rightarrow> 'z trap_state_scheme" where
  "trapinithart s = upd_csr (\<lambda>c. c\<lparr>stvec := kernelvec s\<rparr>) s"

definition clockintr :: "'z proc_state_scheme \<Rightarrow> 'z proc_state_scheme option" where
  "clockintr s = do {
     s \<leftarrow> lock Lk_ticks s;
     let s = s\<lparr>ticks := ticks s + 1\<rparr>;
     s \<leftarrow> update_time s;
     s \<leftarrow> wakeup (Some Ch_ticks) s;
     unlock Lk_ticks s }"

definition devintr :: "'z trap_state_scheme \<Rightarrow> (int \<times> 'z trap_state_scheme) option" where
  "devintr s = (let cause = scause (mycsr s) in
    if cause AND 0x8000000000000000 \<noteq> 0 \<and> cause AND 0xff = 9 then do {
      let (irq, s) = plic_claim s;
      s \<leftarrow> (if irq = int UART0_IRQ then uartintr s
           else if irq = int VIRTIO0_IRQ then virtio_disk_intr s
           else if irq \<noteq> 0 then printf (''unexpected interrupt irq=%d'' @ [CHR 0x0A]) [VInt irq] s
           else Some s);
      let s = (if irq \<noteq> 0 then plic_complete irq s else s);
      Some (1, s) }
    else if cause = 0x8000000000000001 then do {
      s \<leftarrow> (if cpuid (hw s) = 0 then clockintr s else Some s);
      Some (2, upd_csr (\<lambda>c. c\<lparr>sip := sip c AND NOT 2\<rparr>) s) }
    else Some (0, s))"

text \<open>The result of the jump to the trampoline: the address, and satp.\<close>

definition usertrapret :: "'z trap_state_scheme \<Rightarrow> (u64 \<times> u64 \<times> 'z trap_state_scheme) option" where
  "usertrapret s = do {
     (p, s) \<leftarrow> myp s;
     let s = s\<lparr>hw := intr_off (hw s)\<rparr>;
     let s = upd_csr (\<lambda>c. c\<lparr>stvec := TRAMPOLINE + (uservec s - trampoline s)\<rparr>) s;
     let tf = p_trapframe (procs s p);
     let s = tf_set tf TF_kernel_satp (satp s (tp (hw s))) s;
     let s = tf_set tf TF_kernel_sp (p_kstack (procs s p) + PGSIZE) s;
     let s = tf_set tf TF_kernel_trap (usertrap_pc s) s;
     let s = tf_set tf TF_kernel_hartid (of_nat (tp (hw s))) s;
     let s = upd_csr (\<lambda>c. c\<lparr>spp := False, spie := True\<rparr>) s;
     let s = upd_csr (\<lambda>c. c\<lparr>sepc := tf_get tf TF_epc s\<rparr>) s;
     Some (TRAMPOLINE + (userret s - trampoline s), MAKE_SATP (p_pagetable (procs s p)), s) }"

text \<open>The alarm of usertrap, at each tick while it is set and no handler runs. The result of kalloc is not checked:
  with none, the copy is to address 0, which is not mapped. A remainder by 0 has no value.\<close>

definition alarm_tick :: "nat \<Rightarrow> 'z proc_state_scheme \<Rightarrow> 'z proc_state_scheme option" where
  "alarm_tick p s = do {
     (tf, s) \<leftarrow> kalloc s;
     if tf = 0 then None
     else do {
       let s = s\<lparr>ram := memmove tf (p_trapframe (procs s p)) 4096 (ram s)\<rparr>;
       let s = upd_proc p (\<lambda>x. x\<lparr>p_alarm_tf := tf\<rparr>) s;
       let s = upd_proc p (\<lambda>x. x\<lparr>p_s_tcks := p_s_tcks x + 1\<rparr>) s;
       if p_ticks (procs s p) = 0 then None
       else if p_s_tcks (procs s p) mod p_ticks (procs s p) = 0
       then let s = tf_set (p_trapframe (procs s p)) TF_epc (p_handler (procs s p)) s
            in Some (upd_proc p (\<lambda>x. x\<lparr>p_hlp := 0\<rparr>) s)
       else Some s } }"

definition usertrap :: "('z trap_state_scheme \<Rightarrow> 'z trap_state_scheme option) \<Rightarrow> u32 \<times> u32 \<Rightarrow> u8 list \<Rightarrow> 'z trap_state_scheme
    \<Rightarrow> (u64 \<times> u64 \<times> 'z trap_state_scheme) option" where
  "usertrap sw junk pad s =
    (if spp (mycsr s) then None
     else do {
       let s = upd_csr (\<lambda>c. c\<lparr>stvec := kernelvec s\<rparr>) s;
       (p, s) \<leftarrow> myp s;
       let s = tf_set (p_trapframe (procs s p)) TF_epc (sepc (mycsr s)) s;
       (which_dev, s) \<leftarrow> (if scause (mycsr s) = 8 then do {
           (k, s) \<leftarrow> killed p s;
           s \<leftarrow> (if k \<noteq> 0 then exit sw (-1) s else Some s);
           let tf = p_trapframe (procs s p);
           let s = tf_set tf TF_epc (tf_get tf TF_epc s + 4) s;
           let s = s\<lparr>hw := intr_on (hw s)\<rparr>;
           s \<leftarrow> syscall sw junk pad s;
           Some (0, s) }
         else do {
           (d, s) \<leftarrow> devintr s;
           if d \<noteq> 0 then Some (d, s)
           else do {
             s \<leftarrow> printf (''usertrap(): unexpected scause %p pid=%d'' @ [CHR 0x0A])
                   [VPtr (scause (mycsr s)), VInt (p_pid (procs s p))] s;
             s \<leftarrow> printf (''            sepc=%p stval=%p'' @ [CHR 0x0A]) [VPtr (sepc (mycsr s)), VPtr (stval (mycsr s))] s;
             s \<leftarrow> setkilled p s;
             Some (0, s) } });
       (k, s) \<leftarrow> killed p s;
       s \<leftarrow> (if k \<noteq> 0 then exit sw (-1) s else Some s);
       s \<leftarrow> (if which_dev = 2 \<and> p_alarm_act (procs s p) = 1 \<and> p_hlp (procs s p) = 1 then alarm_tick p s else Some s);
       s \<leftarrow> (if which_dev = 2 then yield sw s else Some s);
       usertrapret s })"

definition kerneltrap :: "('z trap_state_scheme \<Rightarrow> 'z trap_state_scheme option) \<Rightarrow> 'z trap_state_scheme \<Rightarrow> 'z trap_state_scheme option" where
  "kerneltrap sw s =
    (let c0 = mycsr s; sie0 = intr_get (hw s) in
     if \<not> spp c0 then None
     else if sie0 then None
     else do {
       (which_dev, s) \<leftarrow> devintr s;
       if which_dev = 0 then None
       else do {
         s \<leftarrow> (if which_dev = 2 then do {
                (me, s) \<leftarrow> curproc s;
                case me of
                  None \<Rightarrow> Some s
                | Some p \<Rightarrow> if p_state (procs s p) = RUNNING then yield sw s else Some s }
              else Some s);
         let s = upd_csr (\<lambda>c. c\<lparr>sepc := sepc c0\<rparr>) s;
         let s = upd_csr (\<lambda>c. c\<lparr>spp := spp c0, spie := spie c0\<rparr>) s;
         Some (s\<lparr>hw := intr_off (hw s)\<rparr>) } })"

definition forkret :: "('z trap_state_scheme \<Rightarrow> 'z trap_state_scheme option) \<Rightarrow> 'z trap_state_scheme
    \<Rightarrow> (u64 \<times> u64 \<times> 'z trap_state_scheme) option" where
  "forkret sw s = do {
     (p, s) \<leftarrow> myp s;
     s \<leftarrow> unlock (Lk_proc p) s;
     s \<leftarrow> (if forkret_first s then fsinit sw (sint ROOTDEV) (s\<lparr>forkret_first := False\<rparr>) else Some s);
     usertrapret s }"

end
