(* ===== verification/Sched.thy ===== *)
theory Sched
  imports Proc
begin

text \<open>
  The three schedulers of kernel/proc.c: round robin (RR), lottery (LBS) and the multi-level
  feedback queue (MLFQ), chosen at compile time. scheduler() never returns: it repeats a round
  for ever, so the model has one function per policy for a round.

  \<open>sw\<close> is swtch(&c->context, &p->context): what happens on this hart from the switch to the
  process until the process switches back. It is a parameter; the lemmas say what they need of
  it. npnq, roqd and tick_slc are arrays of four; an index outside them has no result.
\<close>

section \<open>The rounds\<close>

definition set_cproc :: "nat option \<Rightarrow> 'z proc_state_scheme \<Rightarrow> 'z proc_state_scheme" where
  "set_cproc p s = s\<lparr>hw := upd_cpu (\<lambda>c. c\<lparr>cproc := p\<rparr>) (hw s)\<rparr>"

text \<open>The lines all three share: mark the process running, make it current, switch to it.\<close>

definition dispatch :: "('z proc_state_scheme \<Rightarrow> 'z proc_state_scheme option) \<Rightarrow> nat
    \<Rightarrow> 'z proc_state_scheme \<Rightarrow> 'z proc_state_scheme option" where
  "dispatch sw p s = do {
     let s = upd_proc p (\<lambda>x. x\<lparr>p_state := RUNNING\<rparr>) s;
     let s = set_cproc (Some p) s;
     s \<leftarrow> sw s;
     Some (set_cproc None s) }"

definition intr_on_s :: "'z proc_state_scheme \<Rightarrow> 'z proc_state_scheme" where
  "intr_on_s s = s\<lparr>hw := intr_on (hw s)\<rparr>"

definition rr_round :: "('z proc_state_scheme \<Rightarrow> 'z proc_state_scheme option)
    \<Rightarrow> 'z proc_state_scheme \<Rightarrow> 'z proc_state_scheme option" where
  "rr_round sw s = do {
     let s = intr_on_s s;
     for_n 0 NPROC (\<lambda>p s. do {
       s \<leftarrow> lock (Lk_proc p) s;
       s \<leftarrow> (if p_state (procs s p) = RUNNABLE then dispatch sw p s else Some s);
       unlock (Lk_proc p) s }) s }"

subsection \<open>LBS\<close>

definition sum_tickets :: "'z proc_state_scheme \<Rightarrow> int" where
  "sum_tickets s = fold (\<lambda>p sum_tkt. if p_state (procs s p) = RUNNABLE
     then sum_tkt + p_tickets (procs s p) else sum_tkt) [0..<NPROC] 0"

text \<open>The loop that draws the winner leaves it with the winner's lock held.\<close>

definition lbs_visit :: "nat \<Rightarrow> nat option \<times> int \<times> 'z proc_state_scheme
    \<Rightarrow> (unit option \<times> nat option \<times> int \<times> 'z proc_state_scheme) option" where
  "lbs_visit p = (\<lambda>(winner, rtvll, s). do {
     s \<leftarrow> lock (Lk_proc p) s;
     if p_state (procs s p) = RUNNABLE \<and> p_tickets (procs s p) > rtvll then do {
       let winner = (case winner of
           None \<Rightarrow> Some p
         | Some w \<Rightarrow> if p_tickets (procs s w) = p_tickets (procs s p) \<and>
                       p_arrival_t (procs s w) > p_arrival_t (procs s p) then Some p else Some w);
       Some (Some (), winner, rtvll, s) }
     else do {
       let rtvll = (if p_state (procs s p) = RUNNABLE then rtvll - p_tickets (procs s p) else rtvll);
       s \<leftarrow> unlock (Lk_proc p) s;
       Some (None, winner, rtvll, s) } })"

definition lbs_round :: "('z proc_state_scheme \<Rightarrow> 'z proc_state_scheme option)
    \<Rightarrow> 'z proc_state_scheme \<Rightarrow> 'z proc_state_scheme option" where
  "lbs_round sw s = do {
     let s = intr_on_s s;
     let sum_tkt = sum_tickets s;
     let rtvll = rg 0 sum_tkt s;
     (_, winner, _, s) \<leftarrow> search_n 0 NPROC lbs_visit (None, rtvll, s);
     case winner of
       None \<Rightarrow> Some s
     | Some w \<Rightarrow> do {
         s \<leftarrow> dispatch sw w s;
         unlock (Lk_proc w) s } }"

subsection \<open>MLFQ\<close>

definition tick_slc :: "nat \<Rightarrow> int" where
  "tick_slc i = [1, 4, 8, 16] ! i"

definition in4 :: "int \<Rightarrow> nat option" where
  "in4 q = (if 0 \<le> q \<and> q < 4 then Some (nat q) else None)"

text \<open>\<open>npnq[q] += d\<close>\<close>

definition add_npnq :: "int \<Rightarrow> int \<Rightarrow> 'z proc_state_scheme \<Rightarrow> 'z proc_state_scheme option" where
  "add_npnq q d s = do {
     i \<leftarrow> in4 q;
     Some (s\<lparr>npnq := (npnq s)(i := npnq s i + d)\<rparr>) }"

text \<open>\<open>p->qnumber = roqd[p->queue]; roqd[p->queue]++\<close>\<close>

definition take_number :: "nat \<Rightarrow> 'z proc_state_scheme \<Rightarrow> 'z proc_state_scheme option" where
  "take_number p s = do {
     i \<leftarrow> in4 (p_queue (procs s p));
     let s = upd_proc p (\<lambda>x. x\<lparr>p_qnumber := roqd s i\<rparr>) s;
     Some (s\<lparr>roqd := (roqd s)(i := roqd s i + 1)\<rparr>) }"

definition log_if :: "nat \<Rightarrow> 'z proc_state_scheme \<Rightarrow> 'z proc_state_scheme" where
  "log_if p s = (if p_pid (procs s p) > 2 then log_process_queue p s else s)"

text \<open>A process that has waited 48 rounds moves to queue 0.\<close>

definition promote :: "nat \<Rightarrow> 'z proc_state_scheme \<Rightarrow> 'z proc_state_scheme option" where
  "promote q s = do {
     let s = log_if q s;
     s \<leftarrow> add_npnq (p_queue (procs s q)) (-1) s;
     let s = upd_proc q (\<lambda>x. x\<lparr>p_queue := 0\<rparr>) s;
     s \<leftarrow> add_npnq (p_queue (procs s q)) 1 s;
     let s = upd_proc q (\<lambda>x. x\<lparr>p_pqtct := 0, p_wwpqtct := 0\<rparr>) s;
     s \<leftarrow> take_number q s;
     Some (log_if q s) }"

definition mlfq_lowest :: "'z proc_state_scheme \<Rightarrow> (int \<times> 'z proc_state_scheme) option" where
  "mlfq_lowest s = for_n 0 NPROC (\<lambda>p (qm, s). do {
     s \<leftarrow> lock (Lk_proc p) s;
     let qm = (if p_state (procs s p) = RUNNABLE \<and> p_queue (procs s p) < qm
               then p_queue (procs s p) else qm);
     s \<leftarrow> unlock (Lk_proc p) s;
     Some (qm, s) }) (4, s)"

text \<open>In the lowest queue, after each process that ran, the others have waited one round more.\<close>

definition mlfq_age_others :: "nat \<Rightarrow> 'z proc_state_scheme \<Rightarrow> 'z proc_state_scheme option" where
  "mlfq_age_others p s = for_n 0 NPROC (\<lambda>q s.
     if p \<noteq> q \<and> p_state (procs s q) = RUNNABLE then do {
       s \<leftarrow> lock (Lk_proc q) s;
       let s = upd_proc q (\<lambda>x. x\<lparr>p_wwpqtct := p_wwpqtct x + 1\<rparr>) s;
       s \<leftarrow> (if p_wwpqtct (procs s q) \<ge> 48 then promote q s else Some s);
       unlock (Lk_proc q) s }
     else Some s) s"

definition mlfq_last_queue :: "('z proc_state_scheme \<Rightarrow> 'z proc_state_scheme option)
    \<Rightarrow> 'z proc_state_scheme \<Rightarrow> 'z proc_state_scheme option" where
  "mlfq_last_queue sw s = for_n 0 NPROC (\<lambda>p s. do {
     s \<leftarrow> lock (Lk_proc p) s;
     s \<leftarrow> (if p_state (procs s p) = RUNNABLE then do {
             s \<leftarrow> dispatch sw p s;
             mlfq_age_others p s }
           else Some s);
     unlock (Lk_proc p) s }) s"

definition refmin1 :: int where "refmin1 = 1000000"

definition mlfq_pick :: "int \<Rightarrow> 'z proc_state_scheme \<Rightarrow> ((nat option \<times> int) \<times> 'z proc_state_scheme) option" where
  "mlfq_pick qm s = for_n 0 NPROC (\<lambda>p ((prngd, refm), s). do {
     s \<leftarrow> lock (Lk_proc p) s;
     let (prngd, refm) = (if p_state (procs s p) = RUNNABLE \<and> p_queue (procs s p) = qm \<and>
                             p_qnumber (procs s p) < refm
                          then (Some p, p_qnumber (procs s p)) else (prngd, refm));
     s \<leftarrow> unlock (Lk_proc p) s;
     Some ((prngd, refm), s) }) ((None, refmin1), s)"

text \<open>A runnable process that was not picked.\<close>

definition mlfq_wait :: "nat \<Rightarrow> 'z proc_state_scheme \<Rightarrow> 'z proc_state_scheme option" where
  "mlfq_wait p s = do {
     let s = upd_proc p (\<lambda>x. x\<lparr>p_wwpqtct := p_wwpqtct x + 1\<rparr>) s;
     if p_queue (procs s p) \<noteq> 0 \<and> p_wwpqtct (procs s p) \<ge> 48 then promote p s else Some s }"

text \<open>The process that was picked: run it, count the tick, and demote it at the end of its slice.\<close>

definition mlfq_run :: "('z proc_state_scheme \<Rightarrow> 'z proc_state_scheme option) \<Rightarrow> nat
    \<Rightarrow> 'z proc_state_scheme \<Rightarrow> 'z proc_state_scheme option" where
  "mlfq_run sw p s = do {
     s \<leftarrow> dispatch sw p s;
     let s = upd_proc p (\<lambda>x. x\<lparr>p_pqtct := p_pqtct x + 1\<rparr>) s;
     let s = log_if p s;
     i \<leftarrow> in4 (p_queue (procs s p));
     s \<leftarrow> (if p_pqtct (procs s p) \<ge> tick_slc i \<and> p_queue (procs s p) \<noteq> 4 then do {
             s \<leftarrow> add_npnq (p_queue (procs s p)) (-1) s;
             let s = upd_proc p (\<lambda>x. x\<lparr>p_queue := p_queue x + 1\<rparr>) s;
             s \<leftarrow> add_npnq (p_queue (procs s p)) 1 s;
             let s = upd_proc p (\<lambda>x. x\<lparr>p_pqtct := 0\<rparr>) s;
             s \<leftarrow> take_number p s;
             Some (log_if p s) }
           else Some s);
     Some (upd_proc p (\<lambda>x. x\<lparr>p_wwpqtct := 0\<rparr>) s) }"

definition mlfq_others :: "('z proc_state_scheme \<Rightarrow> 'z proc_state_scheme option) \<Rightarrow> nat option
    \<Rightarrow> 'z proc_state_scheme \<Rightarrow> 'z proc_state_scheme option" where
  "mlfq_others sw prngd s = for_n 0 NPROC (\<lambda>p s. do {
     s \<leftarrow> lock (Lk_proc p) s;
     s \<leftarrow> (if p_state (procs s p) = RUNNABLE \<and> Some p \<noteq> prngd then mlfq_wait p s
           else if p_state (procs s p) = RUNNABLE \<and> Some p = prngd then mlfq_run sw p s
           else Some s);
     unlock (Lk_proc p) s }) s"

definition mlfq_round :: "('z proc_state_scheme \<Rightarrow> 'z proc_state_scheme option)
    \<Rightarrow> 'z proc_state_scheme \<Rightarrow> 'z proc_state_scheme option" where
  "mlfq_round sw s = do {
     let s = intr_on_s s;
     let s = s\<lparr>random_ct := random_ct s + 1\<rparr>;
     (qm, s) \<leftarrow> mlfq_lowest s;
     if qm = 3 then mlfq_last_queue sw s
     else do {
       ((prngd, _), s) \<leftarrow> mlfq_pick qm s;
       mlfq_others sw prngd s } }"

text \<open>The scheduler thread of a hart: n rounds of the policy chosen at compile time.\<close>

datatype policy = RR | LBS | MLFQ

definition scheduler_round :: "policy \<Rightarrow> ('z proc_state_scheme \<Rightarrow> 'z proc_state_scheme option)
    \<Rightarrow> 'z proc_state_scheme \<Rightarrow> 'z proc_state_scheme option" where
  "scheduler_round pol sw s = (case pol of RR \<Rightarrow> rr_round sw s | LBS \<Rightarrow> lbs_round sw s | MLFQ \<Rightarrow> mlfq_round sw s)"

definition scheduler :: "policy \<Rightarrow> ('z proc_state_scheme \<Rightarrow> 'z proc_state_scheme option) \<Rightarrow> nat
    \<Rightarrow> 'z proc_state_scheme \<Rightarrow> 'z proc_state_scheme option" where
  "scheduler pol sw n s = for_n 0 n (\<lambda>_. scheduler_round pol sw) (set_cproc None s)"

section \<open>The hart between locks\<close>

text \<open>A hart in the scheduler: no lock held, and intena, which acquire overwrites, brought in line
  with the interrupt bit.\<close>

definition settle :: "hart \<Rightarrow> hart" where
  "settle h = upd_cpu (\<lambda>c. c\<lparr>intena := intr_get h\<rparr>) h"

definition resume :: "bool \<Rightarrow> hart \<Rightarrow> hart" where
  "resume b h = upd_cpu (\<lambda>c. c\<lparr>cproc := None, intena := b\<rparr>) (h\<lparr>sie := (sie h)(tp h := b)\<rparr>)"

definition sched_hart :: "hart \<Rightarrow> bool" where
  "sched_hart h \<longleftrightarrow> hart_ok h \<and> noff (mycpu h) = 0 \<and> plocks_free h"

lemma sched_hartD [simp]:
  assumes "sched_hart h"
  shows "hart_ok h" "noff (mycpu h) = 0" "plocks_free h" "i < NPROC \<Longrightarrow> lock_free (Lk_proc i) h"
  using assms by (auto simp: sched_hart_def)

lemma acq_settle: "noff (mycpu h) = 0 \<Longrightarrow> acq l (settle h) = acq l h"
  by (simp add: acq_def settle_def push_off_def hart_defs Let_def)

lemma lock_settle: "noff (mycpu (hw s)) = 0 \<Longrightarrow> lock l (s\<lparr>hw := settle (hw s)\<rparr>) = lock l s"
proof -
  assume "noff (mycpu (hw s)) = 0"
  then have "acq l (settle (hw s)) = acq l (hw s)" by (rule acq_settle)
  moreover have "locks (settle (hw s)) = locks (hw s)" by (simp add: settle_def upd_cpu_def)
  ultimately have "acquire l (settle (hw s)) = acquire l (hw s)"
    by (metis (no_types, lifting) acquire_Some_iff not_Some_eq)
  then show ?thesis by (simp add: lock_def option.map_comp comp_def)
qed

lemma sched_hart_resume [simp]: "sched_hart h \<Longrightarrow> sched_hart (resume b h)"
  by (auto simp: sched_hart_def resume_def hart_ok_def plocks_free_def lock_free_def hart_defs)

lemma sched_hart_intr_on: "sched_hart h \<Longrightarrow> sched_hart (settle (intr_on h))"
  by (auto simp: sched_hart_def settle_def hart_ok_def plocks_free_def lock_free_def hart_defs)

lemma resume_acq:
  assumes "noff (mycpu h) = 0"
  shows "upd_cpu (\<lambda>c. c\<lparr>cproc := None\<rparr>) (upd_cpu (\<lambda>c. c\<lparr>intena := b\<rparr>)
      (upd_cpu (\<lambda>c. c\<lparr>cproc := Some p\<rparr>) (acq l h))) = acq l (resume b h)"
  using assms
  by (intro hart.equality)
    (auto simp: resume_def acq_def push_off_def hart_defs Let_def intro!: ext cpu.equality)

text \<open>What the scheduler relies on: a process that was switched to switches back on the same hart,
  holding its own lock and no other, with interrupts off (the checks of sched()); the hart's
  intena is whatever it was in the process.\<close>

definition switches_back :: "('z proc_state_scheme \<Rightarrow> 'z proc_state_scheme option) \<Rightarrow> bool" where
  "switches_back sw \<longleftrightarrow> (\<forall>s. \<exists>s' b. sw s = Some s' \<and> hw s' = upd_cpu (\<lambda>c. c\<lparr>intena := b\<rparr>) (hw s))"

lemma dispatch_ok:
  assumes "switches_back sw" "hw s = acq (Lk_proc p) h" "sched_hart h"
  obtains s1 s' b where
    "sw (set_cproc (Some p) (upd_proc p (\<lambda>x. x\<lparr>p_state := RUNNING\<rparr>) s)) = Some s1"
    "dispatch sw p s = Some s'" "s' = set_cproc None s1" "hw s' = acq (Lk_proc p) (resume b h)"
proof -
  let ?s = "set_cproc (Some p) (upd_proc p (\<lambda>x. x\<lparr>p_state := RUNNING\<rparr>) s)"
  obtain s1 b where sw: "sw ?s = Some s1" "hw s1 = upd_cpu (\<lambda>c. c\<lparr>intena := b\<rparr>) (hw ?s)"
    using assms(1) unfolding switches_back_def by blast
  have "dispatch sw p s = Some (set_cproc None s1)" using sw(1) by (simp add: dispatch_def)
  moreover have "hw (set_cproc None s1) = acq (Lk_proc p) (resume b h)"
    using sw(2) assms(2) resume_acq [of h b p "Lk_proc p"] assms(3) by (simp add: set_cproc_def)
  ultimately show ?thesis using that sw(1) by blast
qed

lemma set_cproc_procs [simp]: "procs (set_cproc p s) = procs s" "ticks (set_cproc p s) = ticks s"
  "npnq (set_cproc p s) = npnq s" "roqd (set_cproc p s) = roqd s"
  by (simp_all add: set_cproc_def)

lemma set_cproc_hw [simp]: "hw (set_cproc p s) = upd_cpu (\<lambda>c. c\<lparr>cproc := p\<rparr>) (hw s)"
  by (simp add: set_cproc_def)

section \<open>The lottery\<close>

definition lbs_entries :: "(nat \<Rightarrow> proc) \<Rightarrow> nat \<Rightarrow> nat \<Rightarrow> (nat \<times> int) list" where
  "lbs_entries ps i n = map (\<lambda>p. (p, p_tickets (ps p))) (filter (\<lambda>p. p_state (ps p) = RUNNABLE) [i..<n])"

text \<open>The draw: entries in table order, each with as many numbers as it has tickets.\<close>

fun draw :: "(nat \<times> int) list \<Rightarrow> int \<Rightarrow> nat option" where
  "draw [] r = None"
| "draw ((p, t) # xs) r = (if t > r then Some p else draw xs (r - t))"

lemma draw_mem: "draw xs r = Some p \<Longrightarrow> p \<in> fst ` set xs"
  by (induction xs r rule: draw.induct) (auto split: if_splits)

lemma draw_total: "0 \<le> r \<Longrightarrow> r < sum_list (map snd xs) \<Longrightarrow> draw xs r \<noteq> None"
  by (induction xs r rule: draw.induct) auto

text \<open>Every process wins for exactly as many values of the random number as it has tickets.\<close>

lemma draw_share:
  assumes "distinct (map fst xs)" "\<forall>(p, t)\<in>set xs. 0 \<le> t" "(p, t) \<in> set xs"
  shows "card {r. 0 \<le> r \<and> r < sum_list (map snd xs) \<and> draw xs r = Some p} = nat t"
  using assms
proof (induction xs)
  case (Cons x xs)
  obtain q u where x: "x = (q, u)" by fastforce
  have u: "0 \<le> u" using Cons.prems(2) x by auto
  have nn: "0 \<le> sum_list (map snd xs)" using Cons.prems(2) by (intro sum_list_nonneg) auto
  show ?case
  proof (cases "p = q")
    case True
    then have "p \<notin> fst ` set xs" using Cons.prems(1) x by auto
    then have "draw xs r \<noteq> Some p" for r using draw_mem by blast
    moreover have "t = u" using True Cons.prems(1,3) x \<open>p \<notin> _\<close> by force
    ultimately have "{r. 0 \<le> r \<and> r < sum_list (map snd (x # xs)) \<and> draw (x # xs) r = Some p} = {0..<t}"
      using True x u nn by auto
    then show ?thesis by simp
  next
    case False
    have "{r. 0 \<le> r \<and> r < sum_list (map snd (x # xs)) \<and> draw (x # xs) r = Some p} =
        (\<lambda>r. r + u) ` {r. 0 \<le> r \<and> r < sum_list (map snd xs) \<and> draw xs r = Some p}" (is "?A = _ ` ?B")
    proof (intro equalityI subsetI)
      fix r assume "r \<in> ?A"
      then have "r - u \<in> ?B" using False x by (auto split: if_splits)
      then show "r \<in> (\<lambda>r. r + u) ` ?B" by (intro image_eqI [of _ _ "r - u"]) auto
    qed (use False x u in auto)
    moreover have "inj_on (\<lambda>r. r + u) A" for A by (simp add: inj_on_def)
    ultimately show ?thesis using Cons False x by (simp add: card_image)
  qed
qed simp

lemma lbs_entries_step:
  "i < n \<Longrightarrow> lbs_entries ps i n = (if p_state (ps i) = RUNNABLE then [(i, p_tickets (ps i))] else []) @ lbs_entries ps (Suc i) n"
  by (simp add: lbs_entries_def upt_conv_Cons)

lemma sum_tickets_entries: "sum_tickets s = sum_list (map snd (lbs_entries (procs s) 0 NPROC))"
proof -
  have "fold (\<lambda>p a. if p_state (procs s p) = RUNNABLE then a + p_tickets (procs s p) else a) xs c =
      c + sum_list (map (\<lambda>p. p_tickets (procs s p)) (filter (\<lambda>p. p_state (procs s p) = RUNNABLE) xs))" for xs c
    by (induction xs arbitrary: c) simp_all
  then show ?thesis by (simp add: sum_tickets_def lbs_entries_def comp_def)
qed

lemma lbs_search:
  assumes "sched_hart (hw s)" "i + n \<le> NPROC"
  shows "\<exists>r'. search_n i n lbs_visit (None, r, s) = Some (case draw (lbs_entries (procs s) i (i + n)) r of
      None \<Rightarrow> (None, None, r', s)
    | Some w \<Rightarrow> (Some (), Some w, r', s\<lparr>hw := acq (Lk_proc w) (hw s)\<rparr>))"
  using assms(2)
proof (induction n arbitrary: i r)
  case 0
  then show ?case by (simp add: lbs_entries_def)
next
  case (Suc n)
  let ?x = "procs s i"
  have v: "lbs_visit i (None, r, s) =
      (if p_state ?x = RUNNABLE \<and> p_tickets ?x > r then Some (Some (), Some i, r, s\<lparr>hw := acq (Lk_proc i) (hw s)\<rparr>)
       else Some (None, None, if p_state ?x = RUNNABLE then r - p_tickets ?x else r, s))"
    using assms(1) Suc.prems by (auto simp: lbs_visit_def kstep)
  have e: "lbs_entries (procs s) i (i + Suc n) =
      (if p_state ?x = RUNNABLE then [(i, p_tickets ?x)] else []) @ lbs_entries (procs s) (Suc i) (Suc i + n)"
    by (subst lbs_entries_step) simp_all
  show ?case
  proof (cases "p_state ?x = RUNNABLE \<and> p_tickets ?x > r")
    case True
    then show ?thesis using v e by simp
  next
    case False
    let ?r = "if p_state ?x = RUNNABLE then r - p_tickets ?x else r"
    have "draw (lbs_entries (procs s) i (i + Suc n)) r = draw (lbs_entries (procs s) (Suc i) (Suc i + n)) ?r"
      using False e by auto
    moreover have "search_n i (Suc n) lbs_visit (None, r, s) = search_n (Suc i) n lbs_visit (None, ?r, s)"
      using v by (simp add: False)
    ultimately show ?thesis using Suc.IH [of "Suc i" ?r] Suc.prems by simp
  qed
qed

lemma sint_small: "unat (w :: u32) = k \<Longrightarrow> k < 2 ^ 31 \<Longrightarrow> sint w = int k"
  by (simp add: sint_uint uint_nat signed_take_bit_int_eq_self)

lemma rg_range:
  assumes "0 < n" "n < 2 ^ 31"
  shows "0 \<le> rg 0 n s" "rg 0 n s < n"
proof -
  obtain x :: u64 where x: "rg 0 n s = sint (ucast (x mod word_of_int n) :: u32)"
    by (simp add: rg_def Let_def)
  have n: "unat (word_of_int n :: u64) = nat n" using assms by (intro unat_word_of_int) auto
  have lt: "unat (x mod word_of_int n) < nat n" using n assms by (simp add: unat_mod)
  then have "unat (ucast (x mod word_of_int n) :: u32) = unat (x mod word_of_int n)"
    using assms(2) by (simp add: unsigned_ucast_eq take_bit_nat_eq_self)
  then have si: "sint (ucast (x mod word_of_int n) :: u32) = int (unat (x mod word_of_int n))"
    by (rule sint_small) (use lt assms(2) in simp)
  have "int (unat (x mod word_of_int n)) < n" using lt by (simp only: zless_nat_eq_int_zless)
  then show "0 \<le> rg 0 n s" "rg 0 n s < n" unfolding x si by simp_all
qed

lemma intr_on_s_simps [simp]:
  "procs (intr_on_s s) = procs s" "ticks (intr_on_s s) = ticks s" "hw (intr_on_s s) = intr_on (hw s)"
  by (simp_all add: intr_on_s_def)

lemma rg_cong: "ticks s = ticks s' \<Longrightarrow> rg l r s = rg l r s'"
  by (simp add: rg_def)

lemma sum_tickets_cong: "procs s = procs s' \<Longrightarrow> sum_tickets s = sum_tickets s'"
  by (simp add: sum_tickets_def cong: if_cong)

text \<open>The first lock a round takes brings intena in line with the interrupt bit.\<close>

definition ready :: "'z proc_state_scheme \<Rightarrow> 'z proc_state_scheme" where
  "ready s = s\<lparr>hw := settle (intr_on (hw s))\<rparr>"

lemma ready_simps [simp]:
  "procs (ready s) = procs s" "ticks (ready s) = ticks s" "hw (ready s) = settle (intr_on (hw s))"
  by (simp_all add: ready_def)

lemma noff_intr_on [simp]: "noff (mycpu (intr_on h)) = noff (mycpu h)"
  by (simp add: hart_defs)

lemma lock_intr_on: "sched_hart (hw s) \<Longrightarrow> lock l (intr_on_s s) = lock l (ready s)"
  using lock_settle [of "intr_on_s s" l] by (simp add: ready_def intr_on_s_def)

lemma lbs_round_eq:
  assumes "sched_hart (hw s)"
  shows "lbs_round sw s = (case draw (lbs_entries (procs s) 0 NPROC) (rg 0 (sum_tickets s) s) of
      None \<Rightarrow> Some (ready s)
    | Some w \<Rightarrow> Option.bind (dispatch sw w ((ready s)\<lparr>hw := acq (Lk_proc w) (hw (ready s))\<rparr>)) (unlock (Lk_proc w)))"
proof -
  let ?r = "rg 0 (sum_tickets s) s"
  have c: "rg 0 (sum_tickets (intr_on_s s)) (intr_on_s s) = ?r"
    using rg_cong [of "intr_on_s s" s] sum_tickets_cong [of "intr_on_s s" s] by simp
  have "lbs_visit 0 (None, ?r, intr_on_s s) = lbs_visit 0 (None, ?r, ready s)"
    using assms by (simp add: lbs_visit_def lock_intr_on)
  then have start: "search_n 0 NPROC lbs_visit (None, ?r, intr_on_s s) = search_n 0 NPROC lbs_visit (None, ?r, ready s)"
    by (intro search_n_start) (simp_all add: NPROC_def)
  have sh: "sched_hart (hw (ready s))" using sched_hart_intr_on [OF assms] by simp
  obtain r' where "search_n 0 NPROC lbs_visit (None, ?r, ready s) = Some (case draw (lbs_entries (procs s) 0 NPROC) ?r of
      None \<Rightarrow> (None, None, r', ready s)
    | Some w \<Rightarrow> (Some (), Some w, r', (ready s)\<lparr>hw := acq (Lk_proc w) (hw (ready s))\<rparr>))"
    using lbs_search [OF sh, of 0 NPROC ?r] by auto
  then show ?thesis unfolding lbs_round_def Let_def c start
    by (auto split: option.split)
qed

section \<open>The queues\<close>

text \<open>What the two scans of a round compute.\<close>

definition lowest :: "(nat \<Rightarrow> proc) \<Rightarrow> int" where
  "lowest ps = fold (\<lambda>p qm. if p_state (ps p) = RUNNABLE \<and> p_queue (ps p) < qm then p_queue (ps p) else qm) [0..<NPROC] 4"

definition pick :: "int \<Rightarrow> (nat \<Rightarrow> proc) \<Rightarrow> nat option \<times> int" where
  "pick qm ps = fold (\<lambda>p (prngd, refm).
     if p_state (ps p) = RUNNABLE \<and> p_queue (ps p) = qm \<and> p_qnumber (ps p) < refm
     then (Some p, p_qnumber (ps p)) else (prngd, refm)) [0..<NPROC] (None, refmin1)"

lemma mlfq_lowest_eq: "sched_hart (hw s) \<Longrightarrow> mlfq_lowest s = Some (lowest (procs s), s)"
  unfolding mlfq_lowest_def lowest_def
  by (subst for_n_acc [where g = "\<lambda>p qm. if p_state (procs s p) = RUNNABLE \<and> p_queue (procs s p) < qm
      then p_queue (procs s p) else qm"]) (auto simp: kstep)

lemma mlfq_pick_eq: "sched_hart (hw s) \<Longrightarrow> mlfq_pick qm s = Some (pick qm (procs s), s)"
  unfolding mlfq_pick_def pick_def
  by (subst for_n_acc [where g = "\<lambda>p (prngd, refm).
     if p_state (procs s p) = RUNNABLE \<and> p_queue (procs s p) = qm \<and> p_qnumber (procs s p) < refm
     then (Some p, p_qnumber (procs s p)) else (prngd, refm)"]) (auto simp: kstep)

lemma lowest_upto:
  fixes ps n
  defines "q \<equiv> fold (\<lambda>p qm. if p_state (ps p) = RUNNABLE \<and> p_queue (ps p) < qm then p_queue (ps p) else qm) [0..<n] (4 :: int)"
  shows "q \<le> 4" "\<And>i. i < n \<Longrightarrow> p_state (ps i) = RUNNABLE \<Longrightarrow> q \<le> p_queue (ps i)"
    "q = 4 \<or> (\<exists>i<n. p_state (ps i) = RUNNABLE \<and> p_queue (ps i) = q)"
  unfolding q_def by (induction n) (auto simp: less_Suc_eq, force+)

lemma lowest_le: "lowest ps \<le> 4" "i < NPROC \<Longrightarrow> p_state (ps i) = RUNNABLE \<Longrightarrow> lowest ps \<le> p_queue (ps i)"
  and lowest_ex: "lowest ps = 4 \<or> (\<exists>i<NPROC. p_state (ps i) = RUNNABLE \<and> p_queue (ps i) = lowest ps)"
  using lowest_upto [where ps = ps and n = NPROC] by (simp_all add: lowest_def)

text \<open>The candidates of a queue, and that the pick is the one with the smallest number, the first
  of them in the table.\<close>

definition candidate :: "int \<Rightarrow> (nat \<Rightarrow> proc) \<Rightarrow> nat \<Rightarrow> bool" where
  "candidate qm ps i \<longleftrightarrow> p_state (ps i) = RUNNABLE \<and> p_queue (ps i) = qm \<and> p_qnumber (ps i) < refmin1"

definition best :: "int \<Rightarrow> (nat \<Rightarrow> proc) \<Rightarrow> nat \<Rightarrow> nat option \<times> int \<Rightarrow> bool" where
  "best qm ps n r \<longleftrightarrow> (case r of
     (None, k) \<Rightarrow> k = refmin1 \<and> (\<forall>i<n. \<not> candidate qm ps i)
   | (Some p, k) \<Rightarrow> p < n \<and> candidate qm ps p \<and> k = p_qnumber (ps p) \<and>
       (\<forall>i<n. candidate qm ps i \<longrightarrow> k \<le> p_qnumber (ps i)) \<and>
       (\<forall>i<p. candidate qm ps i \<longrightarrow> k < p_qnumber (ps i)))"

lemma pick_best: "best qm ps NPROC (pick qm ps)"
proof -
  have "best qm ps n (fold (\<lambda>p (prngd, refm).
     if p_state (ps p) = RUNNABLE \<and> p_queue (ps p) = qm \<and> p_qnumber (ps p) < refm
     then (Some p, p_qnumber (ps p)) else (prngd, refm)) [0..<n] (None, refmin1))" for n
  proof (induction n)
    case 0
    then show ?case by (simp add: best_def)
  next
    case (Suc n)
    then show ?case
      by (auto simp: best_def candidate_def less_Suc_eq split: prod.splits option.splits if_splits)
  qed
  then show ?thesis by (simp add: pick_def)
qed

definition queues_ok :: "(nat \<Rightarrow> proc) \<Rightarrow> bool" where
  "queues_ok ps \<longleftrightarrow> (\<forall>i<NPROC. 0 \<le> p_queue (ps i) \<and> p_queue (ps i) \<le> 3)"

lemma log_if_simps [simp]:
  "procs (log_if p s) = procs s" "hw (log_if p s) = hw s" "npnq (log_if p s) = npnq s" "roqd (log_if p s) = roqd s"
  by (simp_all add: log_if_def log_process_queue_def)

definition promoted :: "int \<Rightarrow> proc \<Rightarrow> proc" where
  "promoted n x = x\<lparr>p_queue := 0, p_pqtct := 0, p_wwpqtct := 0, p_qnumber := n\<rparr>"

lemma promote_ok:
  assumes "0 \<le> p_queue (procs s q)" "p_queue (procs s q) \<le> 3"
  shows "\<exists>s'. promote q s = Some s' \<and> hw s' = hw s \<and> procs s' = (procs s)(q := promoted (roqd s 0) (procs s q))"
  using assms by (simp add: promote_def add_npnq_def in4_def take_number_def promoted_def Let_def)

lemma mlfq_wait_ok:
  assumes "0 \<le> p_queue (procs s q)" "p_queue (procs s q) \<le> 3"
  shows "\<exists>s' n. mlfq_wait q s = Some s' \<and> hw s' = hw s \<and> procs s' = (procs s)(q :=
    if p_queue (procs s q) \<noteq> 0 \<and> p_wwpqtct (procs s q) + 1 \<ge> 48 then promoted n (procs s q)
    else (procs s q)\<lparr>p_wwpqtct := p_wwpqtct (procs s q) + 1\<rparr>)"
proof -
  let ?s = "upd_proc q (\<lambda>x. x\<lparr>p_wwpqtct := p_wwpqtct x + 1\<rparr>) s"
  obtain s' where s': "promote q ?s = Some s'" "hw s' = hw ?s"
      "procs s' = (procs ?s)(q := promoted (roqd ?s 0) (procs ?s q))"
    using promote_ok [of ?s q] assms by auto
  show ?thesis
  proof (cases "p_queue (procs s q) \<noteq> 0 \<and> p_wwpqtct (procs s q) + 1 \<ge> 48")
    case True
    then show ?thesis using s' by (intro exI [of _ s'] exI [of _ "roqd s 0"]) (simp add: mlfq_wait_def Let_def promoted_def)
  next
    case False
    then show ?thesis by (intro exI [of _ ?s]) (auto simp: mlfq_wait_def Let_def)
  qed
qed

definition keeps_queues :: "('z proc_state_scheme \<Rightarrow> 'z proc_state_scheme option) \<Rightarrow> bool" where
  "keeps_queues sw \<longleftrightarrow> (\<forall>s s' p. sw s = Some s' \<longrightarrow> cproc (mycpu (hw s)) = Some p \<longrightarrow> queues_ok (procs s) \<longrightarrow>
     queues_ok (procs s') \<and> p_queue (procs s' p) = p_queue (procs s p))"

text \<open>A process's dispatch, seen from the scheduler loop that holds its lock.\<close>

lemma dispatch_queues:
  assumes "switches_back sw" "keeps_queues sw" "hw s = acq (Lk_proc p) h" "sched_hart h" "queues_ok (procs s)"
  shows "\<exists>s' h'. dispatch sw p s = Some s' \<and> hw s' = acq (Lk_proc p) h' \<and> sched_hart h' \<and>
    queues_ok (procs s') \<and> p_queue (procs s' p) = p_queue (procs s p)"
proof -
  let ?s = "set_cproc (Some p) (upd_proc p (\<lambda>x. x\<lparr>p_state := RUNNING\<rparr>) s)"
  obtain s1 s' b where d: "sw ?s = Some s1" "dispatch sw p s = Some s'" "s' = set_cproc None s1"
      "hw s' = acq (Lk_proc p) (resume b h)"
    using dispatch_ok [OF assms(1,3,4)] .
  have "queues_ok (procs ?s)" using assms(5) by (simp add: queues_ok_def)
  moreover have "cproc (mycpu (hw ?s)) = Some p" by simp
  ultimately have "queues_ok (procs s1) \<and> p_queue (procs s1 p) = p_queue (procs ?s p)"
    using assms(2) d(1) unfolding keeps_queues_def by blast
  then show ?thesis using d assms(4) by (intro exI [of _ s'] exI [of _ "resume b h"]) simp
qed

lemma queues_ok_upd: "queues_ok ps \<Longrightarrow> 0 \<le> p_queue x \<and> p_queue x \<le> 3 \<Longrightarrow> queues_ok (ps(i := x))"
  by (simp add: queues_ok_def)

lemma queues_okD: "queues_ok ps \<Longrightarrow> i < NPROC \<Longrightarrow> 0 \<le> p_queue (ps i)" "queues_ok ps \<Longrightarrow> i < NPROC \<Longrightarrow> p_queue (ps i) \<le> 3"
  by (auto simp: queues_ok_def)

lemma mlfq_run_ok:
  assumes "switches_back sw" "keeps_queues sw" "hw s = acq (Lk_proc p) h" "sched_hart h" "queues_ok (procs s)"
    "p < NPROC" "p_queue (procs s p) \<le> 2"
  shows "\<exists>s' h'. mlfq_run sw p s = Some s' \<and> hw s' = acq (Lk_proc p) h' \<and> sched_hart h' \<and> queues_ok (procs s')"
proof -
  obtain s1 h' where d: "dispatch sw p s = Some s1" "hw s1 = acq (Lk_proc p) h'" "sched_hart h'"
      "queues_ok (procs s1)" "p_queue (procs s1 p) = p_queue (procs s p)"
    using dispatch_queues [OF assms(1-5)] by blast
  have q: "0 \<le> p_queue (procs s1 p)" "p_queue (procs s1 p) \<le> 2"
    using assms(7) d(4,5) queues_okD [OF d(4) assms(6)] by auto
  show ?thesis using d q
    by (auto simp: mlfq_run_def Let_def in4_def add_npnq_def take_number_def intro!: queues_ok_upd)
qed

lemma mlfq_others_ok:
  assumes sw: "prngd \<noteq> None \<Longrightarrow> switches_back sw \<and> keeps_queues sw"
    and s: "sched_hart (hw s)" "queues_ok (procs s)"
    and p: "\<And>p. prngd = Some p \<Longrightarrow> p_queue (procs s p) \<le> 2"
  shows "\<exists>s'. mlfq_others sw prngd s = Some s' \<and> sched_hart (hw s') \<and> queues_ok (procs s')"
proof -
  define I where "I j t \<longleftrightarrow> sched_hart (hw t) \<and> queues_ok (procs t) \<and>
    (\<forall>p. prngd = Some p \<longrightarrow> j \<le> p \<longrightarrow> p_queue (procs t p) \<le> 2)" for j :: nat and t :: "'a proc_state_scheme"
  have "\<exists>t'. (lock (Lk_proc j) t \<bind> (\<lambda>t. (if p_state (procs t j) = RUNNABLE \<and> Some j \<noteq> prngd then mlfq_wait j t
           else if p_state (procs t j) = RUNNABLE \<and> Some j = prngd then mlfq_run sw j t
           else Some t) \<bind> unlock (Lk_proc j))) = Some t' \<and> I (Suc j) t'" if j: "j < NPROC" and "I j t" for j t
  proof -
    from \<open>I j t\<close> have t: "sched_hart (hw t)" "queues_ok (procs t)"
      "\<And>p. prngd = Some p \<Longrightarrow> j \<le> p \<Longrightarrow> p_queue (procs t p) \<le> 2" by (auto simp: I_def)
    let ?t = "t\<lparr>hw := acq (Lk_proc j) (hw t)\<rparr>"
    note q = queues_okD [OF t(2) j]
    consider "p_state (procs t j) = RUNNABLE" "Some j \<noteq> prngd" | "p_state (procs t j) = RUNNABLE" "Some j = prngd"
      | "p_state (procs t j) \<noteq> RUNNABLE" by blast
    then show ?thesis
    proof cases
      case 1
      obtain t' n where "mlfq_wait j ?t = Some t'" "hw t' = hw ?t" "procs t' = (procs ?t)(j :=
          if p_queue (procs ?t j) \<noteq> 0 \<and> p_wwpqtct (procs ?t j) + 1 \<ge> 48 then promoted n (procs ?t j)
          else (procs ?t j)\<lparr>p_wwpqtct := p_wwpqtct (procs ?t j) + 1\<rparr>)"
        using mlfq_wait_ok [of ?t j] q by auto
      then show ?thesis using 1 t j q
        by (auto simp: kstep I_def promoted_def intro!: queues_ok_upd)
    next
      case 2
      obtain t' h' where "mlfq_run sw j ?t = Some t'" "hw t' = acq (Lk_proc j) h'" "sched_hart h'" "queues_ok (procs t')"
        using mlfq_run_ok [of sw ?t j "hw t"] sw t j 2(2) by auto
      then show ?thesis using 2 t(1) j by (auto simp: kstep I_def)
    next
      case 3
      then show ?thesis using t j by (auto simp: kstep I_def)
    qed
  qed
  then have "\<exists>s'. mlfq_others sw prngd s = Some s' \<and> I (0 + NPROC) s'"
    unfolding mlfq_others_def by (intro for_n_total) (use s p in \<open>auto simp: I_def\<close>)
  then show ?thesis by (auto simp: I_def)
qed

lemma mlfq_age_others_ok:
  assumes "hw s = acq (Lk_proc p) h" "sched_hart h" "queues_ok (procs s)"
  shows "\<exists>s'. mlfq_age_others p s = Some s' \<and> hw s' = hw s \<and> queues_ok (procs s')"
proof -
  define I where "I j t \<longleftrightarrow> hw t = hw s \<and> queues_ok (procs t)" for j :: nat and t :: "'a proc_state_scheme"
  have "\<exists>t'. (if p \<noteq> q \<and> p_state (procs t q) = RUNNABLE then
       lock (Lk_proc q) t \<bind> (\<lambda>t. let t = upd_proc q (\<lambda>x. x\<lparr>p_wwpqtct := p_wwpqtct x + 1\<rparr>) t in
         (if p_wwpqtct (procs t q) \<ge> 48 then promote q t else Some t) \<bind> unlock (Lk_proc q))
     else Some t) = Some t' \<and> I (Suc q) t'" if q: "q < NPROC" and I: "I q t" for q t
  proof (cases "p \<noteq> q \<and> p_state (procs t q) = RUNNABLE")
    case True
    let ?t = "upd_proc q (\<lambda>x. x\<lparr>p_wwpqtct := p_wwpqtct x + 1\<rparr>) (t\<lparr>hw := acq (Lk_proc q) (hw t)\<rparr>)"
    have hw: "hart_ok (hw t)" "lock_free (Lk_proc q) (hw t)" using I assms True q by (auto simp: I_def)
    have qo: "0 \<le> p_queue (procs t q)" "p_queue (procs t q) \<le> 3" using I q by (auto simp: I_def queues_ok_def)
    obtain t' where "promote q ?t = Some t'" "hw t' = hw ?t" "procs t' = (procs ?t)(q := promoted (roqd ?t 0) (procs ?t q))"
      using promote_ok [of ?t q] qo by auto
    then show ?thesis using True hw I qo
      by (auto simp: kstep I_def Let_def promoted_def intro!: queues_ok_upd)
  next
    case False
    then show ?thesis using I by (auto simp: I_def)
  qed
  then have "\<exists>s'. mlfq_age_others p s = Some s' \<and> I (0 + NPROC) s'"
    unfolding mlfq_age_others_def by (intro for_n_total) (use assms(3) in \<open>auto simp: I_def\<close>)
  then show ?thesis by (auto simp: I_def)
qed

lemma mlfq_last_queue_ok:
  assumes sw: "switches_back sw" "keeps_queues sw" and s: "sched_hart (hw s)" "queues_ok (procs s)"
  shows "\<exists>s'. mlfq_last_queue sw s = Some s' \<and> sched_hart (hw s') \<and> queues_ok (procs s')"
proof -
  define I where "I j t \<longleftrightarrow> sched_hart (hw t) \<and> queues_ok (procs t)" for j :: nat and t :: "'a proc_state_scheme"
  have "\<exists>t'. (lock (Lk_proc p) t \<bind> (\<lambda>t. (if p_state (procs t p) = RUNNABLE then
        dispatch sw p t \<bind> mlfq_age_others p else Some t) \<bind> unlock (Lk_proc p))) = Some t' \<and> I (Suc p) t'"
    if p: "p < NPROC" and I: "I p t" for p t
  proof (cases "p_state (procs t p) = RUNNABLE")
    case True
    let ?t = "t\<lparr>hw := acq (Lk_proc p) (hw t)\<rparr>"
    obtain t1 h1 where d: "dispatch sw p ?t = Some t1" "hw t1 = acq (Lk_proc p) h1" "sched_hart h1" "queues_ok (procs t1)"
      using dispatch_queues [OF sw, of ?t p "hw t"] I by (auto simp: I_def)
    obtain t2 where "mlfq_age_others p t1 = Some t2" "hw t2 = hw t1" "queues_ok (procs t2)"
      using mlfq_age_others_ok [OF d(2-4)] by blast
    then show ?thesis using True d I p by (auto simp: kstep I_def)
  next
    case False
    then show ?thesis using I p by (auto simp: kstep I_def)
  qed
  then have "\<exists>s'. mlfq_last_queue sw s = Some s' \<and> I (0 + NPROC) s'"
    unfolding mlfq_last_queue_def by (intro for_n_total) (use s in \<open>auto simp: I_def\<close>)
  then show ?thesis by (auto simp: I_def)
qed

lemma mlfq_round_eq:
  assumes "sched_hart (hw s)"
  defines "t \<equiv> (ready s)\<lparr>random_ct := random_ct s + 1\<rparr>"
  shows "mlfq_round sw s = (if lowest (procs s) = 3 then mlfq_last_queue sw t
    else mlfq_others sw (fst (pick (lowest (procs s)) (procs s))) t)" and "sched_hart (hw t)" "procs t = procs s"
proof -
  let ?u = "(intr_on_s s)\<lparr>random_ct := random_ct (intr_on_s s) + 1\<rparr>"
  have t: "sched_hart (hw t)" "procs t = procs s" using sched_hart_intr_on [OF assms(1)] by (simp_all add: t_def)
  have "?u\<lparr>hw := settle (hw ?u)\<rparr> = t" by (cases s) (simp add: t_def ready_def intr_on_s_def)
  then have "lock l ?u = lock l t" for l
    using lock_settle [of ?u l] assms(1) by (simp add: intr_on_s_def)
  then have "mlfq_lowest ?u = mlfq_lowest t"
    unfolding mlfq_lowest_def by (intro for_n_start) (simp_all add: NPROC_def)
  then show "mlfq_round sw s = (if lowest (procs s) = 3 then mlfq_last_queue sw t
    else mlfq_others sw (fst (pick (lowest (procs s)) (procs s))) t)"
    using t mlfq_lowest_eq [OF t(1)] mlfq_pick_eq [OF t(1)]
    by (simp add: mlfq_round_def split: prod.split)
  show "sched_hart (hw t)" "procs t = procs s" by fact+
qed

lemma mlfq_round_ok:
  assumes "switches_back sw" "keeps_queues sw" "sched_hart (hw s)" "queues_ok (procs s)"
  shows "\<exists>s'. mlfq_round sw s = Some s' \<and> sched_hart (hw s') \<and> queues_ok (procs s')"
proof -
  let ?t = "(ready s)\<lparr>random_ct := random_ct s + 1\<rparr>"
  note e = mlfq_round_eq [OF assms(3)]
  show ?thesis
  proof (cases "lowest (procs s) = 3")
    case True
    then show ?thesis using e mlfq_last_queue_ok [OF assms(1,2), of ?t] assms(4) by simp
  next
    case False
    have "p_queue (procs s p) \<le> 2" if "fst (pick (lowest (procs s)) (procs s)) = Some p" for p
    proof -
      have "candidate (lowest (procs s)) (procs s) p" "p < NPROC"
        using pick_best [of "lowest (procs s)" "procs s"] that
        by (auto simp: best_def split: prod.splits option.splits)
      then have "p_queue (procs s p) = lowest (procs s)" "p_queue (procs s p) \<le> 3"
        using assms(4) by (auto simp: candidate_def queues_ok_def)
      then show ?thesis using False by simp
    qed
    then show ?thesis using False e mlfq_others_ok [of _ sw ?t] assms by auto
  qed
qed

section \<open>Waiting in the queues\<close>

text \<open>A run in which process q is never dispatched and the processes that run leave its entry
  alone; every one of them comes back with the hart as sched() demands.\<close>

definition spares :: "nat \<Rightarrow> ('z proc_state_scheme \<Rightarrow> 'z proc_state_scheme option) \<Rightarrow> bool" where
  "spares q sw \<longleftrightarrow> (\<forall>s s'. sw s = Some s' \<longrightarrow> cproc (mycpu (hw s)) \<noteq> Some q \<and> procs s' q = procs s q \<and>
     (\<exists>b. hw s' = upd_cpu (\<lambda>c. c\<lparr>intena := b\<rparr>) (hw s)))"

lemma dispatch_spares:
  assumes "spares q sw" "dispatch sw p s = Some s'" "hw s = acq (Lk_proc p) h" "sched_hart h"
  shows "p \<noteq> q" "procs s' q = procs s q" "\<exists>h'. hw s' = acq (Lk_proc p) h' \<and> sched_hart h'"
proof -
  let ?s = "set_cproc (Some p) (upd_proc p (\<lambda>x. x\<lparr>p_state := RUNNING\<rparr>) s)"
  obtain s1 where s1: "sw ?s = Some s1" "s' = set_cproc None s1"
    using assms(2) by (auto simp: dispatch_def bind_Some_iff)
  from assms(1) s1(1) have k: "cproc (mycpu (hw ?s)) \<noteq> Some q" "procs s1 q = procs ?s q"
      "\<exists>b. hw s1 = upd_cpu (\<lambda>c. c\<lparr>intena := b\<rparr>) (hw ?s)"
    unfolding spares_def by blast+
  show "p \<noteq> q" using k(1) by simp
  then show "procs s' q = procs s q" using k(2) s1(2) by simp
  obtain b where "hw s1 = upd_cpu (\<lambda>c. c\<lparr>intena := b\<rparr>) (hw ?s)" using k(3) by blast
  then have "hw s' = acq (Lk_proc p) (resume b h)"
    using s1(2) assms(3,4) resume_acq [of h b p "Lk_proc p"] by simp
  then show "\<exists>h'. hw s' = acq (Lk_proc p) h' \<and> sched_hart h'" using assms(4) by auto
qed

lemma promote_Some:
  "promote q s = Some s' \<Longrightarrow> hw s' = hw s \<and> procs s' = (procs s)(q := promoted (roqd s 0) (procs s q))"
  by (auto simp: promote_def Let_def bind_Some_iff add_npnq_def take_number_def in4_def promoted_def split: if_splits)

definition waited :: "int \<Rightarrow> proc \<Rightarrow> proc" where
  "waited n x = (if p_queue x \<noteq> 0 \<and> p_wwpqtct x + 1 \<ge> 48 then promoted n x else x\<lparr>p_wwpqtct := p_wwpqtct x + 1\<rparr>)"

lemma mlfq_wait_Some:
  "mlfq_wait q s = Some s' \<Longrightarrow> hw s' = hw s \<and> procs s' = (procs s)(q := waited (roqd s 0) (procs s q))"
  by (auto simp: mlfq_wait_def Let_def waited_def promoted_def split: if_splits dest!: promote_Some)

lemma mlfq_run_spares:
  assumes "spares q sw" "mlfq_run sw p s = Some s'" "hw s = acq (Lk_proc p) h" "sched_hart h"
  shows "p \<noteq> q" "procs s' q = procs s q" "\<exists>h'. hw s' = acq (Lk_proc p) h' \<and> sched_hart h'"
proof -
  obtain s1 where s1: "dispatch sw p s = Some s1" using assms(2) by (auto simp: mlfq_run_def bind_Some_iff)
  note d = dispatch_spares [OF assms(1) s1 assms(3,4)]
  have "hw s' = hw s1 \<and> (\<forall>i. i \<noteq> p \<longrightarrow> procs s' i = procs s1 i)"
    using assms(2) s1
    by (auto simp: mlfq_run_def Let_def bind_Some_iff add_npnq_def take_number_def in4_def split: if_splits)
  then show "p \<noteq> q" "procs s' q = procs s q" "\<exists>h'. hw s' = acq (Lk_proc p) h' \<and> sched_hart h'"
    using d by auto
qed

text \<open>In a round of the upper queues, a runnable process that does not run waits one round more.\<close>

lemma mlfq_others_spares:
  assumes sp: "spares q sw" and s: "sched_hart (hw s)" "p_state (procs s q) = RUNNABLE" "q < NPROC"
    and r: "mlfq_others sw prngd s = Some s'"
  shows "sched_hart (hw s') \<and> (\<exists>n. procs s' q = waited n (procs s q))"
proof -
  define I where "I j t \<longleftrightarrow> sched_hart (hw t) \<and> (if j \<le> q then procs t q = procs s q
    else \<exists>n. procs t q = waited n (procs s q))" for j :: nat and t :: "'a proc_state_scheme"
  have "I (0 + NPROC) s'"
  proof (rule for_n_inv [OF _ r [unfolded mlfq_others_def]])
    fix j and t t' :: "'a proc_state_scheme"
    let ?t = "t\<lparr>hw := acq (Lk_proc j) (hw t)\<rparr>"
    assume j: "0 \<le> j" "j < 0 + NPROC" and I: "I j t"
      and st: "(lock (Lk_proc j) t \<bind> (\<lambda>t. (if p_state (procs t j) = RUNNABLE \<and> Some j \<noteq> prngd then mlfq_wait j t
           else if p_state (procs t j) = RUNNABLE \<and> Some j = prngd then mlfq_run sw j t
           else Some t) \<bind> unlock (Lk_proc j))) = Some t'"
    have sh: "sched_hart (hw t)" using I by (simp add: I_def)
    have lk: "lock (Lk_proc j) t = Some ?t" "unlock (Lk_proc j) ?t = Some t" using sh j by (simp_all add: kstep)
    obtain t1 where st1: "(if p_state (procs t j) = RUNNABLE \<and> Some j \<noteq> prngd then mlfq_wait j ?t
           else if p_state (procs t j) = RUNNABLE \<and> Some j = prngd then mlfq_run sw j ?t
           else Some ?t) = Some t1" "unlock (Lk_proc j) t1 = Some t'"
      using st unfolding lk(1) by (auto simp: bind_Some_iff cong: if_cong)
    consider "mlfq_wait j ?t = Some t1" | "mlfq_run sw j ?t = Some t1" | "p_state (procs t j) \<noteq> RUNNABLE" "t' = t"
      using st1 lk(2) by (metis option.inject)
    then show "I (Suc j) t'"
    proof cases
      case 1
      then have "t' = t1\<lparr>hw := hw t\<rparr>" "procs t1 = (procs t)(j := waited (roqd ?t 0) (procs t j))"
        using mlfq_wait_Some [OF 1] st1(2) sh j by (auto simp: kstep)
      then show ?thesis using I by (auto simp: I_def split: if_splits)
    next
      case 2
      note m = mlfq_run_spares [OF sp 2, of "hw t"]
      obtain h' where "hw t1 = acq (Lk_proc j) h'" "sched_hart h'" using m(3) sh by auto
      then have "t' = t1\<lparr>hw := h'\<rparr>" using st1(2) j by (simp add: kstep)
      then show ?thesis using I m(1,2) sh \<open>sched_hart h'\<close> by (auto simp: I_def split: if_splits)
    next
      case 3
      then show ?thesis using I s(2) by (auto simp: I_def le_Suc_eq not_less_eq_eq split: if_splits)
    qed
  qed (use s in \<open>simp add: I_def\<close>)
  then show ?thesis using s(3) by (simp add: I_def)
qed

lemma mlfq_age_others_Some:
  assumes "mlfq_age_others p s = Some s'" "hart_ok (hw s)" "\<And>i. i < NPROC \<Longrightarrow> i \<noteq> p \<Longrightarrow> lock_free (Lk_proc i) (hw s)"
  shows "hw s' = hw s \<and> (\<forall>i. p_state (procs s' i) = p_state (procs s i))"
proof -
  define I where "I j t \<longleftrightarrow> hw t = hw s \<and> (\<forall>i. p_state (procs t i) = p_state (procs s i))"
    for j :: nat and t :: "'a proc_state_scheme"
  have "I (0 + NPROC) s'"
  proof (rule for_n_inv [OF _ assms(1) [unfolded mlfq_age_others_def]])
    fix q and t t' :: "'a proc_state_scheme"
    assume "0 \<le> q" "q < 0 + NPROC" "I q t"
      "(if p \<noteq> q \<and> p_state (procs t q) = RUNNABLE then
       lock (Lk_proc q) t \<bind> (\<lambda>t. let t = upd_proc q (\<lambda>x. x\<lparr>p_wwpqtct := p_wwpqtct x + 1\<rparr>) t in
         (if p_wwpqtct (procs t q) \<ge> 48 then promote q t else Some t) \<bind> unlock (Lk_proc q))
     else Some t) = Some t'"
    then show "I (Suc q) t'" using assms(2,3)
      by (auto simp: I_def kstep Let_def bind_Some_iff promoted_def split: if_splits dest!: promote_Some)
  qed (simp add: I_def)
  then show ?thesis by (simp add: I_def)
qed

text \<open>A round of the last queue runs every runnable process.\<close>

lemma mlfq_last_queue_spares:
  assumes sp: "spares q sw" and s: "sched_hart (hw s)" "p_state (procs s q) = RUNNABLE" "q < NPROC"
  shows "mlfq_last_queue sw s = None"
proof (rule ccontr)
  assume "mlfq_last_queue sw s \<noteq> None"
  then obtain s' where r: "mlfq_last_queue sw s = Some s'" by blast
  define I where "I j t \<longleftrightarrow> j \<le> q \<and> sched_hart (hw t) \<and> p_state (procs t q) = RUNNABLE"
    for j :: nat and t :: "'a proc_state_scheme"
  have "I (0 + NPROC) s'"
  proof (rule for_n_inv [OF _ r [unfolded mlfq_last_queue_def]])
    fix j and t t' :: "'a proc_state_scheme"
    let ?t = "t\<lparr>hw := acq (Lk_proc j) (hw t)\<rparr>"
    assume j: "0 \<le> j" "j < 0 + NPROC" and I: "I j t" and st: "(lock (Lk_proc j) t \<bind>
      (\<lambda>t. (if p_state (procs t j) = RUNNABLE then dispatch sw j t \<bind> mlfq_age_others j else Some t) \<bind>
        unlock (Lk_proc j))) = Some t'"
    have sh: "sched_hart (hw t)" "p_state (procs t q) = RUNNABLE" using I by (auto simp: I_def)
    show "I (Suc j) t'"
    proof (cases "p_state (procs t j) = RUNNABLE")
      case False
      then show ?thesis using st sh j I by (auto simp: kstep I_def Suc_le_eq order_less_le)
    next
      case True
      then obtain t1 t2 where t1: "dispatch sw j ?t = Some t1" "mlfq_age_others j t1 = Some t2"
          "unlock (Lk_proc j) t2 = Some t'"
        using st sh j by (auto simp: kstep bind_Some_iff)
      note d = dispatch_spares [OF sp t1(1), of "hw t"]
      obtain h' where h': "hw t1 = acq (Lk_proc j) h'" "sched_hart h'" using d(3) sh by auto
      have "hw t2 = hw t1 \<and> (\<forall>i. p_state (procs t2 i) = p_state (procs t1 i))"
        by (rule mlfq_age_others_Some [OF t1(2)]) (use h' in auto)
      moreover have "j \<noteq> q" "procs t1 q = procs t q" using d sh by auto
      ultimately show ?thesis using t1(3) h' sh j I by (auto simp: kstep I_def)
    qed
  qed (use s in \<open>simp add: I_def\<close>)
  then show False using s(3) by (simp add: I_def)
qed

lemma mlfq_round_spares:
  assumes "spares q sw" "sched_hart (hw s)" "p_state (procs s q) = RUNNABLE" "q < NPROC" "mlfq_round sw s = Some s'"
  shows "sched_hart (hw s') \<and> (\<exists>n. procs s' q = waited n (procs s q))"
proof -
  let ?t = "(ready s)\<lparr>random_ct := random_ct s + 1\<rparr>"
  note e = mlfq_round_eq [OF assms(2)]
  have "lowest (procs s) \<noteq> 3"
    using assms(5) e mlfq_last_queue_spares [OF assms(1), of ?t] assms(3,4) by auto
  then show ?thesis
    using assms(3-5) e mlfq_others_spares [OF assms(1), of ?t] by simp
qed

lemma rr_round_eq:
  assumes "sched_hart (hw s)"
  shows "rr_round sw s = for_n 0 NPROC (\<lambda>p s. do {
       s \<leftarrow> lock (Lk_proc p) s;
       s \<leftarrow> (if p_state (procs s p) = RUNNABLE then dispatch sw p s else Some s);
       unlock (Lk_proc p) s }) (ready s)" and "sched_hart (hw (ready s))"
  unfolding rr_round_def Let_def
  by (intro for_n_start) (use assms in \<open>simp_all add: NPROC_def lock_intr_on sched_hart_intr_on\<close>)

lemma rr_round_spares:
  assumes sp: "spares q sw" and s: "sched_hart (hw s)" "p_state (procs s q) = RUNNABLE" "q < NPROC"
  shows "rr_round sw s = None"
proof (rule ccontr)
  assume "rr_round sw s \<noteq> None"
  then obtain s' where r: "rr_round sw s = Some s'" by blast
  define I where "I j t \<longleftrightarrow> j \<le> q \<and> sched_hart (hw t) \<and> p_state (procs t q) = RUNNABLE"
    for j :: nat and t :: "'a proc_state_scheme"
  have "I (0 + NPROC) s'"
  proof (rule for_n_inv [OF _ r [unfolded rr_round_eq(1) [OF s(1)]]])
    fix j and t t' :: "'a proc_state_scheme"
    let ?t = "t\<lparr>hw := acq (Lk_proc j) (hw t)\<rparr>"
    assume j: "0 \<le> j" "j < 0 + NPROC" and I: "I j t" and st: "(lock (Lk_proc j) t \<bind>
      (\<lambda>t. (if p_state (procs t j) = RUNNABLE then dispatch sw j t else Some t) \<bind> unlock (Lk_proc j))) = Some t'"
    have sh: "sched_hart (hw t)" "p_state (procs t q) = RUNNABLE" using I by (auto simp: I_def)
    show "I (Suc j) t'"
    proof (cases "p_state (procs t j) = RUNNABLE")
      case False
      then show ?thesis using st sh j I by (auto simp: kstep I_def Suc_le_eq order_less_le)
    next
      case True
      then obtain t1 where t1: "dispatch sw j ?t = Some t1" "unlock (Lk_proc j) t1 = Some t'"
        using st sh j by (auto simp: kstep bind_Some_iff)
      note d = dispatch_spares [OF sp t1(1), of "hw t"]
      obtain h' where "hw t1 = acq (Lk_proc j) h'" "sched_hart h'" using d(3) sh by auto
      then show ?thesis using t1(2) d(1,2) sh j I by (auto simp: kstep I_def)
    qed
  qed (use s rr_round_eq(2) [OF s(1)] in \<open>simp add: I_def\<close>)
  then show False using s(3) by (simp add: I_def)
qed

section \<open>Properties\<close>

text \<open>The hart of the scheduler in the small system of the process table.\<close>

definition sched0 :: proc_state where
  "sched0 = proc0\<lparr>hw := hart0\<rparr>"

lemma sched0_hart [simp]: "sched_hart (hw sched0)"
  by (simp add: sched0_def sched_hart_def plocks_free_def hart0_def lsys_init_def hart_ok_def
      lock_free_def hart_defs)





text \<open>C23: on one hart MLFQ never leaves its arrays. If every queue number is between 0 and 3, a
  round returns whatever the running processes do, as long as they switch back as sched() demands
  and leave queue numbers in range and their own unchanged; and all queue numbers are between
  0 and 3 afterwards.\<close>

theorem mlfq_queues_in_range:
  assumes "switches_back sw" "keeps_queues sw" "sched_hart (hw s)" "queues_ok (procs s)"
  shows "\<exists>s'. scheduler MLFQ sw n s = Some s' \<and> sched_hart (hw s') \<and> queues_ok (procs s')"
proof -
  have "sched_hart (hw (set_cproc None s))" using assms(3) unfolding sched_hart_def by simp
  then have start: "sched_hart (hw (set_cproc None s)) \<and> queues_ok (procs (set_cproc None s))"
    using assms(4) by simp
  have step: "\<exists>t'. scheduler_round MLFQ sw t = Some t' \<and> (sched_hart (hw t') \<and> queues_ok (procs t'))"
    if "sched_hart (hw t) \<and> queues_ok (procs t)" for t
    unfolding scheduler_round_def using mlfq_round_ok [OF assms(1,2), of t] that by simp
  show ?thesis unfolding scheduler_def
    by (rule for_n_total [where I = "\<lambda>_ t. sched_hart (hw t) \<and> queues_ok (procs t)"], erule step, rule start)
qed

text \<open>A process that yields at once.\<close>

definition sw_yield :: "'z proc_state_scheme \<Rightarrow> 'z proc_state_scheme option" where
  "sw_yield s = (case cproc (mycpu (hw s)) of
     None \<Rightarrow> Some s | Some p \<Rightarrow> Some (upd_proc p (\<lambda>x. x\<lparr>p_state := RUNNABLE\<rparr>) s))"

lemma upd_cpu_intena: "upd_cpu (\<lambda>c. c\<lparr>intena := intena (mycpu h)\<rparr>) h = h"
  by (simp add: hart_defs)

lemma sw_yield_back: "\<exists>s'. sw_yield s = Some s' \<and> hw s' = hw s"
  by (cases "cproc (mycpu (hw s))") (simp_all add: sw_yield_def)

lemma sw_yield_ok: "switches_back sw_yield" "keeps_queues sw_yield"
proof -
  show "switches_back sw_yield"
    unfolding switches_back_def
  proof
    fix s
    obtain s' where "sw_yield s = Some s'" "hw s' = hw s" using sw_yield_back by blast
    then show "\<exists>s' b. sw_yield s = Some s' \<and> hw s' = upd_cpu (\<lambda>c. c\<lparr>intena := b\<rparr>) (hw s)"
      using upd_cpu_intena [of "hw s"] by (intro exI [of _ s'] exI [of _ "intena (mycpu (hw s))"]) simp
  qed
  show "keeps_queues sw_yield" by (auto simp: keeps_queues_def sw_yield_def queues_ok_def)
qed

theorem mlfq_queues_in_range_witness:
  "\<exists>s'. scheduler MLFQ sw_yield 100 sched0 = Some s' \<and> queues_ok (procs s')"
proof -
  have "queues_ok (procs sched0)"
    by (auto simp: queues_ok_def sched0_def proc0_def table0_def proc_nil_def)
  then show ?thesis using mlfq_queues_in_range [OF sw_yield_ok sched0_hart, of 100] by blast
qed

text \<open>C7: no starvation. Under MLFQ, a process that stays runnable and is never run, while those that
  run leave its entry alone, reaches queue 0 within 48 rounds.\<close>

theorem mlfq_ages_to_queue_0:
  assumes "spares q sw" "q < NPROC" "sched_hart (hw (\<sigma> 0))" "p_state (procs (\<sigma> 0) q) = RUNNABLE"
    "0 \<le> p_wwpqtct (procs (\<sigma> 0) q)" "\<And>k. k < 48 \<Longrightarrow> mlfq_round sw (\<sigma> k) = Some (\<sigma> (Suc k))"
  shows "\<exists>k\<le>48. p_queue (procs (\<sigma> k) q) = 0"
proof (rule ccontr)
  assume n: "\<not> ?thesis"
  have "sched_hart (hw (\<sigma> k)) \<and> p_state (procs (\<sigma> k) q) = RUNNABLE \<and>
      int k \<le> p_wwpqtct (procs (\<sigma> k) q) \<and> (0 < k \<longrightarrow> p_wwpqtct (procs (\<sigma> k) q) < 48)" if "k \<le> 48" for k
    using that
  proof (induction k)
    case 0
    then show ?case using assms(3-5) by simp
  next
    case (Suc k)
    then have IH: "sched_hart (hw (\<sigma> k))" "p_state (procs (\<sigma> k) q) = RUNNABLE" "int k \<le> p_wwpqtct (procs (\<sigma> k) q)"
      and r: "mlfq_round sw (\<sigma> k) = Some (\<sigma> (Suc k))" using assms(6) [of k] by auto
    from mlfq_round_spares [OF assms(1) IH(1,2) assms(2) r] obtain m where
      m: "sched_hart (hw (\<sigma> (Suc k)))" "procs (\<sigma> (Suc k)) q = waited m (procs (\<sigma> k) q)" by blast
    have "p_queue (procs (\<sigma> (Suc k)) q) \<noteq> 0" "p_queue (procs (\<sigma> k) q) \<noteq> 0" using n Suc.prems by auto
    then show ?case using m IH by (auto simp: waited_def promoted_def split: if_splits)
  qed
  from this [of 48] show False by auto
qed

text \<open>One process alone, whose place number is past the largest that MLFQ looks at.\<close>

definition aging0 :: "nat \<Rightarrow> proc" where
  "aging0 k = proc_nil\<lparr>p_state := RUNNABLE, p_queue := 1, p_qnumber := refmin1, p_wwpqtct := int k\<rparr>"

definition aging :: "nat \<Rightarrow> proc_state" where
  "aging k = ((\<lambda>s. the (mlfq_round (\<lambda>_. None) s)) ^^ k) (sched0\<lparr>procs := (\<lambda>_. proc_nil)(2 := aging0 0)\<rparr>)"

lemma aging_others:
  assumes "mlfq_others sw None s = Some s'" "sched_hart (hw s)" "\<And>i. i \<noteq> 2 \<Longrightarrow> procs s i = proc_nil"
  shows "i \<noteq> 2 \<Longrightarrow> procs s' i = proc_nil"
proof -
  define I where "I j t \<longleftrightarrow> sched_hart (hw t) \<and> (\<forall>i. i \<noteq> 2 \<longrightarrow> procs t i = proc_nil)"
    for j :: nat and t :: "'a proc_state_scheme"
  have "I (0 + NPROC) s'"
  proof (rule for_n_inv [OF _ assms(1) [unfolded mlfq_others_def]])
    fix j and t t' :: "'a proc_state_scheme"
    assume "0 \<le> j" "j < 0 + NPROC" "I j t" "(lock (Lk_proc j) t \<bind>
      (\<lambda>t. (if p_state (procs t j) = RUNNABLE \<and> Some j \<noteq> None then mlfq_wait j t
           else if p_state (procs t j) = RUNNABLE \<and> Some j = None then mlfq_run sw j t
           else Some t) \<bind> unlock (Lk_proc j))) = Some t'"
    then show "I (Suc j) t'"
      by (cases "j = 2") (auto simp: I_def kstep bind_Some_iff proc_nil_def split: if_splits dest!: mlfq_wait_Some)
  qed (use assms(2,3) in \<open>simp add: I_def\<close>)
  then show "i \<noteq> 2 \<Longrightarrow> procs s' i = proc_nil" by (simp add: I_def)
qed

lemma aging_round:
  assumes "procs s = (\<lambda>_. proc_nil)(2 := aging0 k)" "sched_hart (hw s)" "k < 48"
  shows "\<exists>s'. mlfq_round (\<lambda>_. None) s = Some s' \<and> sched_hart (hw s') \<and>
    (k < 47 \<longrightarrow> procs s' = (\<lambda>_. proc_nil)(2 := aging0 (Suc k)))"
proof -
  let ?t = "(ready s)\<lparr>random_ct := random_ct s + 1\<rparr>"
  have "lowest (procs s) = 1" "fst (pick 1 (procs s)) = None"
    by (simp_all add: assms(1) lowest_def pick_def aging0_def proc_nil_def NPROC_def upt_rec refmin1_def)
  then have e: "mlfq_round (\<lambda>_. None) s = mlfq_others (\<lambda>_. None) None ?t"
    using mlfq_round_eq(1) [OF assms(2)] by simp
  have t: "sched_hart (hw ?t)" "procs ?t = procs s" using mlfq_round_eq(2,3) [OF assms(2)] .
  have "queues_ok (procs ?t)" by (auto simp: t(2) assms(1) queues_ok_def aging0_def proc_nil_def)
  then obtain s' where s': "mlfq_others (\<lambda>_. None) None ?t = Some s'" "sched_hart (hw s')"
    using mlfq_others_ok [of None "\<lambda>_. None" ?t] t(1) by auto
  have "spares 2 (\<lambda>_. None)" by (simp add: spares_def)
  from mlfq_others_spares [OF this t(1) _ _ s'(1)] obtain n where "procs s' 2 = waited n (aging0 k)"
    by (auto simp: t(2) assms(1) aging0_def NPROC_def)
  then have "k < 47 \<Longrightarrow> procs s' 2 = aging0 (Suc k)" by (simp add: waited_def aging0_def)
  moreover have "i \<noteq> 2 \<Longrightarrow> procs s' i = proc_nil" for i
    using aging_others [OF s'(1) t(1)] t(2) assms(1) by auto
  ultimately show ?thesis using e s' by auto
qed

lemma aging_states: "k \<le> 47 \<Longrightarrow> procs (aging k) = (\<lambda>_. proc_nil)(2 := aging0 k) \<and> sched_hart (hw (aging k))"
proof (induction k)
  case 0
  then show ?case by (simp add: aging_def)
next
  case (Suc k)
  then have IH: "procs (aging k) = (\<lambda>_. proc_nil)(2 := aging0 k)" "sched_hart (hw (aging k))" "k < 47" by auto
  obtain s' where "mlfq_round (\<lambda>_. None) (aging k) = Some s'" "sched_hart (hw s')"
      "procs s' = (\<lambda>_. proc_nil)(2 := aging0 (Suc k))"
  proof -
    have "k < 48" using IH(3) by simp
    from aging_round [OF IH(1,2) this] IH(3) that show ?thesis by blast
  qed
  moreover from this have "aging (Suc k) = s'" by (simp add: aging_def)
  ultimately show ?case by simp
qed

theorem mlfq_ages_to_queue_0_witness: "\<exists>k\<le>48. p_queue (procs (aging k) 2) = 0"
proof (rule mlfq_ages_to_queue_0 [of 2 "\<lambda>_. None"])
  show "mlfq_round (\<lambda>_. None) (aging k) = Some (aging (Suc k))" if "k < 48" for k
  proof -
    have "procs (aging k) = (\<lambda>_. proc_nil)(2 := aging0 k)" "sched_hart (hw (aging k))"
      using aging_states [of k] that by auto
    from aging_round [OF this that] show ?thesis by (auto simp: aging_def)
  qed
  show "sched_hart (hw (aging 0))" "p_state (procs (aging 0) 2) = RUNNABLE" "0 \<le> p_wwpqtct (procs (aging 0) 2)"
    using aging_states [of 0] by (auto simp: aging0_def)
qed (simp_all add: spares_def NPROC_def)

text \<open>The run cut short when process q is dispatched.\<close>

definition cut :: "nat \<Rightarrow> ('z proc_state_scheme \<Rightarrow> 'z proc_state_scheme option) \<Rightarrow> 'z proc_state_scheme
    \<Rightarrow> 'z proc_state_scheme option" where
  "cut q sw s = (if cproc (mycpu (hw s)) = Some q then None else sw s)"

lemma rr_round_ok:
  assumes "switches_back sw" "sched_hart (hw s)"
  shows "\<exists>s'. rr_round sw s = Some s' \<and> sched_hart (hw s')"
  unfolding rr_round_eq(1) [OF assms(2)]
proof (rule for_n_total [where I = "\<lambda>_ t. sched_hart (hw t)"])
  fix j and t :: "'a proc_state_scheme"
  let ?t = "t\<lparr>hw := acq (Lk_proc j) (hw t)\<rparr>"
  assume j: "0 \<le> j" "j < 0 + NPROC" and t: "sched_hart (hw t)"
  have "hw ?t = acq (Lk_proc j) (hw t)" by simp
  from dispatch_ok [OF assms(1) this t] obtain t2 b where
    d: "dispatch sw j ?t = Some t2" "hw t2 = acq (Lk_proc j) (resume b (hw t))" by metis
  then show "\<exists>t'. (lock (Lk_proc j) t \<bind> (\<lambda>t. (if p_state (procs t j) = RUNNABLE then dispatch sw j t
      else Some t) \<bind> unlock (Lk_proc j))) = Some t' \<and> sched_hart (hw t')"
    using j t by (auto simp: kstep)
qed (rule rr_round_eq(2) [OF assms(2)])

text \<open>C21: round robin runs everybody. A round of RR completes, and it does not complete without
  dispatching a process that is runnable at its start, provided the others leave that process's
  entry alone and every process switches back as sched() demands.\<close>

theorem rr_dispatches_every_runnable:
  assumes "switches_back sw" "\<And>t t'. sw t = Some t' \<Longrightarrow> cproc (mycpu (hw t)) \<noteq> Some q \<Longrightarrow> procs t' q = procs t q"
    and "sched_hart (hw s)" "p_state (procs s q) = RUNNABLE" "q < NPROC"
  shows "rr_round sw s \<noteq> None \<and> rr_round (cut q sw) s = None"
proof -
  have "spares q (cut q sw)"
    unfolding spares_def
  proof (intro allI impI)
    fix t t' assume "cut q sw t = Some t'"
    then have c: "cproc (mycpu (hw t)) \<noteq> Some q" "sw t = Some t'" by (auto simp: cut_def split: if_splits)
    obtain t1 b where "sw t = Some t1" "hw t1 = upd_cpu (\<lambda>c. c\<lparr>intena := b\<rparr>) (hw t)"
      using assms(1) unfolding switches_back_def by blast
    then show "cproc (mycpu (hw t)) \<noteq> Some q \<and> procs t' q = procs t q \<and>
        (\<exists>b. hw t' = upd_cpu (\<lambda>c. c\<lparr>intena := b\<rparr>) (hw t))"
      using c assms(2) by auto
  qed
  then show ?thesis using rr_round_spares assms(3-5) rr_round_ok [OF assms(1,3)] by blast
qed

theorem rr_dispatches_every_runnable_witness:
  "rr_round sw_yield sched0 \<noteq> None \<and> rr_round (cut 2 sw_yield) sched0 = None"
proof (rule rr_dispatches_every_runnable [OF sw_yield_ok(1)])
  fix t t' :: proc_state
  assume "sw_yield t = Some t'" "cproc (mycpu (hw t)) \<noteq> Some 2"
  then show "procs t' 2 = procs t 2" by (auto simp: sw_yield_def split: option.splits)
next
  show "p_state (procs sched0 2) = RUNNABLE" by (simp add: sched0_def proc0_def table0_def)
qed (simp_all add: NPROC_def)

end
