(* ===== verification/Boot.thy ===== *)
theory Boot
  imports Trap Sched
begin

unbundle bit_operations_syntax

text \<open>
  Booting: start and timerinit of kernel/start.c, virtio_disk_init of kernel/virtio_disk.c and main of kernel/main.c.

  The machine-mode registers are kept per hart. The registers of the disk are its own: \<open>dev\<close> is what a register
  reads as after the writes so far, which \<open>vregs\<close> lists with the newest first. The addresses of main, timervec and
  the scratch areas come from the linker.
\<close>

record mcsr =
  mstatus :: u64
  mepc :: u64
  medeleg :: u64
  mideleg :: u64
  mie :: u64
  mtvec :: u64
  mscratch :: u64
  sie_reg :: u64
  pmpaddr0 :: u64
  pmpcfg0 :: u64

record boot_state = trap_state +
  mcsrs :: "nat \<Rightarrow> mcsr"
  clint :: "u64 \<Rightarrow> u64"
  timer_scratch :: "nat \<Rightarrow> nat \<Rightarrow> u64"
  timer_scratch_pa :: u64
  main_pc :: u64
  timervec_pc :: u64
  vregs :: "(nat \<times> u32) list"
  vq_desc :: u64
  vq_avail :: u64
  vq_used :: u64
  started :: bool

section \<open>Machine mode\<close>

definition MSTATUS_MPP_MASK :: u64 where "MSTATUS_MPP_MASK = push_bit 11 3"
definition MSTATUS_MPP_S :: u64 where "MSTATUS_MPP_S = push_bit 11 1"
definition MSTATUS_MIE :: u64 where "MSTATUS_MIE = push_bit 3 1"
definition SIE_SEIE :: u64 where "SIE_SEIE = push_bit 9 1"
definition SIE_STIE :: u64 where "SIE_STIE = push_bit 5 1"
definition SIE_SSIE :: u64 where "SIE_SSIE = push_bit 1 1"
definition MIE_MTIE :: u64 where "MIE_MTIE = push_bit 7 1"
definition CLINT :: u64 where "CLINT = 0x2000000"
definition CLINT_MTIME :: u64 where "CLINT_MTIME = CLINT + 0xBFF8"

definition CLINT_MTIMECMP :: "nat \<Rightarrow> u64" where
  "CLINT_MTIMECMP hartid = CLINT + 0x4000 + 8 * of_nat hartid"

definition upd_mcsr :: "nat \<Rightarrow> (mcsr \<Rightarrow> mcsr) \<Rightarrow> 'z boot_state_scheme \<Rightarrow> 'z boot_state_scheme" where
  "upd_mcsr i f s = s\<lparr>mcsrs := (mcsrs s)(i := f (mcsrs s i))\<rparr>"

definition timerinit :: "nat \<Rightarrow> 'z boot_state_scheme \<Rightarrow> 'z boot_state_scheme" where
  "timerinit i s =
    (let interval = 1000000;
         s = s\<lparr>clint := (clint s)(CLINT_MTIMECMP i := clint s CLINT_MTIME + interval)\<rparr>;
         s = s\<lparr>timer_scratch := (timer_scratch s)(i := (timer_scratch s i)(3 := CLINT_MTIMECMP i, 4 := interval))\<rparr>;
         s = upd_mcsr i (\<lambda>c. c\<lparr>mscratch := timer_scratch_pa s + of_nat (40 * i)\<rparr>) s;
         s = upd_mcsr i (\<lambda>c. c\<lparr>mtvec := timervec_pc s\<rparr>) s;
         s = upd_mcsr i (\<lambda>c. c\<lparr>mstatus := mstatus c OR MSTATUS_MIE\<rparr>) s
     in upd_mcsr i (\<lambda>c. c\<lparr>mie := mie c OR MIE_MTIE\<rparr>) s)"

text \<open>On the hart \<open>i\<close>; mret then enters main in supervisor mode.\<close>

definition start :: "nat \<Rightarrow> 'z boot_state_scheme \<Rightarrow> 'z boot_state_scheme" where
  "start i s =
    (let s = upd_mcsr i (\<lambda>c. c\<lparr>mstatus := mstatus c AND NOT MSTATUS_MPP_MASK OR MSTATUS_MPP_S\<rparr>) s;
         s = upd_mcsr i (\<lambda>c. c\<lparr>mepc := main_pc s\<rparr>) s;
         s = s\<lparr>satp := (satp s)(i := 0)\<rparr>;
         s = upd_mcsr i (\<lambda>c. c\<lparr>medeleg := 0xffff, mideleg := 0xffff\<rparr>) s;
         s = upd_mcsr i (\<lambda>c. c\<lparr>sie_reg := sie_reg c OR SIE_SEIE OR SIE_STIE OR SIE_SSIE\<rparr>) s;
         s = upd_mcsr i (\<lambda>c. c\<lparr>pmpaddr0 := 0x3fffffffffffff, pmpcfg0 := 0xf\<rparr>) s;
         s = timerinit i s
     in s\<lparr>hw := (hw s)\<lparr>tp := i\<rparr>\<rparr>)"

section \<open>The disk\<close>

definition VIRTIO_MMIO_MAGIC_VALUE :: nat where "VIRTIO_MMIO_MAGIC_VALUE = 0x000"
definition VIRTIO_MMIO_VERSION :: nat where "VIRTIO_MMIO_VERSION = 0x004"
definition VIRTIO_MMIO_DEVICE_ID :: nat where "VIRTIO_MMIO_DEVICE_ID = 0x008"
definition VIRTIO_MMIO_VENDOR_ID :: nat where "VIRTIO_MMIO_VENDOR_ID = 0x00c"
definition VIRTIO_MMIO_DEVICE_FEATURES :: nat where "VIRTIO_MMIO_DEVICE_FEATURES = 0x010"
definition VIRTIO_MMIO_DRIVER_FEATURES :: nat where "VIRTIO_MMIO_DRIVER_FEATURES = 0x020"
definition VIRTIO_MMIO_QUEUE_SEL :: nat where "VIRTIO_MMIO_QUEUE_SEL = 0x030"
definition VIRTIO_MMIO_QUEUE_NUM_MAX :: nat where "VIRTIO_MMIO_QUEUE_NUM_MAX = 0x034"
definition VIRTIO_MMIO_QUEUE_NUM :: nat where "VIRTIO_MMIO_QUEUE_NUM = 0x038"
definition VIRTIO_MMIO_QUEUE_READY :: nat where "VIRTIO_MMIO_QUEUE_READY = 0x044"
definition VIRTIO_MMIO_STATUS :: nat where "VIRTIO_MMIO_STATUS = 0x070"
definition VIRTIO_MMIO_QUEUE_DESC_LOW :: nat where "VIRTIO_MMIO_QUEUE_DESC_LOW = 0x080"
definition VIRTIO_MMIO_QUEUE_DESC_HIGH :: nat where "VIRTIO_MMIO_QUEUE_DESC_HIGH = 0x084"
definition VIRTIO_MMIO_DRIVER_DESC_LOW :: nat where "VIRTIO_MMIO_DRIVER_DESC_LOW = 0x090"
definition VIRTIO_MMIO_DRIVER_DESC_HIGH :: nat where "VIRTIO_MMIO_DRIVER_DESC_HIGH = 0x094"
definition VIRTIO_MMIO_DEVICE_DESC_LOW :: nat where "VIRTIO_MMIO_DEVICE_DESC_LOW = 0x0a0"
definition VIRTIO_MMIO_DEVICE_DESC_HIGH :: nat where "VIRTIO_MMIO_DEVICE_DESC_HIGH = 0x0a4"
definition VIRTIO_CONFIG_S_ACKNOWLEDGE :: u32 where "VIRTIO_CONFIG_S_ACKNOWLEDGE = 1"
definition VIRTIO_CONFIG_S_DRIVER :: u32 where "VIRTIO_CONFIG_S_DRIVER = 2"
definition VIRTIO_CONFIG_S_DRIVER_OK :: u32 where "VIRTIO_CONFIG_S_DRIVER_OK = 4"
definition VIRTIO_CONFIG_S_FEATURES_OK :: u32 where "VIRTIO_CONFIG_S_FEATURES_OK = 8"

text \<open>VIRTIO_BLK_F_RO, SCSI, CONFIG_WCE and MQ, VIRTIO_F_ANY_LAYOUT, VIRTIO_RING_F_EVENT_IDX and INDIRECT_DESC.\<close>

definition features_off :: "nat list" where
  "features_off = [5, 7, 11, 12, 27, 29, 28]"

definition w_vreg :: "nat \<Rightarrow> u32 \<Rightarrow> 'z boot_state_scheme \<Rightarrow> 'z boot_state_scheme" where
  "w_vreg r v s = s\<lparr>vregs := (r, v) # vregs s\<rparr>"

text \<open>The queue memory the kernel zeroes is, in the model of the driver, its descriptor table and rings.\<close>

definition zero_queue :: "vdisk \<Rightarrow> vdisk" where
  "zero_queue v = v\<lparr>v_desc := (\<lambda>_. desc0), v_avail_ring := (\<lambda>_. 0), v_avail_idx := 0, v_used_ring := (\<lambda>_. 0), v_used_dev := 0\<rparr>"

definition virtio_queue_init :: "u32 \<Rightarrow> 'z boot_state_scheme \<Rightarrow> 'z boot_state_scheme option" where
  "virtio_queue_init status s = do {
     (d, s) \<leftarrow> kalloc s;
     (a, s) \<leftarrow> kalloc s;
     (u, s) \<leftarrow> kalloc s;
     if d = 0 \<or> a = 0 \<or> u = 0 then None
     else do {
       let s = s\<lparr>vq_desc := d, vq_avail := a, vq_used := u\<rparr>;
       let s = s\<lparr>ram := memset u 0 4096 (memset a 0 4096 (memset d 0 4096 (ram s)))\<rparr>;
       let s = upd_vd zero_queue s;
       let s = w_vreg VIRTIO_MMIO_QUEUE_NUM (of_nat NUM) s;
       let s = w_vreg VIRTIO_MMIO_QUEUE_DESC_LOW (ucast d) s;
       let s = w_vreg VIRTIO_MMIO_QUEUE_DESC_HIGH (ucast (drop_bit 32 d)) s;
       let s = w_vreg VIRTIO_MMIO_DRIVER_DESC_LOW (ucast a) s;
       let s = w_vreg VIRTIO_MMIO_DRIVER_DESC_HIGH (ucast (drop_bit 32 a)) s;
       let s = w_vreg VIRTIO_MMIO_DEVICE_DESC_LOW (ucast u) s;
       let s = w_vreg VIRTIO_MMIO_DEVICE_DESC_HIGH (ucast (drop_bit 32 u)) s;
       let s = w_vreg VIRTIO_MMIO_QUEUE_READY 1 s;
       let s = upd_vd (\<lambda>v. v\<lparr>v_free := (\<lambda>i. i < NUM \<or> v_free v i)\<rparr>) s;
       Some (w_vreg VIRTIO_MMIO_STATUS (status OR VIRTIO_CONFIG_S_DRIVER_OK) s) } }"

definition virtio_disk_init :: "((nat \<times> u32) list \<Rightarrow> nat \<Rightarrow> u32) \<Rightarrow> 'z boot_state_scheme \<Rightarrow> 'z boot_state_scheme option" where
  "virtio_disk_init dev s = (let s = s\<lparr>hw := initlock Lk_vdisk ''virtio_disk'' (hw s)\<rparr> in
    if dev (vregs s) VIRTIO_MMIO_MAGIC_VALUE \<noteq> 0x74726976 \<or> dev (vregs s) VIRTIO_MMIO_VERSION \<noteq> 2
      \<or> dev (vregs s) VIRTIO_MMIO_DEVICE_ID \<noteq> 2 \<or> dev (vregs s) VIRTIO_MMIO_VENDOR_ID \<noteq> 0x554d4551 then None
    else
      let s = w_vreg VIRTIO_MMIO_STATUS 0 s;
          status = VIRTIO_CONFIG_S_ACKNOWLEDGE;
          s = w_vreg VIRTIO_MMIO_STATUS status s;
          status = status OR VIRTIO_CONFIG_S_DRIVER;
          s = w_vreg VIRTIO_MMIO_STATUS status s;
          features = fold (\<lambda>i f. f AND NOT (push_bit i 1)) features_off (dev (vregs s) VIRTIO_MMIO_DEVICE_FEATURES);
          s = w_vreg VIRTIO_MMIO_DRIVER_FEATURES features s;
          s = w_vreg VIRTIO_MMIO_STATUS (status OR VIRTIO_CONFIG_S_FEATURES_OK) s;
          status = dev (vregs s) VIRTIO_MMIO_STATUS
      in if status AND VIRTIO_CONFIG_S_FEATURES_OK = 0 then None
      else
        let s = w_vreg VIRTIO_MMIO_QUEUE_SEL 0 s in
        if dev (vregs s) VIRTIO_MMIO_QUEUE_READY \<noteq> 0 then None
        else if dev (vregs s) VIRTIO_MMIO_QUEUE_NUM_MAX < of_nat NUM then None
        else virtio_queue_init status s)"

section \<open>main\<close>

definition main_boot :: "((nat \<times> u32) list \<Rightarrow> nat \<Rightarrow> u32) \<Rightarrow> ('z boot_state_scheme \<Rightarrow> 'z boot_state_scheme option)
    \<Rightarrow> 'z boot_state_scheme \<Rightarrow> 'z boot_state_scheme option" where
  "main_boot dev sw s = do {
     let s = printfinit (consoleinit s);
     s \<leftarrow> printf [CHR 0x0A] [] s;
     s \<leftarrow> printf (''xv6 kernel is booting'' @ [CHR 0x0A]) [] s;
     s \<leftarrow> printf [CHR 0x0A] [] s;
     s \<leftarrow> kinit s;
     s \<leftarrow> kvminit s;
     let s = procinit (kvminithart s);
     let s = trapinithart (trapinit s);
     let s = plicinithart (plicinit s);
     s \<leftarrow> binit s;
     s \<leftarrow> iinit s;
     s \<leftarrow> virtio_disk_init dev (fileinit s);
     s \<leftarrow> userinit sw s;
     Some (s\<lparr>started := True\<rparr>) }"

text \<open>The other harts wait for started; without it they wait for ever. \<open>n\<close> is how many rounds of the scheduler are
  looked at.\<close>

definition main :: "((nat \<times> u32) list \<Rightarrow> nat \<Rightarrow> u32) \<Rightarrow> policy \<Rightarrow> ('z boot_state_scheme \<Rightarrow> 'z boot_state_scheme option) \<Rightarrow> nat
    \<Rightarrow> 'z boot_state_scheme \<Rightarrow> 'z boot_state_scheme option" where
  "main dev pol sw n s = do {
     s \<leftarrow> (if cpuid (hw s) = 0 then main_boot dev sw s
          else if \<not> started s then None
          else do {
            s \<leftarrow> printf (''hart %d starting'' @ [CHR 0x0A]) [VInt (int (cpuid (hw s)))] s;
            Some (plicinithart (trapinithart (kvminithart s))) });
     scheduler pol sw n s }"

end
