(* ===== verification/Asm.thy ===== *)
theory Asm
  imports Proc
begin

text \<open>
  The assembly files of the kernel: trampoline.S, swtch.S, kernelvec.S and entry.S.

  The code is lists of instructions, as in the files, for a machine with the 31 registers, the control registers the
  code uses and the physical memory. \<open>tr\<close> is the address translation of the hardware: the physical address for the
  contents of satp and a virtual address. In machine mode, where timervec and entry run, it is the identity.
  Eight-byte accesses are aligned, so an access lies within a page. The code is straight-line and ends with a jump,
  which is what \<open>goto\<close> records; the call of kerneltrap splits kernelvec in two.
\<close>

section \<open>The machine\<close>

datatype reg = RA | SP | GP | TP | T0 | T1 | T2 | S0 | S1 | A0 | A1 | A2 | A3 | A4 | A5 | A6 | A7
  | S2 | S3 | S4 | S5 | S6 | S7 | S8 | S9 | S10 | S11 | T3 | T4 | T5 | T6

datatype ctl = Satp | Sscratch | Mscratch | Sip | Mhartid

datatype instr =
    SD reg nat reg | LD reg nat reg | LI reg u64 | ADDI reg reg int | ADD reg reg reg | MUL reg reg reg
  | CSRW ctl reg | CSRR reg ctl | CSRRW reg ctl reg | SFENCE | JR reg | CALL u64 | RET | SRET | MRET

datatype jump = Fall | Jump u64 | Sret | Mret

record machine =
  regs :: "reg \<Rightarrow> u64"
  ctls :: "ctl \<Rightarrow> u64"
  mm :: mem
  goto :: jump

type_synonym translation = "u64 \<Rightarrow> u64 \<Rightarrow> u64"

definition set_reg :: "reg \<Rightarrow> u64 \<Rightarrow> machine \<Rightarrow> machine" where
  "set_reg r v st = st\<lparr>regs := (regs st)(r := v)\<rparr>"

definition phys :: "translation \<Rightarrow> machine \<Rightarrow> reg \<Rightarrow> nat \<Rightarrow> u64" where
  "phys tr st b i = tr (ctls st Satp) (regs st b + of_nat i)"

fun step :: "translation \<Rightarrow> instr \<Rightarrow> machine \<Rightarrow> machine" where
  "step tr (SD r i b) st = st\<lparr>mm := store (phys tr st b i) (regs st r) (mm st)\<rparr>"
| "step tr (LD r i b) st = set_reg r (load (mm st) (phys tr st b i)) st"
| "step tr (LI r v) st = set_reg r v st"
| "step tr (ADDI r a i) st = set_reg r (regs st a + word_of_int i) st"
| "step tr (ADD r a b) st = set_reg r (regs st a + regs st b) st"
| "step tr (MUL r a b) st = set_reg r (regs st a * regs st b) st"
| "step tr (CSRW c r) st = st\<lparr>ctls := (ctls st)(c := regs st r)\<rparr>"
| "step tr (CSRR r c) st = set_reg r (ctls st c) st"
| "step tr (CSRRW r c a) st = set_reg r (ctls st c) (st\<lparr>ctls := (ctls st)(c := regs st a)\<rparr>)"
| "step tr SFENCE st = st"
| "step tr (JR r) st = st\<lparr>goto := Jump (regs st r)\<rparr>"
| "step tr (CALL a) st = st\<lparr>goto := Jump a\<rparr>"
| "step tr RET st = st\<lparr>goto := Jump (regs st RA)\<rparr>"
| "step tr SRET st = st\<lparr>goto := Sret\<rparr>"
| "step tr MRET st = st\<lparr>goto := Mret\<rparr>"

definition run :: "translation \<Rightarrow> instr list \<Rightarrow> machine \<Rightarrow> machine" where
  "run tr = fold (step tr)"

section \<open>The code\<close>

definition uservec_S :: "instr list" where
  "uservec_S =
    [CSRW Sscratch A0, LI A0 TRAPFRAME, SD RA 40 A0, SD SP 48 A0, SD GP 56 A0, SD TP 64 A0, SD T0 72 A0,
     SD T1 80 A0, SD T2 88 A0, SD S0 96 A0, SD S1 104 A0, SD A1 120 A0, SD A2 128 A0, SD A3 136 A0, SD A4 144 A0,
     SD A5 152 A0, SD A6 160 A0, SD A7 168 A0, SD S2 176 A0, SD S3 184 A0, SD S4 192 A0, SD S5 200 A0,
     SD S6 208 A0, SD S7 216 A0, SD S8 224 A0, SD S9 232 A0, SD S10 240 A0, SD S11 248 A0, SD T3 256 A0,
     SD T4 264 A0, SD T5 272 A0, SD T6 280 A0, CSRR T0 Sscratch, SD T0 112 A0, LD SP 8 A0, LD TP 32 A0,
     LD T0 16 A0, LD T1 0 A0, SFENCE, CSRW Satp T1, SFENCE, JR T0]"

definition userret_S :: "instr list" where
  "userret_S =
    [SFENCE, CSRW Satp A0, SFENCE, LI A0 TRAPFRAME, LD RA 40 A0, LD SP 48 A0, LD GP 56 A0, LD TP 64 A0,
     LD T0 72 A0, LD T1 80 A0, LD T2 88 A0, LD S0 96 A0, LD S1 104 A0, LD A1 120 A0, LD A2 128 A0, LD A3 136 A0,
     LD A4 144 A0, LD A5 152 A0, LD A6 160 A0, LD A7 168 A0, LD S2 176 A0, LD S3 184 A0, LD S4 192 A0,
     LD S5 200 A0, LD S6 208 A0, LD S7 216 A0, LD S8 224 A0, LD S9 232 A0, LD S10 240 A0, LD S11 248 A0,
     LD T3 256 A0, LD T4 264 A0, LD T5 272 A0, LD T6 280 A0, LD A0 112 A0, SRET]"

definition swtch_S :: "instr list" where
  "swtch_S =
    [SD RA 0 A0, SD SP 8 A0, SD S0 16 A0, SD S1 24 A0, SD S2 32 A0, SD S3 40 A0, SD S4 48 A0, SD S5 56 A0,
     SD S6 64 A0, SD S7 72 A0, SD S8 80 A0, SD S9 88 A0, SD S10 96 A0, SD S11 104 A0, LD RA 0 A1, LD SP 8 A1,
     LD S0 16 A1, LD S1 24 A1, LD S2 32 A1, LD S3 40 A1, LD S4 48 A1, LD S5 56 A1, LD S6 64 A1, LD S7 72 A1,
     LD S8 80 A1, LD S9 88 A1, LD S10 96 A1, LD S11 104 A1, RET]"

definition kernelvec_save :: "instr list" where
  "kernelvec_save =
    [ADDI SP SP (-256), SD RA 0 SP, SD SP 8 SP, SD GP 16 SP, SD TP 24 SP, SD T0 32 SP, SD T1 40 SP, SD T2 48 SP,
     SD S0 56 SP, SD S1 64 SP, SD A0 72 SP, SD A1 80 SP, SD A2 88 SP, SD A3 96 SP, SD A4 104 SP, SD A5 112 SP,
     SD A6 120 SP, SD A7 128 SP, SD S2 136 SP, SD S3 144 SP, SD S4 152 SP, SD S5 160 SP, SD S6 168 SP,
     SD S7 176 SP, SD S8 184 SP, SD S9 192 SP, SD S10 200 SP, SD S11 208 SP, SD T3 216 SP, SD T4 224 SP,
     SD T5 232 SP, SD T6 240 SP]"

definition kernelvec_restore :: "instr list" where
  "kernelvec_restore =
    [LD RA 0 SP, LD SP 8 SP, LD GP 16 SP, LD T0 32 SP, LD T1 40 SP, LD T2 48 SP, LD S0 56 SP, LD S1 64 SP,
     LD A0 72 SP, LD A1 80 SP, LD A2 88 SP, LD A3 96 SP, LD A4 104 SP, LD A5 112 SP, LD A6 120 SP, LD A7 128 SP,
     LD S2 136 SP, LD S3 144 SP, LD S4 152 SP, LD S5 160 SP, LD S6 168 SP, LD S7 176 SP, LD S8 184 SP,
     LD S9 192 SP, LD S10 200 SP, LD S11 208 SP, LD T3 216 SP, LD T4 224 SP, LD T5 232 SP, LD T6 240 SP,
     ADDI SP SP 256, SRET]"

definition timervec_S :: "instr list" where
  "timervec_S =
    [CSRRW A0 Mscratch A0, SD A1 0 A0, SD A2 8 A0, SD A3 16 A0, LD A1 24 A0, LD A2 32 A0, LD A3 0 A1, ADD A3 A3 A2,
     SD A3 0 A1, LI A1 2, CSRW Sip A1, LD A3 16 A0, LD A2 8 A0, LD A1 0 A0, CSRRW A0 Mscratch A0, MRET]"

definition entry_S :: "u64 \<Rightarrow> u64 \<Rightarrow> instr list" where
  "entry_S stack0 start =
    [LI SP stack0, LI A0 4096, CSRR A1 Mhartid, ADDI A1 A1 1, MUL A0 A0 A1, ADD SP SP A0, CALL start]"

section \<open>Saving and restoring runs of registers\<close>

definition sds :: "reg \<Rightarrow> (reg \<times> nat) list \<Rightarrow> instr list" where
  "sds b = map (\<lambda>(r, i). SD r i b)"

definition lds :: "reg \<Rightarrow> (reg \<times> nat) list \<Rightarrow> instr list" where
  "lds b = map (\<lambda>(r, i). LD r i b)"

definition stores :: "(nat \<Rightarrow> u64) \<Rightarrow> (reg \<Rightarrow> u64) \<Rightarrow> (reg \<times> nat) list \<Rightarrow> mem \<Rightarrow> mem" where
  "stores f g = fold (\<lambda>(r, i). store (f i) (g r))"

text \<open>A save area: offsets of different doublewords below 4096.\<close>

definition slots :: "(reg \<times> nat) list \<Rightarrow> bool" where
  "slots xs \<longleftrightarrow> distinct (map snd xs) \<and> (\<forall>i \<in> set (map snd xs). 8 dvd i \<and> i < 4096)"

lemma run_simps [simp]:
  "run tr [] st = st" "run tr (i # is) st = run tr is (step tr i st)" "run tr (is @ js) st = run tr js (run tr is st)"
  by (simp_all add: run_def)

lemma set_reg_simps [simp]:
  "regs (set_reg r v st) = (regs st)(r := v)" "ctls (set_reg r v st) = ctls st" "mm (set_reg r v st) = mm st"
  "goto (set_reg r v st) = goto st"
  by (simp_all add: set_reg_def)

lemma run_sds: "run tr (sds b xs) st = st\<lparr>mm := stores (phys tr st b) (regs st) xs (mm st)\<rparr>"
proof (induction xs arbitrary: st)
  case (Cons x xs)
  obtain r i where "x = (r, i)" by fastforce
  then show ?case using Cons [of "step tr (SD r i b) st"] by (simp add: sds_def stores_def phys_def)
qed (simp add: sds_def stores_def)

text \<open>The base register may be among the loaded ones if the value loaded is the one it has.\<close>

lemma run_lds:
  assumes "\<And>i. (b, i) \<in> set xs \<Longrightarrow> load (mm st) (phys tr st b i) = regs st b" "distinct (map fst xs)"
  shows "run tr (lds b xs) st =
    st\<lparr>regs := \<lambda>r. case map_of xs r of None \<Rightarrow> regs st r | Some i \<Rightarrow> load (mm st) (phys tr st b i)\<rparr>"
  using assms
proof (induction xs arbitrary: st)
  case (Cons x xs)
  obtain r i where x: "x = (r, i)" by fastforce
  let ?st = "set_reg r (load (mm st) (phys tr st b i)) st"
  have b: "regs ?st b = regs st b" using Cons.prems(1) [of i] x by auto
  then have p: "phys tr ?st b = phys tr st b" by (simp add: phys_def fun_eq_iff)
  have "run tr (lds b xs) ?st =
      ?st\<lparr>regs := \<lambda>q. case map_of xs q of None \<Rightarrow> regs ?st q | Some i \<Rightarrow> load (mm ?st) (phys tr ?st b i)\<rparr>"
    by (rule Cons.IH) (use Cons.prems b p in \<open>simp_all\<close>)
  also have "\<dots> = st\<lparr>regs := \<lambda>q. case map_of (x # xs) q of None \<Rightarrow> regs st q | Some i \<Rightarrow> load (mm st) (phys tr st b i)\<rparr>"
  proof -
    have "map_of xs r = None" using Cons.prems(2) x by (simp add: map_of_eq_None_iff)
    then have "(\<lambda>q. case map_of xs q of None \<Rightarrow> regs ?st q | Some i \<Rightarrow> load (mm ?st) (phys tr ?st b i)) =
        (\<lambda>q. case map_of (x # xs) q of None \<Rightarrow> regs st q | Some i \<Rightarrow> load (mm st) (phys tr st b i))"
      unfolding p by (simp add: x fun_eq_iff split: option.splits)
    then show ?thesis by (simp add: set_reg_def)
  qed
  finally show ?case by (simp add: x lds_def)
qed (simp add: lds_def)

lemma slot_apart:
  assumes "8 dvd i" "8 dvd j" "i \<noteq> j" "i < 4096" "j < 4096"
  shows "8 \<le> off (p + of_nat i) (p + of_nat j)"
proof -
  have d: "8 \<le> unat (of_nat k :: u64)" if "8 \<le> k" "k < 2 ^ 64" for k using that by (simp add: unat_of_nat)
  show ?thesis
  proof (cases "j < i")
    case True
    then have "8 \<le> i - j" using assms by (auto elim!: dvdE)
    moreover have "(p + of_nat i) - (p + of_nat j) = (of_nat (i - j) :: u64)" using True by (simp add: of_nat_diff)
    ultimately show ?thesis using assms(4) d [of "i - j"] by simp
  next
    case False
    then have l: "8 \<le> j - i" "i < j" using assms by (auto elim!: dvdE)
    have "(of_nat i :: u64) - of_nat j = of_nat (2 ^ 64 - (j - i))"
      using l assms(5) by (simp add: of_nat_diff)
    then have "(p + of_nat i) - (p + of_nat j) = (of_nat (2 ^ 64 - (j - i)) :: u64)" by simp
    moreover have "8 \<le> unat (of_nat (2 ^ 64 - (j - i)) :: u64)" by (rule d) (use l assms(5) in simp_all)
    ultimately show ?thesis by (simp only:)
  qed
qed

lemma load_stores_other:
  assumes "slots xs" "i \<notin> set (map snd xs)" "8 dvd i" "i < 4096" "\<And>k. k < 4096 \<Longrightarrow> f k = p + of_nat k"
  shows "load (stores f g xs m) (p + of_nat i) = (load m (p + of_nat i) :: u64)"
  using assms(1,2)
proof (induction xs arbitrary: m)
  case (Cons x xs)
  obtain r j where x: "x = (r, j)" by fastforce
  have j: "8 dvd j" "j < 4096" "i \<noteq> j" "f j = p + of_nat j" using Cons.prems assms(5) x by (auto simp: slots_def)
  have "load (store (p + of_nat j) (g r) m) (p + of_nat i) = (load m (p + of_nat i) :: u64)"
    by (rule load_store_other) (rule slot_apart; use j assms(3,4) in simp)+
  with Cons.IH [of "store (f j) (g r) m"] Cons.prems j(4) show ?case by (simp add: x stores_def slots_def)
qed (simp add: stores_def)

lemma load_stores:
  assumes "slots xs" "(r, i) \<in> set xs" "\<And>k. k < 4096 \<Longrightarrow> f k = p + of_nat k"
  shows "load (stores f g xs m) (p + of_nat i) = g r"
  using assms(1,2)
proof (induction xs arbitrary: m)
  case (Cons x xs)
  obtain q j where x: "x = (q, j)" by fastforce
  have xs: "slots xs" "j \<notin> set (map snd xs)" "8 dvd j" "j < 4096" using Cons.prems(1) x by (auto simp: slots_def)
  show ?case
  proof (cases "(r, i) = x")
    case True
    then have "load (stores f g xs (store (f j) (g q) m)) (p + of_nat i) =
        (load (store (f j) (g q) m) (p + of_nat i) :: u64)"
      using load_stores_other [OF xs assms(3)] x by simp
    also have "\<dots> = g r" using True x assms(3) [OF xs(4)] by (simp add: load_store_same)
    finally show ?thesis by (simp add: x stores_def)
  next
    case False
    then have "(r, i) \<in> set xs" using Cons.prems(2) by simp
    then show ?thesis using Cons.IH [OF xs(1), of "store (f j) (g q) m"] by (simp add: x stores_def)
  qed
qed simp

lemma stores_frame:
  assumes "\<And>r i k. (r, i) \<in> set xs \<Longrightarrow> k < 8 \<Longrightarrow> b \<noteq> f i + of_nat k"
  shows "stores f g xs m b = m b"
  using assms
proof (induction xs arbitrary: m)
  case (Cons x xs)
  obtain r i where x: "x = (r, i)" by fastforce
  have "\<not> off b (f i) < 8" using Cons.prems [of r i "off b (f i)"] x by auto
  then have "store (f i) (g r) m b = m b" by (simp add: store_apply)
  moreover have "stores f g xs (store (f i) (g r) m) b = store (f i) (g r) m b"
    by (rule Cons.IH) (use Cons.prems in auto)
  ultimately show ?case by (simp add: x stores_def)
qed (simp add: stores_def)

section \<open>The trampoline\<close>

text \<open>Where the trampoline keeps a register: the field of struct trapframe with its name.\<close>

primrec tf_reg :: "reg \<Rightarrow> tfreg" where
  "tf_reg RA = TF_ra" | "tf_reg SP = TF_sp" | "tf_reg GP = TF_gp" | "tf_reg TP = TF_tp" | "tf_reg T0 = TF_t0"
| "tf_reg T1 = TF_t1" | "tf_reg T2 = TF_t2" | "tf_reg S0 = TF_s0" | "tf_reg S1 = TF_s1" | "tf_reg A0 = TF_a0"
| "tf_reg A1 = TF_a1" | "tf_reg A2 = TF_a2" | "tf_reg A3 = TF_a3" | "tf_reg A4 = TF_a4" | "tf_reg A5 = TF_a5"
| "tf_reg A6 = TF_a6" | "tf_reg A7 = TF_a7" | "tf_reg S2 = TF_s2" | "tf_reg S3 = TF_s3" | "tf_reg S4 = TF_s4"
| "tf_reg S5 = TF_s5" | "tf_reg S6 = TF_s6" | "tf_reg S7 = TF_s7" | "tf_reg S8 = TF_s8" | "tf_reg S9 = TF_s9"
| "tf_reg S10 = TF_s10" | "tf_reg S11 = TF_s11" | "tf_reg T3 = TF_t3" | "tf_reg T4 = TF_t4" | "tf_reg T5 = TF_t5"
| "tf_reg T6 = TF_t6"

definition user_slots :: "(reg \<times> nat) list" where
  "user_slots = map (\<lambda>r. (r, tf_off (tf_reg r))) [RA, SP, GP, TP, T0, T1, T2, S0, S1, A1, A2, A3, A4, A5, A6, A7,
     S2, S3, S4, S5, S6, S7, S8, S9, S10, S11, T3, T4, T5, T6]"

lemma user_slots_eq: "user_slots = [(RA, 40), (SP, 48), (GP, 56), (TP, 64), (T0, 72), (T1, 80), (T2, 88), (S0, 96), (S1, 104),
  (A1, 120), (A2, 128), (A3, 136), (A4, 144), (A5, 152), (A6, 160), (A7, 168), (S2, 176), (S3, 184), (S4, 192),
  (S5, 200), (S6, 208), (S7, 216), (S8, 224), (S9, 232), (S10, 240), (S11, 248), (T3, 256), (T4, 264), (T5, 272),
  (T6, 280)]"
  by code_simp

lemma tf_offs:
  "tf_off TF_kernel_satp = 0" "tf_off TF_kernel_sp = 8" "tf_off TF_kernel_trap = 16" "tf_off TF_kernel_hartid = 32"
  "tf_off TF_a0 = 112"
  by code_simp+

lemma tf_off_bound: "tf_off r < 4096" "8 dvd tf_off r"
proof -
  have "length tf_regs = 36" by code_simp
  then show "tf_off r < 4096" using length_takeWhile_le [of "(\<noteq>) r" tf_regs] by (simp add: tf_off_def)
qed (simp add: tf_off_def)

lemma user_slots_ok: "slots user_slots" "distinct (map fst user_slots)"
  by (simp_all add: user_slots_eq slots_def)

lemma map_of_user_slots: "map_of user_slots r = (if r = A0 then None else Some (tf_off (tf_reg r)))"
  by (cases r) (simp_all add: user_slots_def)

lemma uservec_split: "uservec_S = [CSRW Sscratch A0, LI A0 TRAPFRAME] @ sds A0 user_slots @
  [CSRR T0 Sscratch, SD T0 112 A0, LD SP 8 A0, LD TP 32 A0, LD T0 16 A0, LD T1 0 A0, SFENCE, CSRW Satp T1, SFENCE, JR T0]"
  by (simp add: uservec_S_def user_slots_eq sds_def)

lemma userret_split: "userret_S = [SFENCE, CSRW Satp A0, SFENCE, LI A0 TRAPFRAME] @ lds A0 user_slots @ [LD A0 112 A0, SRET]"
  by (simp add: userret_S_def user_slots_eq lds_def)

text \<open>The user page table maps TRAPFRAME to the page tf.\<close>

definition tf_mapped :: "translation \<Rightarrow> u64 \<Rightarrow> u64 \<Rightarrow> bool" where
  "tf_mapped tr pt tf \<longleftrightarrow> (\<forall>i < 4096. tr pt (TRAPFRAME + of_nat i) = tf + of_nat i)"

lemma uservec_ok:
  assumes "tf_mapped tr (ctls st Satp) tf"
  shows "load (mm (run tr uservec_S st)) (tf + of_nat (tf_off (tf_reg r))) = regs st r"
    "regs (run tr uservec_S st) SP = load (mm st) (tf + of_nat (tf_off TF_kernel_sp))"
    "regs (run tr uservec_S st) TP = load (mm st) (tf + of_nat (tf_off TF_kernel_hartid))"
    "ctls (run tr uservec_S st) Satp = load (mm st) (tf + of_nat (tf_off TF_kernel_satp))"
    "goto (run tr uservec_S st) = Jump (load (mm st) (tf + of_nat (tf_off TF_kernel_trap)))"
proof -
  let ?st = "set_reg A0 TRAPFRAME (st\<lparr>ctls := (ctls st)(Sscratch := regs st A0)\<rparr>)"
  let ?m = "stores (phys tr ?st A0) (regs ?st) user_slots (mm st)"
  let ?m' = "store (tf + 112) (regs st A0) ?m"
  have p: "phys tr ?st A0 i = tf + of_nat i" if "i < 4096" for i
    using assms that by (simp add: phys_def tf_mapped_def)
  have t: "tr (ctls st Satp) (TRAPFRAME + of_nat i) = tf + of_nat i" if "i < 4096" for i
    using assms that by (simp add: tf_mapped_def)
  have a: "load ?m' (tf + of_nat i) = (load ?m (tf + of_nat i) :: u64)" if "8 dvd i" "i < 4096" "i \<noteq> 112" for i
    using that slot_apart [of i 112 tf] slot_apart [of 112 i tf] by (intro load_store_other) simp_all
  have k: "load ?m' (tf + of_nat i) = (load (mm st) (tf + of_nat i) :: u64)"
    if "i \<notin> set (map snd user_slots)" "8 dvd i" "i < 4096" "i \<noteq> 112" for i
    using a [OF that(2-4)] load_stores_other [OF user_slots_ok(1) that(1-3) p] by simp
  have r: "run tr uservec_S st = run tr [SD T0 112 A0, LD SP 8 A0, LD TP 32 A0, LD T0 16 A0, LD T1 0 A0, CSRW Satp T1, JR T0]
      (set_reg T0 (regs st A0) (?st\<lparr>mm := ?m\<rparr>))"
    by (simp add: uservec_split run_sds)
  have m: "mm (run tr uservec_S st) = ?m'" using t [of 112] by (simp add: r phys_def)
  show "load (mm (run tr uservec_S st)) (tf + of_nat (tf_off (tf_reg r))) = regs st r"
  proof (cases "r = A0")
    case True
    then show ?thesis unfolding m by (simp add: tf_offs load_store_same)
  next
    case False
    then have i: "(r, tf_off (tf_reg r)) \<in> set user_slots" using map_of_user_slots [of r] by (simp add: map_of_SomeD)
    moreover have "tf_off (tf_reg r) \<noteq> 112" using i by (auto simp: user_slots_eq)
    ultimately show ?thesis unfolding m using False a tf_off_bound load_stores [OF user_slots_ok(1) i p] by simp
  qed
  show "regs (run tr uservec_S st) SP = load (mm st) (tf + of_nat (tf_off TF_kernel_sp))"
    "regs (run tr uservec_S st) TP = load (mm st) (tf + of_nat (tf_off TF_kernel_hartid))"
    "ctls (run tr uservec_S st) Satp = load (mm st) (tf + of_nat (tf_off TF_kernel_satp))"
    "goto (run tr uservec_S st) = Jump (load (mm st) (tf + of_nat (tf_off TF_kernel_trap)))"
    using k [of 8] k [of 32] k [of 0] k [of 16] t [of 8] t [of 32] t [of 0] t [of 16] t [of 112]
    by (simp_all add: r phys_def tf_offs user_slots_eq)
qed

lemma userret_ok:
  assumes "tf_mapped tr (regs st A0) tf"
  shows "regs (run tr userret_S st) r = load (mm st) (tf + of_nat (tf_off (tf_reg r)))"
    "ctls (run tr userret_S st) Satp = regs st A0" "goto (run tr userret_S st) = Sret" "mm (run tr userret_S st) = mm st"
proof -
  let ?st = "set_reg A0 TRAPFRAME (st\<lparr>ctls := (ctls st)(Satp := regs st A0)\<rparr>)"
  have t: "tr (regs st A0) (TRAPFRAME + of_nat i) = tf + of_nat i" if "i < 4096" for i
    using assms that by (simp add: tf_mapped_def)
  have l: "run tr (lds A0 user_slots) ?st = ?st\<lparr>regs := \<lambda>r. case map_of user_slots r of None \<Rightarrow> regs ?st r
      | Some i \<Rightarrow> load (mm ?st) (phys tr ?st A0 i)\<rparr>"
    by (rule run_lds) (use user_slots_ok(2) in \<open>auto simp: user_slots_eq\<close>)
  have r: "run tr userret_S st = step tr SRET (step tr (LD A0 112 A0) (run tr (lds A0 user_slots) ?st))"
    by (simp add: userret_split)
  show "regs (run tr userret_S st) r = load (mm st) (tf + of_nat (tf_off (tf_reg r)))"
    using t [of 112] by (simp add: r l phys_def map_of_user_slots tf_offs tf_off_bound t)
  show "ctls (run tr userret_S st) Satp = regs st A0" "goto (run tr userret_S st) = Sret" "mm (run tr userret_S st) = mm st"
    by (simp_all add: r l)
qed

section \<open>Context switch\<close>

definition ctx_slots :: "(reg \<times> nat) list" where
  "ctx_slots = zip [RA, SP, S0, S1, S2, S3, S4, S5, S6, S7, S8, S9, S10, S11] (map ((*) 8) [0..<14])"

lemma ctx_slots_eq: "ctx_slots = [(RA, 0), (SP, 8), (S0, 16), (S1, 24), (S2, 32), (S3, 40), (S4, 48), (S5, 56), (S6, 64),
  (S7, 72), (S8, 80), (S9, 88), (S10, 96), (S11, 104)]"
  by (simp add: ctx_slots_def upt_rec)

lemma ctx_slots_ok: "slots ctx_slots" "distinct (map fst ctx_slots)"
  by (simp_all add: ctx_slots_eq slots_def)

lemma swtch_split: "swtch_S = sds A0 ctx_slots @ lds A1 ctx_slots @ [RET]"
  by (simp add: swtch_S_def ctx_slots_eq sds_def lds_def)

text \<open>The kernel maps its data at their physical addresses.\<close>

definition direct :: "translation \<Rightarrow> machine \<Rightarrow> u64 \<Rightarrow> bool" where
  "direct tr st a \<longleftrightarrow> (\<forall>i < 4096. tr (ctls st Satp) (a + of_nat i) = a + of_nat i)"

definition apart :: "nat \<Rightarrow> u64 \<Rightarrow> u64 \<Rightarrow> bool" where
  "apart n a b \<longleftrightarrow> (\<forall>i < n. \<forall>j < n. a + of_nat i \<noteq> b + of_nat j)"

lemma directD: "direct tr st (regs st b) \<Longrightarrow> i < 4096 \<Longrightarrow> phys tr st b i = regs st b + of_nat i"
  by (simp add: direct_def phys_def)

lemma ctx_slotsD: "(r, i) \<in> set ctx_slots \<Longrightarrow> 8 dvd i \<and> i < 112 \<and> map_of ctx_slots r = Some i \<and> r \<noteq> A0 \<and> r \<noteq> A1"
  by (auto simp: ctx_slots_eq)

lemma swtch_ok:
  assumes "direct tr st (regs st A0)" "direct tr st (regs st A1)"
    "apart 112 (regs st A0) (regs st A1)" "(r, i) \<in> set ctx_slots"
  shows "load (mm (run tr swtch_S st)) (regs st A0 + of_nat i) = regs st r"
    "regs (run tr swtch_S st) r = load (mm st) (regs st A1 + of_nat i)"
    "goto (run tr swtch_S st) = Jump (load (mm st) (regs st A1))"
proof -
  let ?m = "stores (phys tr st A0) (regs st) ctx_slots (mm st)"
  let ?st = "st\<lparr>mm := ?m\<rparr>"
  note p = directD [OF assms(1)] directD [OF assms(2)]
  have q: "phys tr ?st A1 j = regs st A1 + of_nat j" if "j < 4096" for j using p(2) [OF that] by (simp add: phys_def)
  have "?m (regs st A1 + of_nat j) = mm st (regs st A1 + of_nat j)" if "j < 112" for j
  proof (rule stores_frame)
    fix r i k assume r: "(r, i) \<in> set ctx_slots" and k: "k < (8 :: nat)"
    have "i + k < 112" using ctx_slotsD [OF r] k by (auto elim!: dvdE)
    then have "regs st A1 + of_nat j \<noteq> regs st A0 + of_nat (i + k)"
      using assms(3) that unfolding apart_def by metis
    then show "regs st A1 + of_nat j \<noteq> phys tr st A0 i + of_nat k"
      using ctx_slotsD [OF r] p(1) [of i] by (simp add: add.assoc)
  qed
  then have l: "load ?m (regs st A1 + of_nat j) = (load (mm st) (regs st A1 + of_nat j) :: u64)" if "j + 8 \<le> 112" for j
    by (intro load_cong) (use that in \<open>simp add: add.assoc flip: of_nat_add\<close>)
  have s: "run tr swtch_S st = step tr RET (?st\<lparr>regs := \<lambda>r. case map_of ctx_slots r of None \<Rightarrow> regs ?st r
      | Some i \<Rightarrow> load (mm ?st) (phys tr ?st A1 i)\<rparr>)"
  proof -
    have "run tr (lds A1 ctx_slots) ?st = ?st\<lparr>regs := \<lambda>r. case map_of ctx_slots r of None \<Rightarrow> regs ?st r
        | Some i \<Rightarrow> load (mm ?st) (phys tr ?st A1 i)\<rparr>"
      by (rule run_lds) (use ctx_slots_ok(2) in \<open>auto simp: ctx_slots_eq\<close>)
    then show ?thesis by (simp only: swtch_split run_simps run_sds)
  qed
  have i: "i + 8 \<le> 112" "map_of ctx_slots r = Some i" using ctx_slotsD [OF assms(4)] by (auto elim!: dvdE)
  show "load (mm (run tr swtch_S st)) (regs st A0 + of_nat i) = regs st r"
    using load_stores [OF ctx_slots_ok(1) assms(4) p(1)] by (simp add: s)
  show "regs (run tr swtch_S st) r = load (mm st) (regs st A1 + of_nat i)"
    using i l [of i] q [of i] by (simp add: s)
  show "goto (run tr swtch_S st) = Jump (load (mm st) (regs st A1))"
    using l [of 0] q [of 0] by (simp add: s ctx_slots_eq)
qed

section \<open>Traps in the kernel\<close>

definition kern_slots :: "(reg \<times> nat) list" where
  "kern_slots = zip [RA, SP, GP, TP, T0, T1, T2, S0, S1, A0, A1, A2, A3, A4, A5, A6, A7, S2, S3, S4, S5, S6, S7, S8, S9,
     S10, S11, T3, T4, T5, T6] (map ((*) 8) [0..<31])"

lemma kern_slots_eq: "kern_slots = [(RA, 0), (SP, 8), (GP, 16), (TP, 24), (T0, 32), (T1, 40), (T2, 48), (S0, 56), (S1, 64),
  (A0, 72), (A1, 80), (A2, 88), (A3, 96), (A4, 104), (A5, 112), (A6, 120), (A7, 128), (S2, 136), (S3, 144), (S4, 152),
  (S5, 160), (S6, 168), (S7, 176), (S8, 184), (S9, 192), (S10, 200), (S11, 208), (T3, 216), (T4, 224), (T5, 232),
  (T6, 240)]"
  by (simp add: kern_slots_def upt_rec)

lemma kernelvec_split:
  "kernelvec_save = ADDI SP SP (-256) # sds SP kern_slots"
  "kernelvec_restore = lds SP (filter (\<lambda>x. fst x \<noteq> TP) kern_slots) @ [ADDI SP SP 256, SRET]"
  by (simp_all add: kernelvec_save_def kernelvec_restore_def kern_slots_eq sds_def lds_def)

lemma kern_slots_ok: "slots kern_slots" "distinct (map fst kern_slots)"
  by (simp_all add: kern_slots_eq slots_def)

lemma kern_slotsD: "(r, i) \<in> set kern_slots \<Longrightarrow> 8 dvd i \<and> i < 248"
  by (auto simp: kern_slots_eq)

lemma kern_slot: "\<exists>i. (r, i) \<in> set kern_slots \<and> map_of kern_slots r = Some i"
  by (cases r) (simp_all add: kern_slots_eq)

lemma kernelvec_save_ok:
  assumes "direct tr st (regs st SP - 256)" "(r, i) \<in> set kern_slots"
  shows "load (mm (run tr kernelvec_save st)) (regs st SP - 256 + of_nat i) = (if r = SP then regs st SP - 256 else regs st r)"
    "regs (run tr kernelvec_save st) = (regs st)(SP := regs st SP - 256)"
    "ctls (run tr kernelvec_save st) = ctls st"
proof -
  let ?st = "set_reg SP (regs st SP - 256) st"
  have p: "phys tr ?st SP k = regs st SP - 256 + of_nat k" if "k < 4096" for k
    using assms(1) that by (simp add: direct_def phys_def)
  have r: "run tr kernelvec_save st = ?st\<lparr>mm := stores (phys tr ?st SP) (regs ?st) kern_slots (mm ?st)\<rparr>"
    by (simp add: kernelvec_split run_sds)
  show "load (mm (run tr kernelvec_save st)) (regs st SP - 256 + of_nat i) = (if r = SP then regs st SP - 256 else regs st r)"
    using load_stores [OF kern_slots_ok(1) assms(2) p, of "regs ?st"] by (simp add: r)
qed (simp_all add: kernelvec_split run_sds)

lemma kernelvec_restore_ok:
  assumes "direct tr st (regs st SP)" "load (mm st) (regs st SP + 8) = regs st SP" "(r, i) \<in> set kern_slots" "r \<noteq> TP" "r \<noteq> SP"
  shows "regs (run tr kernelvec_restore st) r = load (mm st) (regs st SP + of_nat i)"
    "regs (run tr kernelvec_restore st) SP = regs st SP + 256" "regs (run tr kernelvec_restore st) TP = regs st TP"
    "goto (run tr kernelvec_restore st) = Sret"
proof -
  let ?xs = "filter (\<lambda>x. fst x \<noteq> TP) kern_slots"
  note p = directD [OF assms(1)]
  have "run tr (lds SP ?xs) st = st\<lparr>regs := \<lambda>r. case map_of ?xs r of None \<Rightarrow> regs st r
      | Some i \<Rightarrow> load (mm st) (phys tr st SP i)\<rparr>"
    by (rule run_lds) (use p [of 8] assms(2) in \<open>auto simp: kern_slots_eq\<close>)
  then have s: "run tr kernelvec_restore st = step tr SRET (step tr (ADDI SP SP 256) (st\<lparr>regs := \<lambda>r. case map_of ?xs r of
      None \<Rightarrow> regs st r | Some i \<Rightarrow> load (mm st) (phys tr st SP i)\<rparr>))"
    by (simp only: kernelvec_split run_simps)
  have "map_of ?xs r = Some i" using assms(3,4) by (auto simp: kern_slots_eq)
  then show "regs (run tr kernelvec_restore st) r = load (mm st) (regs st SP + of_nat i)"
    using kern_slotsD [OF assms(3)] p [of i] assms(5) by (simp add: s)
  show "regs (run tr kernelvec_restore st) SP = regs st SP + 256"
    using p [of 8] assms(2) by (simp add: s kern_slots_eq)
  show "regs (run tr kernelvec_restore st) TP = regs st TP" by (simp add: s kern_slots_eq)
  show "goto (run tr kernelvec_restore st) = Sret" by (simp add: s)
qed

section \<open>Machine mode\<close>

text \<open>Each hart gets the top of its own 4096 bytes of stack0.\<close>

lemma entry_ok:
  "regs (run tr (entry_S stack0 start) st) SP = stack0 + 4096 * (ctls st Mhartid + 1)"
  "goto (run tr (entry_S stack0 start) st) = Jump start"
  by (simp_all add: entry_S_def)

text \<open>The timer handler moves mtimecmp on by the interval, raises a supervisor software interrupt and changes no register,
  if the device register is not part of the scratch area.\<close>

lemma timervec_ok:
  assumes "sc = ctls st Mscratch" "cmp = load (mm st) (sc + 24)"
    "\<forall>i < 5. 8 \<le> off (sc + of_nat (8 * i)) cmp \<and> 8 \<le> off cmp (sc + of_nat (8 * i))"
  shows "regs (run (\<lambda>_ a. a) timervec_S st) = regs st" "goto (run (\<lambda>_ a. a) timervec_S st) = Mret"
    "ctls (run (\<lambda>_ a. a) timervec_S st) = (ctls st)(Sip := 2)"
    "load (mm (run (\<lambda>_ a. a) timervec_S st)) cmp = load (mm st) cmp + (load (mm st) (sc + 32) :: u64)"
proof -
  have a: "8 \<le> off sc cmp" "8 \<le> off cmp sc" "8 \<le> off (sc + 8) cmp" "8 \<le> off cmp (sc + 8)" "8 \<le> off (sc + 16) cmp"
    "8 \<le> off cmp (sc + 16)"
    using assms(3) [rule_format, of 0] assms(3) [rule_format, of 1] assms(3) [rule_format, of 2] by simp_all
  note l = load_store_same load_store_other [OF a(1,2)] load_store_other [OF a(2,1)] load_store_other [OF a(3,4)]
    load_store_other [OF a(4,3)] load_store_other [OF a(5,6)] load_store_other [OF a(6,5)]
    load_store_other [of "sc + 24" sc] load_store_other [of "sc + 24" "sc + 8"] load_store_other [of "sc + 24" "sc + 16"]
    load_store_other [of "sc + 32" sc] load_store_other [of "sc + 32" "sc + 8"] load_store_other [of "sc + 32" "sc + 16"]
    load_store_other [of "sc + 8" "sc + 16"] load_store_other [of sc "sc + 16"] load_store_other [of sc "sc + 8"]
  have b: "unat (- 8 :: u64) = 2 ^ 64 - 8" "unat (- 16 :: u64) = 2 ^ 64 - 16" "unat (- 24 :: u64) = 2 ^ 64 - 24" 
    "unat (- 32 :: u64) = 2 ^ 64 - 32" by simp_all
  note r = timervec_S_def phys_def assms(1) [symmetric] assms(2) [symmetric] l b
  show "load (mm (run (\<lambda>_ a. a) timervec_S st)) cmp = load (mm st) cmp + (load (mm st) (sc + 32) :: u64)"
    by (simp add: r)
  show "regs (run (\<lambda>_ a. a) timervec_S st) = regs st" by (simp add: r fun_eq_iff)
  show "ctls (run (\<lambda>_ a. a) timervec_S st) = (ctls st)(Sip := 2)" by (simp add: r fun_eq_iff)
  show "goto (run (\<lambda>_ a. a) timervec_S st) = Mret" by (simp add: r)
qed

section \<open>Registers survive traps and context switches\<close>

abbreviation tf_load :: "machine \<Rightarrow> u64 \<Rightarrow> tfreg \<Rightarrow> u64" where
  "tf_load st tf r \<equiv> load (mm st) (tf + of_nat (tf_off r))"

text \<open>C5: A trap from user space saves each of the 31 user registers in the field of the process's struct trapframe that
  has its name, and enters usertrap on the kernel's page table, stack and hart id, as the trapframe gives them. The
  return to user space loads each register from its field and switches to the page table it is passed. So if the kernel
  leaves the saved registers alone, the user program goes on with every register as it was.\<close>

theorem trampoline_roundtrip:
  assumes "tf_mapped tr (ctls st Satp) tf" "regs st2 A0 = ctls st Satp" "st1 = run tr uservec_S st"
  shows "(\<forall>r. tf_load st1 tf (tf_reg r) = regs st r) \<and> regs st1 SP = tf_load st tf TF_kernel_sp \<and>
    regs st1 TP = tf_load st tf TF_kernel_hartid \<and> ctls st1 Satp = tf_load st tf TF_kernel_satp \<and>
    goto st1 = Jump (tf_load st tf TF_kernel_trap) \<and>
    (\<forall>r. regs (run tr userret_S st2) r = tf_load st2 tf (tf_reg r)) \<and> ctls (run tr userret_S st2) Satp = ctls st Satp \<and>
    goto (run tr userret_S st2) = Sret \<and>
    ((\<forall>r. tf_load st2 tf (tf_reg r) = tf_load st1 tf (tf_reg r)) \<longrightarrow> regs (run tr userret_S st2) = regs st)"
proof -
  note u = uservec_ok [OF assms(1), folded assms(3)]
  have "tf_mapped tr (regs st2 A0) tf" using assms(1,2) by simp
  note v = userret_ok [OF this]
  show ?thesis using u v assms(2) by auto
qed

definition mach0 :: machine where
  "mach0 = \<lparr>regs = (\<lambda>r. if r = SP then 0x9000 else if r = A0 then 0x1000 else if r = A1 then 0x2000 else 7),
     ctls = (\<lambda>_. 5), mm = (\<lambda>_. 0), goto = Fall\<rparr>"

definition tr0 :: translation where
  "tr0 pt a = a - TRAPFRAME + 0x80005000"

theorem trampoline_roundtrip_witness:
  "regs (run tr0 userret_S (set_reg A0 5 (run tr0 uservec_S mach0))) = regs mach0"
proof -
  have "tf_mapped tr0 (ctls mach0 Satp) 0x80005000" by (simp add: tf_mapped_def tr0_def)
  from trampoline_roundtrip [OF this, of "set_reg A0 5 (run tr0 uservec_S mach0)"] show ?thesis
    by (simp add: mach0_def)
qed

text \<open>C25: swtch resumes a context where it was left. If a thread calls swtch and gives its registers to a context, and
  later some thread switches to that context, which nothing has written in between, then ra, sp and s0 to s11 are as
  they were at the call, and execution goes on behind it.\<close>

theorem swtch_resumes:
  assumes "direct tr st (regs st A0)" "direct tr st (regs st A1)" "apart 112 (regs st A0) (regs st A1)"
    "direct tr st2 (regs st2 A0)" "direct tr st2 (regs st2 A1)" "apart 112 (regs st2 A0) (regs st2 A1)"
    "regs st2 A1 = regs st A0" "\<forall>i < 112. mm st2 (regs st A0 + of_nat i) = mm (run tr swtch_S st) (regs st A0 + of_nat i)"
  shows "(\<forall>r \<in> {RA, SP, S0, S1, S2, S3, S4, S5, S6, S7, S8, S9, S10, S11}. regs (run tr swtch_S st2) r = regs st r) \<and>
    goto (run tr swtch_S st2) = Jump (regs st RA)"
proof -
  have l: "load (mm st2) (regs st A0 + of_nat i) = regs st r" if "(r, i) \<in> set ctx_slots" for r i
  proof -
    have "i + 8 \<le> 112" using ctx_slotsD [OF that] by (auto elim!: dvdE)
    then have "(load (mm st2) (regs st A0 + of_nat i) :: u64) = load (mm (run tr swtch_S st)) (regs st A0 + of_nat i)"
      by (intro load_cong) (use assms(8) in \<open>simp add: add.assoc flip: of_nat_add\<close>)
    with swtch_ok(1) [OF assms(1-3) that] show ?thesis by simp
  qed
  have r: "regs (run tr swtch_S st2) r = regs st r" if "(r, i) \<in> set ctx_slots" for r i
    using swtch_ok(2) [OF assms(4-6) that] l [OF that] assms(7) by simp
  then have "\<forall>r \<in> {RA, SP, S0, S1, S2, S3, S4, S5, S6, S7, S8, S9, S10, S11}. regs (run tr swtch_S st2) r = regs st r"
    by (auto simp: ctx_slots_eq)
  moreover have "goto (run tr swtch_S st2) = Jump (regs st RA)"
    using swtch_ok(3) [OF assms(4-6), of RA 0] l [of RA 0] assms(7) by (simp add: ctx_slots_eq)
  ultimately show ?thesis by (rule conjI)
qed

lemma apart0: "apart 112 0x1000 0x2000" "apart 112 0x2000 0x1000"
proof -
  have "0x1000 + of_nat i \<noteq> (0x2000 + of_nat j :: u64)" if "i < 112" "j < 112" for i j
  proof -
    have "unat (0x1000 + of_nat i :: u64) = 0x1000 + i" "unat (0x2000 + of_nat j :: u64) = 0x2000 + j"
      using that by (simp_all add: unat_word_ariths unat_of_nat)
    then show ?thesis using that by (auto simp: word_unat_eq_iff)
  qed
  then show "apart 112 0x1000 0x2000" "apart 112 0x2000 0x1000" unfolding apart_def by metis+
qed

theorem swtch_resumes_witness:
  "regs (run (\<lambda>_ a. a) swtch_S ((run (\<lambda>_ a. a) swtch_S mach0)\<lparr>regs := (regs mach0)(A0 := 0x2000, A1 := 0x1000, SP := 0)\<rparr>)) SP = 0x9000"
proof -
  let ?st = "(run (\<lambda>_ a. a) swtch_S mach0)\<lparr>regs := (regs mach0)(A0 := 0x2000, A1 := 0x1000, SP := 0)\<rparr>"
  have "regs mach0 A0 = 0x1000" "regs mach0 A1 = 0x2000" "regs mach0 SP = 0x9000" by (simp_all add: mach0_def)
  then show ?thesis using swtch_resumes [of "\<lambda>_ a. a" mach0 ?st] apart0 by (simp add: direct_def)
qed



end
