(* ===== verification/Alarm.thy ===== *)
theory Alarm
  imports Trap Asm
begin

text \<open>
  The alarm: what usertrap does at a tick of a process with an alarm (\<open>alarm_tick\<close>), and sigreturn. The trapframe is
  saved in a page of its own when the handler is started, and sigreturn puts it back.
\<close>

section \<open>Pages\<close>

lemma kmem_write:
  assumes "kmem_ok s" "page_aligned y" "y \<notin> avail s" "\<And>a. \<not> in_page a y \<Longrightarrow> ram s' a = ram s a"
    "hw s' = hw s" "freelist s' = freelist s" "kend s' = kend s"
  shows "kmem_ok s'" "avail s' = avail s"
proof -
  obtain xs where xs: "kmem_list s xs" "avail s = set xs" using assms(1) by (rule kmem_ok_list)
  have "free_list (ram s') (freelist s) xs"
    by (rule free_list_frame [OF _ _ _ assms(2,4)]) (use xs assms(3) in \<open>auto simp: kmem_list_def page_ok_def\<close>)
  then have "kmem_list s' xs" using xs(1) assms(6,7) by (simp add: kmem_list_def)
  then show "kmem_ok s'" "avail s' = avail s" using assms(1,5) xs(2) avail_list by (auto simp: kmem_ok_def)
qed

lemma page_okD:
  assumes "page_ok e x"
  shows "page_aligned x" "unat x + 4096 < 2 ^ 64"
proof -
  have "unat x < unat PHYSTOP" using assms by (simp add: page_ok_def word_less_nat_alt)
  moreover have "unat PHYSTOP = 0x88000000" by (simp add: layout_defs)
  ultimately show "unat x + 4096 < 2 ^ 64" by simp
qed (use assms in \<open>simp add: page_ok_def\<close>)

lemma memmove_page:
  assumes "page_ok e dst" "page_ok e' src"
  shows "memmove dst src 4096 m a = (if in_page a dst then m (src + of_nat (off a dst)) else m a)"
  using memmove_apply [of src 4096 dst m a] page_okD [OF assms(1)] page_okD [OF assms(2)] by (simp add: in_page_def)

lemma get_bytes_eq_iff: "get_bytes a n m = get_bytes b n m' \<longleftrightarrow> (\<forall>i < n. m (a + of_nat i) = m' (b + of_nat i))"
  by (simp add: get_bytes_def list_eq_iff_nth_eq)

lemma memmove_page_bytes:
  assumes "page_ok e dst" "page_ok e' src"
  shows "get_bytes dst 4096 (memmove dst src 4096 m) = get_bytes src 4096 m"
  unfolding get_bytes_eq_iff
  by (simp add: memmove_page [OF assms] in_page_add unat_of_nat)

lemma page_bytes_frame:
  assumes "page_aligned x" "page_aligned y" "x \<noteq> y" "\<And>a. \<not> in_page a y \<Longrightarrow> m' a = m a"
  shows "get_bytes x 4096 m' = get_bytes x 4096 m"
  unfolding get_bytes_eq_iff using assms(4) other_page [OF assms(1-3)] in_page_add by blast

lemma tf_get_bytes:
  assumes "get_bytes a 4096 (ram s) = get_bytes b 4096 (ram t)"
  shows "tf_get a r s = tf_get b r t"
proof -
  have "tf_off r + 8 \<le> 4096" using tf_off_bound [of r] by (auto elim!: dvdE)
  then have "ram s (a + of_nat (tf_off r + i)) = ram t (b + of_nat (tf_off r + i))" if "i < 8" for i
    using assms [unfolded get_bytes_eq_iff, rule_format, of "tf_off r + i"] that by simp
  then show ?thesis unfolding tf_get_def load_def by (intro le_word_cong) (simp add: add.assoc)
qed

section \<open>The tick\<close>

text \<open>The process p is on this hart, and its trapframe is a page of the allocator that is in use.\<close>

definition alarm_ready :: "nat \<Rightarrow> 'z proc_state_scheme \<Rightarrow> bool" where
  "alarm_ready p s \<longleftrightarrow> running p (hw s) \<and> kmem_ok s \<and> page_ok (kend s) (p_trapframe (procs s p)) \<and>
     p_trapframe (procs s p) \<notin> avail s"

lemma tf_set_frame:
  assumes "page_ok e tf" "\<not> in_page a tf"
  shows "ram (tf_set tf r v s) a = ram s a"
proof -
  have b: "tf_off r + 8 \<le> 4096" using tf_off_bound [of r] by (auto elim!: dvdE)
  have "\<not> off a (tf + of_nat (tf_off r)) < 8"
  proof
    assume l: "off a (tf + of_nat (tf_off r)) < 8"
    have "a = tf + of_nat (tf_off r + off a (tf + of_nat (tf_off r)))" by simp
    moreover have "tf_off r + off a (tf + of_nat (tf_off r)) < 4096" using l b by simp
    ultimately have "in_page a tf" using in_page_add by metis
    with assms(2) show False by simp
  qed
  then show ?thesis by (simp add: tf_set_def store_apply)
qed

lemma tf_get_set:
  "tf_get tf q (tf_set tf r v s) = (if q = r then v else tf_get tf q s)"
proof -
  have "tf_regs ! (tf_off r div 8) = r" for r by (cases r) (simp_all add: tf_off_def tf_regs_def)
  then have "tf_off q \<noteq> tf_off r" if "q \<noteq> r" using that by metis
  then show ?thesis using slot_apart [of "tf_off q" "tf_off r" tf] slot_apart [of "tf_off r" "tf_off q" tf] tf_off_bound
    by (auto simp: tf_get_def tf_set_def load_store_same load_store_other)
qed

lemma alarm_tick_ok:
  fixes s :: "'z proc_state_scheme"
  assumes "alarm_ready p s" "avail s \<noteq> {}" "p_ticks (procs s p) \<noteq> 0"
  defines "tf \<equiv> p_trapframe (procs s p)"
  defines "due \<equiv> p_ticks (procs s p) dvd p_s_tcks (procs s p) + 1"
  obtains q s1 where "alarm_tick p s = Some s1" "q \<in> avail s" "avail s1 = avail s - {q}" "alarm_ready p s1"
    "procs s1 p = (procs s p)\<lparr>p_alarm_tf := q, p_s_tcks := p_s_tcks (procs s p) + 1,
       p_hlp := (if due then 0 else p_hlp (procs s p))\<rparr>"
    "kend s1 = kend s" "get_bytes q 4096 (ram s1) = get_bytes tf 4096 (ram s)"
    "\<And>r. tf_get tf r s1 = (if due \<and> r = TF_epc then p_handler (procs s p) else tf_get tf r s)"
proof -
  have ok: "kmem_ok s" "hart_ok (hw s)" "lock_free Lk_kmem (hw s)" "page_ok (kend s) tf" "tf \<notin> avail s"
    using assms(1) by (auto simp: alarm_ready_def tf_def kmem_ok_def)
  obtain xs where xs: "kmem_list s xs" "avail s = set xs" using ok(1) by (rule kmem_ok_list)
  then obtain q ys where q: "xs = q # ys" using assms(2) by (cases xs) auto
  let ?s0 = "s\<lparr>ram := memset q 5 4096 (ram s), freelist := load (ram s) q\<rparr>"
  have k: "kalloc s = Some (q, ?s0)" "kmem_list ?s0 ys" using kalloc_list_Cons [OF ok(2,3)] xs(1) q by simp_all
  have qq: "q \<in> avail s" "q \<noteq> 0" "page_ok (kend s) q" "q \<notin> set ys" "tf \<noteq> q" "avail ?s0 = avail s - {q}"
    using xs q ok(5) avail_list [OF k(2)] by (auto simp: kmem_list_def)
  define s1 where "s1 = upd_proc p (\<lambda>x. x\<lparr>p_alarm_tf := q, p_s_tcks := p_s_tcks x + 1\<rparr>) (?s0\<lparr>ram := memmove q tf 4096 (ram ?s0)\<rparr>)"
  define s2 where "s2 = (if due then upd_proc p (\<lambda>x. x\<lparr>p_hlp := 0\<rparr>) (tf_set tf TF_epc (p_handler (procs s p)) s1) else s1)"
  have a: "alarm_tick p s = Some s2"
    using k(1) qq(2) assms(3)
    by (simp add: alarm_tick_def s2_def s1_def tf_def due_def upd_proc_def dvd_eq_mod_eq_0 tf_set_def Let_def comp_def)
  have m: "ram s1 a = (if in_page a q then ram ?s0 (tf + of_nat (off a q)) else ram s a)" for a
    by (simp add: s1_def upd_proc_def memmove_page [OF qq(3) ok(4)] memset_page)
  have al: "page_aligned tf" "page_aligned q" using page_okD(1) [OF ok(4)] page_okD(1) [OF qq(3)] .
  have b0: "get_bytes tf 4096 (ram ?s0) = get_bytes tf 4096 (ram s)"
    by (rule page_bytes_frame [OF al qq(5)]) (simp add: memset_page)
  have b1: "get_bytes q 4096 (ram s1) = get_bytes tf 4096 (ram s)"
    using memmove_page_bytes [OF qq(3) ok(4), of "ram ?s0"] b0 by (simp add: s1_def upd_proc_def)
  have b2: "get_bytes tf 4096 (ram s1) = get_bytes tf 4096 (ram s)"
    by (rule page_bytes_frame [OF al qq(5)]) (simp add: m)
  have s2: "hw s2 = hw s" "kend s2 = kend s" "freelist s2 = freelist ?s0" "\<And>a. \<not> in_page a tf \<Longrightarrow> ram s2 a = ram s1 a"
    by (simp_all add: s2_def s1_def upd_proc_def tf_set_frame [OF ok(4)]) (simp_all add: tf_set_def)
  have k1: "kmem_ok ?s0" using k(2) ok(2,3) by (auto simp: kmem_ok_def)
  have k2: "kmem_ok s1" "avail s1 = avail ?s0"
    by (rule kmem_write [OF k1 al(2)]; use qq(6) m in \<open>simp add: s1_def upd_proc_def memset_page memmove_page [OF qq(3) ok(4)]\<close>)+
  have k3: "kmem_ok s2" "avail s2 = avail s - {q}"
    using kmem_write [OF k2(1) al(1), of s2] k2(2) qq(6) ok(5) s2 by (simp_all add: s1_def upd_proc_def)
  have "procs s2 p = (procs s p)\<lparr>p_alarm_tf := q, p_s_tcks := p_s_tcks (procs s p) + 1,
       p_hlp := (if due then 0 else p_hlp (procs s p))\<rparr>"
    by (simp add: s2_def s1_def upd_proc_def tf_set_def)
  moreover have "alarm_ready p s2" using assms(1) k3 ok(4,5) s2 calculation by (simp add: alarm_ready_def tf_def)
  moreover have "get_bytes q 4096 (ram s2) = get_bytes tf 4096 (ram s)"
    using page_bytes_frame [OF al(2,1) not_sym [OF qq(5)] s2(4)] b1 by simp
  moreover have "tf_get tf r s2 = (if due \<and> r = TF_epc then p_handler (procs s p) else tf_get tf r s)" for r
    using tf_get_bytes [OF b2, of r] by (simp add: s2_def) (simp add: tf_get_set [unfolded tf_get_def] tf_get_def upd_proc_def)
  ultimately show ?thesis using that a qq(1) k3(2) s2(2) by blast
qed

section \<open>sigreturn\<close>

lemma sys_sigreturn_ok:
  fixes s :: "'z proc_state_scheme"
  assumes "alarm_ready p s" "q = p_alarm_tf (procs s p)" "page_ok (kend s) q" "q \<notin> avail s" "q \<noteq> tf"
    "tf = p_trapframe (procs s p)"
  obtains s' where "sys_sigreturn s = Some (tf_get tf TF_a0 s', s')" "get_bytes tf 4096 (ram s') = get_bytes q 4096 (ram s)"
    "avail s' = insert q (avail s)" "procs s' p = (procs s p)\<lparr>p_hlp := 1\<rparr>" "hw s' = hw s"
proof -
  have ok: "kmem_ok s" "running p (hw s)" "page_ok (kend s) tf" "tf \<notin> avail s" using assms(1,6) by (auto simp: alarm_ready_def)
  have al: "page_aligned tf" "page_aligned q" using page_okD(1) [OF ok(3)] page_okD(1) [OF assms(3)] .
  define s1 where "s1 = s\<lparr>ram := memmove tf q 4096 (ram s)\<rparr>"
  have k: "kmem_ok s1" "avail s1 = avail s"
    by (rule kmem_write [OF ok(1) al(1) ok(4)]; simp add: s1_def memmove_page [OF ok(3) assms(3)])+
  have q: "page_ok (kend s1) q" "q \<notin> avail s1" using assms(3,4) k(2) by (simp_all add: s1_def)
  obtain s2 where s2: "kfree q s1 = Some s2" "avail s2 = insert q (avail s1)" using pa.free_page [OF k(1) q] by blast
  note f = kfree_frame [OF k(1) q s2(1)]
  have p: "procs s2 = procs s" using mem_frame_proc [OF kfree_mem_frame [OF s2(1)]] by (simp add: s1_def)
  let ?s = "upd_proc p (\<lambda>x. x\<lparr>p_hlp := 1\<rparr>) s2"
  have hw: "hw ?s = hw s" using f(3) by (simp add: upd_proc_def s1_def)
  have "sys_sigreturn s = Some (tf_get tf TF_a0 ?s, ?s)"
    using ok(2) s2(1) p hw assms(2,6) by (simp add: sys_sigreturn_def kstep s1_def)
  moreover have "get_bytes tf 4096 (ram s2) = get_bytes tf 4096 (ram s1)"
    by (rule page_bytes_frame [OF al not_sym [OF assms(5)] f(4)])
  then have "get_bytes tf 4096 (ram ?s) = get_bytes q 4096 (ram s)"
    using memmove_page_bytes [OF ok(3) assms(3), of "ram s"] by (simp add: s1_def upd_proc_def)
  moreover have "avail ?s = avail s2" by (simp add: avail_def kmem_list_def upd_proc_def)
  ultimately show ?thesis using that hw p s2(2) k(2) by (simp add: upd_proc_def)
qed

text \<open>After the handler, and whatever the process and the kernel did meanwhile: the copy of the trapframe is as it was.\<close>

definition handler_ran :: "nat \<Rightarrow> 'z proc_state_scheme \<Rightarrow> 'z proc_state_scheme \<Rightarrow> bool" where
  "handler_ran p s s' \<longleftrightarrow> alarm_ready p s' \<and> kend s' = kend s \<and> p_trapframe (procs s' p) = p_trapframe (procs s p) \<and>
     p_alarm_tf (procs s' p) = p_alarm_tf (procs s p) \<and> p_alarm_tf (procs s p) \<notin> avail s' \<and>
     get_bytes (p_alarm_tf (procs s p)) 4096 (ram s') = get_bytes (p_alarm_tf (procs s p)) 4096 (ram s)"

text \<open>C6: When the alarm of a process is due, usertrap makes the process go on in its handler, with every other
  register as it was. The handler can do what it likes to the registers: sigreturn puts every register of the
  trapframe back as it was when the alarm struck, the program counter included, returns the a0 of that moment, gives
  the page of the copy back to the allocator and re-arms the alarm.\<close>

theorem alarm_sigreturn_restores:
  fixes s :: "'z proc_state_scheme"
  assumes "alarm_ready p s" "avail s \<noteq> {}" "p_ticks (procs s p) \<noteq> 0" "p_ticks (procs s p) dvd p_s_tcks (procs s p) + 1"
    "tf = p_trapframe (procs s p)"
  shows "\<exists>s1. alarm_tick p s = Some s1 \<and> handler_ran p s1 s1 \<and> p_hlp (procs s1 p) = 0 \<and>
    (\<forall>r. tf_get tf r s1 = (if r = TF_epc then p_handler (procs s p) else tf_get tf r s)) \<and>
    (\<forall>s2. handler_ran p s1 s2 \<longrightarrow> (\<exists>s3. sys_sigreturn s2 = Some (tf_get tf TF_a0 s, s3) \<and>
       (\<forall>r. tf_get tf r s3 = tf_get tf r s) \<and> avail s3 = insert (p_alarm_tf (procs s1 p)) (avail s2) \<and>
       p_hlp (procs s3 p) = 1))"
proof -
  obtain q s1 where a: "alarm_tick p s = Some s1" "q \<in> avail s" "avail s1 = avail s - {q}" "alarm_ready p s1"
    "procs s1 p = (procs s p)\<lparr>p_alarm_tf := q, p_s_tcks := p_s_tcks (procs s p) + 1, p_hlp := 0\<rparr>"
    "kend s1 = kend s" "get_bytes q 4096 (ram s1) = get_bytes tf 4096 (ram s)"
    "\<And>r. tf_get tf r s1 = (if r = TF_epc then p_handler (procs s p) else tf_get tf r s)"
    by (rule alarm_tick_ok [OF assms(1-3)]) (use assms(4,5) in simp)
  have q: "page_ok (kend s) q" "q \<noteq> tf"
    using assms(1,5) a(2) pa.pages_valid [of s q] by (auto simp: alarm_ready_def)
  have "\<exists>s3. sys_sigreturn s2 = Some (tf_get tf TF_a0 s, s3) \<and> (\<forall>r. tf_get tf r s3 = tf_get tf r s) \<and>
      avail s3 = insert q (avail s2) \<and> p_hlp (procs s3 p) = 1" if "handler_ran p s1 s2" for s2
  proof -
    have h: "alarm_ready p s2" "q = p_alarm_tf (procs s2 p)" "page_ok (kend s2) q" "q \<notin> avail s2"
      "tf = p_trapframe (procs s2 p)" "get_bytes q 4096 (ram s2) = get_bytes tf 4096 (ram s)"
      using that a(5-7) q(1) assms(5) by (simp_all add: handler_ran_def)
    obtain s3 where s3: "sys_sigreturn s2 = Some (tf_get tf TF_a0 s3, s3)" "get_bytes tf 4096 (ram s3) = get_bytes q 4096 (ram s2)"
      "avail s3 = insert q (avail s2)" "procs s3 p = (procs s2 p)\<lparr>p_hlp := 1\<rparr>"
      by (rule sys_sigreturn_ok [OF h(1-4) q(2) h(5)])
    have "tf_get tf r s3 = tf_get tf r s" for r by (rule tf_get_bytes) (simp add: s3(2) h(6))
    with s3 show ?thesis by simp
  qed
  moreover have "handler_ran p s1 s1" using a(3-5) by (simp add: handler_ran_def)
  ultimately show ?thesis using a(1,5,8) by auto
qed

definition alarm0 :: proc_state where
  "alarm0 = proc0\<lparr>freelist := 0x8004d000, procs := table0(1 := (table0 1)\<lparr>p_trapframe := 0x8004e000, p_ticks := 2,
     p_s_tcks := 1, p_handler := 0x40\<rparr>)\<rparr>"

lemma alarm0_list: "kmem_list alarm0 [0x8004d000]"
  using kmem0_list by (simp add: kmem_list_def alarm0_def kmem0_def proc0_def)

lemma alarm0_ready: "alarm_ready 1 alarm0" "avail alarm0 = {0x8004d000}"
proof -
  have hw: "hw alarm0 = upd_cpu (\<lambda>c. c\<lparr>cproc := Some 1\<rparr>) hart0" by (simp add: alarm0_def proc0_def)
  show a: "avail alarm0 = {0x8004d000}" using avail_list [OF alarm0_list] by simp
  have "kmem_ok alarm0" using alarm0_list hw by (auto simp: kmem_ok_def)
  then show "alarm_ready 1 alarm0" unfolding alarm_ready_def a using hw running_sl0
    by (simp add: alarm0_def proc0_def page_ok_def page_aligned_def layout_defs)
qed

theorem alarm_sigreturn_restores_witness:
  "\<exists>s1 s3. alarm_tick 1 alarm0 = Some s1 \<and> tf_get 0x8004e000 TF_epc s1 = 0x40 \<and>
    sys_sigreturn s1 = Some (tf_get 0x8004e000 TF_a0 alarm0, s3) \<and>
    tf_get 0x8004e000 TF_epc s3 = tf_get 0x8004e000 TF_epc alarm0"
proof -
  have "procs alarm0 1 = (table0 1)\<lparr>p_trapframe := 0x8004e000, p_ticks := 2, p_s_tcks := 1, p_handler := 0x40\<rparr>"
    by (simp add: alarm0_def)
  then have p: "avail alarm0 \<noteq> {}" "p_ticks (procs alarm0 1) \<noteq> 0" "p_ticks (procs alarm0 1) dvd p_s_tcks (procs alarm0 1) + 1"
    "0x8004e000 = p_trapframe (procs alarm0 1)" "p_handler (procs alarm0 1) = 0x40"
    using alarm0_ready(2) by simp_all
  obtain s1 where s1: "alarm_tick 1 alarm0 = Some s1" "handler_ran 1 s1 s1"
    "\<forall>r. tf_get 0x8004e000 r s1 = (if r = TF_epc then p_handler (procs alarm0 1) else tf_get 0x8004e000 r alarm0)"
    "\<forall>s2. handler_ran 1 s1 s2 \<longrightarrow> (\<exists>s3. sys_sigreturn s2 = Some (tf_get 0x8004e000 TF_a0 alarm0, s3) \<and>
       (\<forall>r. tf_get 0x8004e000 r s3 = tf_get 0x8004e000 r alarm0) \<and> avail s3 = insert (p_alarm_tf (procs s1 1)) (avail s2) \<and>
       p_hlp (procs s3 1) = 1)"
    using alarm_sigreturn_restores [OF alarm0_ready(1) p(1-4)] by (elim exE conjE)
  then show ?thesis using p(5) by auto
qed

text \<open>A tick at which the alarm is not due takes a page too, and the next one overwrites the only pointer to it.\<close>

lemma alarm_tick_leaks:
  fixes s :: "'z proc_state_scheme"
  assumes "alarm_ready p s" "avail s \<noteq> {}" "p_ticks (procs s p) \<noteq> 0" "\<not> p_ticks (procs s p) dvd p_s_tcks (procs s p) + 1"
  shows "\<exists>s1 q. alarm_tick p s = Some s1 \<and> q \<in> avail s \<and> avail s1 = avail s - {q} \<and> p_alarm_tf (procs s1 p) = q \<and>
    p_hlp (procs s1 p) = p_hlp (procs s p)"
  by (rule alarm_tick_ok [OF assms(1-3)]) (use assms(4) in auto)

text \<open>sigreturn in a process that has no copy of its trapframe panics in kfree.\<close>

lemma sys_sigreturn_panics:
  assumes "running p (hw s)" "p_alarm_tf (procs s p) = 0" "0 < kend s"
  shows "sys_sigreturn s = None"
proof -
  have "kfree 0 t = None" if "kend t = kend s" for t :: "'a proc_state_scheme"
    using assms(3) that by (simp add: kfree_def)
  then show ?thesis using assms by (simp add: sys_sigreturn_def kstep)
qed

end
