(* ===== verification/Clock.thy ===== *)
theory Clock
  imports Trap
begin

text \<open>
  Time: the clock interrupt and sys_sleep. While a process sleeps on the ticks, the clock interrupts the hart, which is
  in the scheduler then; \<open>waits_for_tick\<close> says of the parameter \<open>sw\<close> that this is what happens until the process runs
  again.
\<close>

section \<open>The clock interrupt\<close>

text \<open>A tick, for one process: a running process is charged, one that sleeps on the ticks is woken.\<close>

definition tick :: "nat option \<Rightarrow> nat \<Rightarrow> proc \<Rightarrow> proc" where
  "tick me i x = wake me (Some Ch_ticks) i (if p_state x = RUNNING then x\<lparr>p_rtime := p_rtime x + 1\<rparr> else x)"

lemma ticks_map_procs [simp]: "ticks (map_procs f s) = ticks s"
  by (simp add: map_procs_def)

lemma clockintr_ok:
  assumes "hart_ok (hw s)" "\<And>l. lock_free l (hw s)"
  shows "clockintr s = Some (map_procs (tick (cproc (mycpu (hw s)))) (s\<lparr>ticks := ticks s + 1\<rparr>))"
proof -
  have "plocks_free (hw s)" using assms(2) by (simp add: plocks_free_def)
  then show ?thesis using assms
    by (simp add: clockintr_def kstep plocks_free_acq) (simp add: map_procs_def tick_def fun_eq_iff)
qed

definition tick_wait :: "nat \<Rightarrow> hart \<Rightarrow> 'z proc_state_scheme \<Rightarrow> 'z proc_state_scheme option" where
  "tick_wait p h s = do {
     s \<leftarrow> clockintr (s\<lparr>hw := upd_cpu (\<lambda>c. c\<lparr>cproc := None\<rparr>) h\<rparr>);
     if p_state (procs s p) = RUNNABLE
     then Some (upd_proc p (\<lambda>x. x\<lparr>p_state := RUNNING\<rparr>) (s\<lparr>hw := acq (Lk_proc p) h\<rparr>))
     else None }"

definition waits_for_tick :: "('z proc_state_scheme \<Rightarrow> 'z proc_state_scheme option) \<Rightarrow> bool" where
  "waits_for_tick sw \<longleftrightarrow> (\<forall>s p h. running p h \<longrightarrow> hw s = acq (Lk_proc p) h \<longrightarrow>
     p_state (procs s p) = SLEEPING \<longrightarrow> p_chan (procs s p) = Some Ch_ticks \<longrightarrow> sw s = tick_wait p h s)"

lemma tick_wait_ok:
  assumes "running p h" "p_state (procs s p) = SLEEPING" "p_chan (procs s p) = Some Ch_ticks"
  shows "tick_wait p h s = Some (upd_proc p (\<lambda>x. x\<lparr>p_state := RUNNING\<rparr>)
    (map_procs (tick None) (s\<lparr>ticks := ticks s + 1, hw := acq (Lk_proc p) h\<rparr>)))"
proof -
  let ?h = "upd_cpu (\<lambda>c. c\<lparr>cproc := None\<rparr>) h"
  have h: "hart_ok ?h" "\<And>l. lock_free l ?h" "cproc (mycpu ?h) = None" using assms(1) by (simp_all add: cproc_upd_simps)
  have "clockintr (s\<lparr>hw := ?h\<rparr>) = Some (map_procs (tick None) (s\<lparr>hw := ?h, ticks := ticks s + 1\<rparr>))"
    using h by (subst clockintr_ok) simp_all
  then show ?thesis using assms by (simp add: tick_wait_def tick_def wake_def)
qed

section \<open>sys_sleep\<close>

text \<open>One round of the loop of sys_sleep: the process is back, with the lock, one tick later.\<close>

lemma sleep_tick:
  assumes "waits_for_tick sw" "running p h" "hw s = acq Lk_ticks h"
  shows "\<exists>s'. sleep sw Ch_ticks Lk_ticks s = Some s' \<and> hw s' = acq Lk_ticks h \<and> ticks s' = ticks s + 1 \<and>
    p_killed (procs s' p) = p_killed (procs s p) \<and> p_state (procs s' p) = RUNNING"
proof -
  let ?s1 = "upd_proc p (\<lambda>x. x\<lparr>p_chan := Some Ch_ticks, p_state := SLEEPING\<rparr>) (s\<lparr>hw := acq (Lk_proc p) h\<rparr>)"
  have w: "sw ?s1 = Some (upd_proc p (\<lambda>x. x\<lparr>p_state := RUNNING\<rparr>)
      (map_procs (tick None) (?s1\<lparr>ticks := ticks ?s1 + 1, hw := acq (Lk_proc p) h\<rparr>)))"
    using assms(1,2) tick_wait_ok [OF assms(2), of ?s1] by (simp add: waits_for_tick_def upd_proc_def)
  show ?thesis
    using assms(2,3) w by (subst sleep_eq [where h = h and p = p]) (simp_all add: kstep intena_same upd_proc_def tick_def wake_def)
qed

lemma sys_sleep_loop_ok:
  assumes "waits_for_tick sw" "running p h"
  shows "hw s = acq Lk_ticks h \<Longrightarrow> p_killed (procs s p) = 0 \<Longrightarrow> ticks s - t0 \<le> word_of_int n \<Longrightarrow>
    \<exists>s'. sys_sleep_loop sw t0 n s = Some (0, s') \<and> ticks s' = t0 + word_of_int n \<and> hw s' = h \<and> p_killed (procs s' p) = 0"
proof (induction "unat (word_of_int n - (ticks s - t0))" arbitrary: s rule: less_induct)
  case less
  have ok: "hart_ok h" "lock_free Lk_ticks h" "cproc (mycpu h) = Some p" "lock_free (Lk_proc p) h" using assms(2) by simp_all
  show ?case
  proof (cases "ticks s - t0 < word_of_int n")
    case True
    obtain s1 where s1: "sleep sw Ch_ticks Lk_ticks s = Some s1" "hw s1 = acq Lk_ticks h" "ticks s1 = ticks s + 1"
      "p_killed (procs s1 p) = 0"
      using sleep_tick [OF assms less.prems(1)] less.prems(2) by auto
    have d: "ticks s1 - t0 = (ticks s - t0) + 1" using s1(3) by simp
    have le: "ticks s1 - t0 \<le> word_of_int n" unfolding d using True by (simp add: inc_le)
    have "unat (word_of_int n - (ticks s1 - t0)) < unat (word_of_int n - (ticks s - t0))"
    proof -
      have u: "unat (ticks s - t0) + 1 \<le> unat (word_of_int n :: u32)" using True by (simp add: word_less_nat_alt)
      then have "unat (ticks s - t0 + 1) = unat (ticks s - t0) + 1"
        using unat_bound [of "word_of_int n :: u32"] by (simp add: unat_word_ariths)
      then show ?thesis unfolding d using True le d u by (simp add: unat_sub word_less_nat_alt word_le_nat_alt)
    qed
    from less.hyps [OF this s1(2,4) le] show ?thesis
      using True s1(1) less.prems(1,2) ok by (subst sys_sleep_loop.simps) (simp add: kstep)
  next
    case False
    then have "ticks s = t0 + word_of_int n" using less.prems(3) by (simp add: algebra_simps)
    then show ?thesis using False less.prems(1,2) ok by (subst sys_sleep_loop.simps) (simp add: kstep)
  qed
qed


text \<open>A hart where only the clock runs besides the process.\<close>

definition sw_tick :: "'z proc_state_scheme \<Rightarrow> 'z proc_state_scheme option" where
  "sw_tick s = do {
     p \<leftarrow> cproc (mycpu (hw s));
     t \<leftarrow> unlock (Lk_proc p) s;
     tick_wait p (hw t) s }"

lemma waits_sw_tick: "waits_for_tick sw_tick"
  unfolding waits_for_tick_def
proof (intro allI impI)
  fix s :: "'a proc_state_scheme" and p h
  assume a: "running p h" "hw s = acq (Lk_proc p) h"
  then have "unlock (Lk_proc p) s = Some (s\<lparr>hw := h\<rparr>)" by (intro unlock_ok) simp_all
  with a show "sw_tick s = tick_wait p h s" by (simp add: sw_tick_def)
qed

definition sleep0 :: proc_state where
  "sleep0 = tf_set 0x8004e000 TF_a0 3 (proc0\<lparr>ticks := 0xffffffff, procs := table0(1 := (table0 1)\<lparr>p_trapframe := 0x8004e000\<rparr>)\<rparr>)"


end
