(* ===== verification/Fdtab.thy ===== *)
theory Fdtab
  imports Sysfile
begin

text \<open>
  File descriptors: the reference count of an open file is the number of descriptors, over all processes, that refer to
  it, and dup, close and fork keep it so.
\<close>

section \<open>References\<close>

definition fd_refs :: "'z file_state_scheme \<Rightarrow> nat \<Rightarrow> nat" where
  "fd_refs s f = (\<Sum>p < NPROC. count_list (p_ofile (procs s p)) (Some f))"

definition fds_ok :: "'z file_state_scheme \<Rightarrow> bool" where
  "fds_ok s \<longleftrightarrow> (\<forall>p < NPROC. length (p_ofile (procs s p)) = NOFILE \<and> (\<forall>f. Some f \<in> set (p_ofile (procs s p)) \<longrightarrow> f < NFILE)) \<and>
     (\<forall>f < NFILE. f_ref (ftable s f) = int (fd_refs s f))"

lemma count_list_update:
  "i < length xs \<Longrightarrow> count_list (xs[i := v]) x + of_bool (xs ! i = x) = count_list xs x + of_bool (v = x)"
proof (induction xs arbitrary: i)
  case (Cons y ys)
  show ?case
  proof (cases i)
    case (Suc j)
    then show ?thesis using Cons.IH [of j] Cons.prems by auto
  qed simp
qed simp

lemma fd_refs_set:
  assumes "p < NPROC" "i < length (p_ofile (procs s p))"
  shows "fd_refs (set_fd p i v s) f + of_bool (p_ofile (procs s p) ! i = Some f) = fd_refs s f + of_bool (v = Some f)"
proof -
  let ?c = "\<lambda>s q. count_list (p_ofile (procs s q)) (Some f)"
  have r: "fd_refs t f = ?c t p + (\<Sum>q \<in> {..<NPROC} - {p}. ?c t q)" for t
    unfolding fd_refs_def by (rule sum.remove) (use assms(1) in simp_all)
  have "(\<Sum>q \<in> {..<NPROC} - {p}. ?c (set_fd p i v s) q) = (\<Sum>q \<in> {..<NPROC} - {p}. ?c s q)"
    by (rule sum.cong) (simp_all add: set_fd_def upd_proc_def)
  then show ?thesis using count_list_update [OF assms(2), of v "Some f"] by (simp add: r set_fd_def upd_proc_def)
qed

lemma fds_okD:
  assumes "fds_ok s" "p < NPROC"
  shows "length (p_ofile (procs s p)) = NOFILE"
    "i < NOFILE \<Longrightarrow> p_ofile (procs s p) ! i = Some f \<Longrightarrow> f < NFILE \<and> 1 \<le> f_ref (ftable s f)"
proof -
  show l: "length (p_ofile (procs s p)) = NOFILE" using assms by (simp add: fds_ok_def)
  assume i: "i < NOFILE" "p_ofile (procs s p) ! i = Some f"
  then have m: "Some f \<in> set (p_ofile (procs s p))" using l by (metis nth_mem)
  then have "0 < count_list (p_ofile (procs s p)) (Some f)" by (simp add: count_list_0_iff flip: neq0_conv)
  then have "0 < fd_refs s f" using assms(2) unfolding fd_refs_def by (intro sum_pos2 [of _ p]) simp_all
  moreover have "f < NFILE" using assms m by (auto simp: fds_ok_def)
  ultimately show "f < NFILE \<and> 1 \<le> f_ref (ftable s f)" using assms(1) by (simp add: fds_ok_def)
qed

text \<open>One descriptor is changed, and the reference counts with it.\<close>

lemma fds_ok_set:
  fixes s t :: "'z file_state_scheme"
  assumes "fds_ok s" "p < NPROC" "i < NOFILE" "\<And>f. v = Some f \<Longrightarrow> f < NFILE" "procs t = procs (set_fd p i v s)"
    "\<And>f. f_ref (ftable t f) = f_ref (ftable s f) + of_bool (v = Some f) - of_bool (p_ofile (procs s p) ! i = Some f)"
  shows "fds_ok t"
proof -
  have l: "i < length (p_ofile (procs s p))" using fds_okD(1) [OF assms(1,2)] assms(3) by simp
  have "fd_refs t f = fd_refs (set_fd p i v s) f" for f by (simp add: fd_refs_def assms(5))
  then have "int (fd_refs t f) = int (fd_refs s f) + of_bool (v = Some f) - of_bool (p_ofile (procs s p) ! i = Some f)" for f
    using arg_cong [OF fd_refs_set [OF assms(2) l, of v f], of int] by (simp del: of_nat_eq_iff)
  moreover have "Some f \<in> set ((p_ofile (procs s p))[i := v]) \<Longrightarrow> f < NFILE" for f
    using set_update_subset_insert [of "p_ofile (procs s p)" i v] assms(1,2,4) by (auto simp: fds_ok_def)
  ultimately show ?thesis using assms(1,6) unfolding fds_ok_def
    by (simp add: assms(5)) (simp add: set_fd_def upd_proc_def)
qed

lemma upd_file_simps [simp]:
  "procs (upd_file f u s) = procs s" "hw (upd_file f u s) = hw s" "ftable (upd_file f u s) = (ftable s)(f := u (ftable s f))"
  "ram (upd_file f u s) = ram s" "pipes (upd_file f u s) = pipes s" "(upd_file f u s)\<lparr>hw := h\<rparr> = upd_file f u (s\<lparr>hw := h\<rparr>)"
  by (simp_all add: upd_file_def)

lemma set_fd_simps [simp]:
  "hw (set_fd p i v s) = hw s" "ram (set_fd p i v s) = ram s" "ftable (set_fd p i v t) = ftable t" "pipes (set_fd p i v t) = pipes t"
  "(set_fd p i v s)\<lparr>hw := h\<rparr> = set_fd p i v (s\<lparr>hw := h\<rparr>)"
  by (simp_all add: set_fd_def upd_proc_def)

section \<open>dup, close, fork\<close>

lemma filedup_ok:
  assumes "hart_ok (hw s)" "lock_free Lk_ftable (hw s)" "1 \<le> f_ref (ftable s f)"
  shows "filedup f s = Some (f, upd_file f (\<lambda>x. x\<lparr>f_ref := f_ref x + 1\<rparr>) s)"
  using assms by (simp add: filedup_def kstep)

definition arg_fd :: "nat \<Rightarrow> 'z file_state_scheme \<Rightarrow> (nat \<times> nat) option" where
  "arg_fd p s = (let fd = sint (ucast (tf_get (p_trapframe (procs s p)) TF_a0 s) :: u32) in
     if fd < 0 \<or> fd \<ge> int NOFILE then None else map_option (Pair (nat fd)) (p_ofile (procs s p) ! nat fd))"

lemma argfd_ok: "running p (hw s) \<Longrightarrow> argfd 0 s = Some (arg_fd p s, s)"
  by (simp add: argfd_def argint_def argraw_def arg_fd_def kstep Let_def split: option.splits)

lemma arg_fdD:
  assumes "arg_fd p s = Some (fd, f)"
  shows "fd < NOFILE" "p_ofile (procs s p) ! fd = Some f"
  using assms by (auto simp: arg_fd_def Let_def split: if_splits)

text \<open>The lowest free descriptor.\<close>

definition free_fd :: "nat \<Rightarrow> 'z file_state_scheme \<Rightarrow> nat option" where
  "free_fd p s = find (\<lambda>fd. p_ofile (procs s p) ! fd = None) [0..<NOFILE]"

lemma free_fdD:
  assumes "free_fd p s = Some fd"
  shows "fd < NOFILE" "p_ofile (procs s p) ! fd = None"
  using assms by (auto simp: free_fd_def find_Some_iff)

lemma sys_dup_ok:
  fixes s :: "'z file_state_scheme"
  assumes "fds_ok s" "running p (hw s)"
  shows "case (arg_fd p s, free_fd p s) of
      (Some (fd, f), Some new) \<Rightarrow> \<exists>s'. sys_dup s = Some (of_nat new, s') \<and> fds_ok s' \<and>
        p_ofile (procs s' p) = (p_ofile (procs s p))[new := Some f] \<and> (\<forall>q. q \<noteq> p \<longrightarrow> procs s' q = procs s q)
    | _ \<Rightarrow> sys_dup s = Some (-1, s)"
proof (cases "arg_fd p s")
  case None
  then show ?thesis using argfd_ok [OF assms(2)] by (simp add: sys_dup_def)
next
  case (Some a)
  obtain fd f where a: "arg_fd p s = Some (fd, f)" using Some by (cases a) simp
  note f = arg_fdD [OF a]
  have p: "p < NPROC" using assms(2) by simp
  have r: "f < NFILE" "1 \<le> f_ref (ftable s f)" using fds_okD(2) [OF assms(1) p f] by simp_all
  show ?thesis
  proof (cases "free_fd p s")
    case None
    then show ?thesis using a argfd_ok [OF assms(2)] assms(2) by (simp add: sys_dup_def fdalloc_def kstep free_fd_def)
  next
    case (Some new)
    note n = free_fdD [OF Some]
    let ?s = "upd_file f (\<lambda>x. x\<lparr>f_ref := f_ref x + 1\<rparr>) (set_fd p new (Some f) s)"
    have "sys_dup s = Some (of_nat new, ?s)"
      using a Some argfd_ok [OF assms(2)] assms(2) filedup_ok [of "set_fd p new (Some f) s" f] r(2)
      by (simp add: sys_dup_def fdalloc_def kstep free_fd_def)
    moreover have "fds_ok ?s" by (rule fds_ok_set [OF assms(1) p n(1)]) (use r(1) n(2) in auto)
    ultimately show ?thesis using a Some by (simp add: set_fd_def upd_proc_def)
  qed
qed

lemma sys_close_ok:
  fixes s :: "'z file_state_scheme"
  assumes "fds_ok s" "running p (hw s)"
  shows "case arg_fd p s of None \<Rightarrow> sys_close sw s = Some (-1, s)
    | Some (fd, f) \<Rightarrow> 1 < f_ref (ftable s f) \<longrightarrow> (\<exists>s'. sys_close sw s = Some (0, s') \<and> fds_ok s' \<and>
        p_ofile (procs s' p) = (p_ofile (procs s p))[fd := None] \<and> (\<forall>q. q \<noteq> p \<longrightarrow> procs s' q = procs s q))"
proof (cases "arg_fd p s")
  case None
  then show ?thesis using argfd_ok [OF assms(2)] by (simp add: sys_close_def)
next
  case (Some a)
  obtain fd f where a: "arg_fd p s = Some (fd, f)" using Some by (cases a) simp
  note f = arg_fdD [OF a]
  have p: "p < NPROC" using assms(2) by simp
  let ?s = "upd_file f (\<lambda>x. x\<lparr>f_ref := f_ref x - 1\<rparr>) (set_fd p fd None s)"
  have "sys_close sw s = Some (0, ?s)" if "1 < f_ref (ftable s f)"
    using a argfd_ok [OF assms(2)] assms(2) that by (simp add: sys_close_def fileclose_def kstep)
  moreover have "fds_ok ?s" by (rule fds_ok_set [OF assms(1) p f(1)]) (use f(2) in auto)
  ultimately show ?thesis using a by (auto simp: set_fd_def upd_proc_def)
qed

lemma fork_dup_ok:
  fixes s :: "'z file_state_scheme"
  assumes "fds_ok s" "hart_ok (hw s)" "lock_free Lk_ftable (hw s)" "p < NPROC" "np < NPROC" "p \<noteq> np"
    "p_ofile (procs s np) = replicate NOFILE None"
  shows "\<exists>s'. for_n 0 NOFILE (fork_dup p np) s = Some s' \<and> fds_ok s' \<and> hw s' = hw s \<and>
    p_ofile (procs s' np) = p_ofile (procs s p) \<and> (\<forall>q. q \<noteq> np \<longrightarrow> procs s' q = procs s q)"
proof -
  let ?I = "\<lambda>j t. fds_ok t \<and> hw t = hw s \<and> (\<forall>q. q \<noteq> np \<longrightarrow> procs t q = procs s q) \<and>
    (\<forall>i < NOFILE. p_ofile (procs t np) ! i = (if i < j then p_ofile (procs s p) ! i else None))"
  have "\<exists>s'. for_n 0 NOFILE (fork_dup p np) s = Some s' \<and> ?I (0 + NOFILE) s'"
  proof (rule for_n_total [where I = ?I])
    fix j t assume j: "j < 0 + NOFILE" and I: "?I j t"
    then have t: "fds_ok t" "hw t = hw s" "procs t p = procs s p" "p_ofile (procs t np) ! j = None" using assms(6) by auto
    have l: "length (p_ofile (procs t np)) = NOFILE" using fds_okD(1) [OF t(1) assms(5)] .
    show "\<exists>s'. fork_dup p np j t = Some s' \<and> ?I (Suc j) s'"
    proof (cases "p_ofile (procs s p) ! j")
      case None
      then show ?thesis using I t(3) by (auto simp: fork_dup_def less_Suc_eq)
    next
      case (Some f)
      then have f: "f < NFILE" "1 \<le> f_ref (ftable t f)" using fds_okD(2) [OF t(1) assms(4), of j f] j t(3) by simp_all
      let ?s = "set_fd np j (Some f) (upd_file f (\<lambda>x. x\<lparr>f_ref := f_ref x + 1\<rparr>) t)"
      have "fork_dup p np j t = Some ?s"
        using filedup_ok [of t f] f(2) assms(2,3) t Some by (simp add: fork_dup_def set_fd_def)
      moreover have "fds_ok ?s" by (rule fds_ok_set [OF t(1) assms(5), of j "Some f"]) (use j f(1) t(4) in \<open>auto simp: set_fd_def upd_proc_def\<close>)
      ultimately show ?thesis using I j l Some by (auto simp: set_fd_def upd_proc_def less_Suc_eq nth_list_update)
    qed
  qed (use assms(1,7) in simp)
  then obtain s' where s': "for_n 0 NOFILE (fork_dup p np) s = Some s'" "?I NOFILE s'" by auto
  have "p_ofile (procs s' np) = p_ofile (procs s p)"
    using s'(2) fds_okD(1) [OF _ assms(5), of s'] fds_okD(1) [OF assms(1,4)] by (auto intro: nth_equalityI)
  with s' show ?thesis by auto
qed


text \<open>Process 1 has file 7 open as descriptor 0, and calls dup(0).\<close>

definition fd0 :: file_state where
  "fd0 = file0\<lparr>ftable := (ftable file0)(7 := (ftable file0 7)\<lparr>f_ref := 1\<rparr>), ram := (\<lambda>_. 0),
     procs := table0(1 := (table0 1)\<lparr>p_ofile := Some 7 # replicate 15 None\<rparr>)\<rparr>"

lemma ofile_table0: "p_ofile (table0 p) = replicate NOFILE None"
  by (simp add: table0_def proc_nil_def NOFILE_def)

lemma fd0_ok: "fds_ok fd0" "running 1 (hw fd0)" "arg_fd 1 fd0 = Some (0, 7)" "free_fd 1 fd0 = Some 1"
proof -
  have r: "f_ref (ftable file0 f) = 0" for f by (simp add: file0_def file_state.defs tty_state.defs)
  have "fds_ok (file0\<lparr>procs := table0\<rparr>)" by (simp add: fds_ok_def fd_refs_def ofile_table0 r count_list_0_iff)
  then show "fds_ok fd0"
    by (rule fds_ok_set [of _ 1 0 "Some 7"])
      (simp_all add: fd0_def r ofile_table0 NPROC_def NOFILE_def NFILE_def set_fd_def upd_proc_def numeral_eq_Suc)
  show "running 1 (hw fd0)" using file0_ok(1) by (simp add: fd0_def)
  show "arg_fd 1 fd0 = Some (0, 7)" by (simp add: arg_fd_def fd0_def tf_get_def load_def le_word_def le_nat_def NOFILE_def)
  show "free_fd 1 fd0 = Some 1" by (simp add: free_fd_def fd0_def NOFILE_def upt_rec)
qed


end
