(* ===== verification/Spec2Isabelle.thy ===== *)
theory Spec2Isabelle
  imports Boot Alarm Clock Fdtab
begin

text \<open>
  Verification of the xv6 kernel for RISC-V in src/initial-xv6/src/kernel, with its three schedulers (round robin,
  lottery, multi-level feedback queue), its alarms and its system call counts.

  \<^bold>\<open>The program.\<close> A monolithic kernel. Machine-mode code (entry.S, start.c) enters main.c on every hart; main
  sets up the parts below and ends in the scheduler of proc.c, which switches to processes with swtch.S. A process
  enters the kernel through trampoline.S and trap.c, which runs a system call (syscall.c, sysproc.c, sysfile.c), a
  device interrupt (plic.c, uart.c, virtio_disk.c) or the clock, and returns the same way. System calls on files go
  through file.c to pipes (pipe.c), to the console (console.c) or to the file system (fs.c), which changes the disk only
  through the write-ahead log (log.c), the buffer cache (bio.c) and the disk driver (virtio_disk.c). Everything rests on
  the page allocator (kalloc.c), page tables (vm.c), spin locks (spinlock.c) and sleep locks (sleeplock.c).

  \<^bold>\<open>The state.\<close> The globals of the kernel are one record, extended theory by theory: \<open>kbase\<close> (the harts and all
  spin locks), \<open>kmem_state\<close> (memory, free list), \<open>vm_state\<close> (kernel page table, satp), \<open>con_state\<close> (printf), \<open>proc_state\<close>
  (process table, ticks, MLFQ counters and log), \<open>sl_state\<close> (sleep locks), \<open>disk_state\<close> (virtqueue, buffers, the disk),
  \<open>log_state\<close>, \<open>fs_state\<close> (super block, inode table), \<open>tty_state\<close> (console and UART), \<open>file_state\<close> (open files, pipes),
  \<open>trap_state\<close> (control registers, PLIC) and \<open>boot_state\<close>. An operation has the type of the smallest record it needs, and so
  applies to all larger ones. It returns \<open>None\<close> when the code panics, loops for ever or does something that C leaves
  undefined; an error the code reports is a value. Machine integers are words where they can wrap; ints that the code
  only counts with are int. Page tables, the free list and trapframes live in a byte-addressed memory; other objects are
  kept typed, and are indexed as in the code (a pointer to an element of a table is its index, the null pointer \<open>None\<close>).

  \<^bold>\<open>Switching.\<close> A function that can sleep has a parameter \<open>sw\<close>: what happens between a process giving up its hart in
  sched() and running again. Theorems say of it what they need: \<open>waits_for_disk\<close> and \<open>waits_for_tick\<close> are the device, or the
  clock, being served by the interrupt handlers of the model meanwhile, the scheduler theorems ask that a process comes
  back on the same hart. \<open>sw_disk\<close>, \<open>sw_tick\<close> and \<open>sw_yield\<close> are functions that have these properties. Locks themselves are
  also modelled as step systems in which all harts, or all processes, interleave.

  \<^bold>\<open>Theories.\<close>
  \<^item> Prelude: loops over ranges (\<open>for_n\<close>, \<open>search_n\<close>), the option monad, words, the collection \<open>kstep\<close>.
  \<^item> Spinlock (spinlock.c, struct cpu of proc.h): acquire, release, push_off, pop_off as functions and as the interleaved
    step system \<open>lk_step\<close>; mutual exclusion, interrupts off while nested, the functions are runs of the steps.
  \<^item> Cmem (string.c, macros of riscv.h and memlayout.h): words in memory, memmove and the others, also for overlapping
    regions.
  \<^item> Kalloc (kalloc.c): the free list as a set of pages; an interface \<open>page_allocator\<close> that kalloc and kfree implement.
  \<^item> Vm (vm.c, page tables of proc.c) and Vmcopy: walk, mappages, uvmcopy and the others; copyin, copyout read and write
    exactly the mapped range, or fail.
  \<^item> Printf (printf.c): printf prints what its format stands for; numbers read back.
  \<^item> Proc (proc.c, proc.h): process table, wait, kill, sleep and wakeup; ids stay unique, wait reaps a zombie.
  \<^item> Sched (the schedulers of proc.c): one round of each policy; who is dispatched, aging, the range of the queues.
  \<^item> Sleeplock (sleeplock.c), Virtio (virtio_disk.c), Bio (bio.c): no lost wakeup; a transfer moves the block; the linked
    list of buffers refines a list in order of use.
  \<^item> Log and Logtxn (log.c): durability of a finished operation; atomicity of commit for a crash after any number of disk
    writes.
  \<^item> Fs (fs.c) with Fsblock, Fsfile, Fsio: the allocator of disk blocks, the blocks of a file, and that what writei writes
    readi reads.
  \<^item> Ring and Console (console.c, uart.c): a ring buffer with counters that wrap is a queue (locale \<open>fifo\<close>, interpreted for
    the UART and for pipes); line editing refines an editor on lists; output in order.
  \<^item> File (file.c, pipe.c), Life (fork, exit and userinit of proc.c), Exec (exec.c, elf.h): pipes carry the bytes written; an
    exiting process hands over its children and wakes its parent.
  \<^item> Sysproc (sysproc.c, arguments of syscall.c), Sysfile (sysfile.c), Fdtab: every system call; the reference counts of open
    files are exact.
  \<^item> Trap (syscall, trap.c, plic.c, forkret), Alarm, Clock: sigreturn restores the state at which the alarm struck; sys_sleep
    ends after the ticks asked for.
  \<^item> Asm (trampoline.S, swtch.S, kernelvec.S, entry.S): the instructions of these files; registers survive traps and switches.
  \<^item> Boot (start.c, main.c, virtio_disk_init).

  \<^bold>\<open>Loops and bounds.\<close> A loop over a table is \<open>for_n\<close> or \<open>search_n\<close>, over a list it is recursion on the list; loops whose
  end depends on the state are partial functions with the result \<open>None\<close> for not ending, and the theorems about them state
  that they return. There is no fuel, except that scheduler and main, which never return, are looked at for a given
  number of rounds; no theorem bounds that number.

  \<^bold>\<open>Parameters.\<close> The disk as a device (\<open>dev_serve\<close>, after the virtio specification; \<open>dev\<close> for its registers at boot), the
  address translation \<open>tr\<close> of the hardware, addresses set by the linker, the contents of uninitialised local variables that
  reach user space (\<open>junk\<close>, \<open>pad\<close>), and \<open>sw\<close> above.

  \<^bold>\<open>Not modelled.\<close> The user programs (src/initial-xv6/src/user) and mkfs, which are not part of the kernel; ramdisk.c, which
  is not compiled; weak memory: the fences of the code order accesses that the model makes one at a time. Sequential
  theorems about an operation hold for a hart that holds no lock and finds the locks it takes free; contention is in the
  step systems of Spinlock and Sleeplock.
\<close>

end
